(* ===== verification/Prelude.thy ===== *)
theory Prelude
  imports Main "HOL-Library.Word"
begin

text \<open>
  Shared vocabulary of the development: the Rust types the router uses and the
  arithmetic it performs on them, \<open>Result\<close> values and error chains, labelled step
  systems with their invariant rule, and the countdown latch that both
  acknowledgement mechanisms of the program implement.
\<close>

section \<open>Rust types\<close>

text \<open>
  A byte is an 8-bit \<^typ>\<open>char\<close>, so byte strings and UTF-8 \<open>str\<close> values are both
  lists of characters. \<open>AtomicU64\<close> counters and \<open>u64\<close> sequence numbers are 64-bit
  words (addition wraps, as \<open>fetch_add\<close> and release-mode \<open>+=\<close> do). \<open>usize\<close> values are
  \<^typ>\<open>nat\<close>: sums of sizes and \<open>fetch_sub\<close> wrap explicitly (release mode), the one sum the program
  itself guards against overflow saturates, and plain counts of things held in memory are exact. \<open>i32\<close> and \<open>i64\<close> are \<^typ>\<open>int\<close> with
  the wrap-around written out where the program adds to them. A \<open>Duration\<close> is a number
  of nanoseconds.
\<close>

type_synonym bytes = string
type_synonym u64 = "64 word"
type_synonym usize = nat
type_synonym i64 = int
type_synonym i32 = int
type_synonym duration = nat

definition usize_MAX :: usize where
  "usize_MAX = 2 ^ 64 - 1"

definition saturating_add :: "usize \<Rightarrow> usize \<Rightarrow> usize" where
  "saturating_add a b = min (a + b) usize_MAX"

text \<open>Release-mode \<open>usize\<close> addition and \<open>AtomicUsize::fetch_sub\<close>, on a 64-bit target.\<close>

definition wrap_usize :: "nat \<Rightarrow> usize" where
  "wrap_usize n = n mod 2 ^ 64"

definition fetch_sub :: "usize \<Rightarrow> usize \<Rightarrow> usize" where
  "fetch_sub a b = (if b \<le> a then a - b else 2 ^ 64 + a - b)"

definition saturating_sub :: "usize \<Rightarrow> usize \<Rightarrow> usize" where
  "saturating_sub a b = (if b \<le> a then a - b else 0)"

definition u64_saturating_sub :: "u64 \<Rightarrow> u64 \<Rightarrow> u64" where
  "u64_saturating_sub a b = (if b \<le> a then a - b else 0)"

definition wrap_i64 :: "int \<Rightarrow> i64" where
  "wrap_i64 x = (x + 2 ^ 63) mod 2 ^ 64 - 2 ^ 63"

definition is_i64 :: "int \<Rightarrow> bool" where
  "is_i64 x \<longleftrightarrow> - (2 ^ 63) \<le> x \<and> x < 2 ^ 63"

lemma saturating_sub_eq [simp]: "saturating_sub a b = a - b"
  by (simp add: saturating_sub_def)

lemma saturating_add_exact: "a + b \<le> usize_MAX \<Longrightarrow> saturating_add a b = a + b"
  by (simp add: saturating_add_def)

lemma wrap_usize_id [simp]: "n < 2 ^ 64 \<Longrightarrow> wrap_usize n = n"
  by (simp add: wrap_usize_def)

lemma wrap_usize_range: "wrap_usize n \<le> usize_MAX"
  by (simp add: wrap_usize_def usize_MAX_def less_Suc_eq_le [symmetric])

lemma wrap_usize_add: "wrap_usize (wrap_usize a + wrap_usize b) = wrap_usize (a + b)"
  by (simp add: wrap_usize_def mod_simps)

lemma fetch_sub_exact [simp]: "b \<le> a \<Longrightarrow> fetch_sub a b = a - b"
  by (simp add: fetch_sub_def)

lemma wrap_i64_id [simp]: "is_i64 x \<Longrightarrow> wrap_i64 x = x"
  by (simp add: wrap_i64_def is_i64_def)

lemma wrap_i64_range: "is_i64 (wrap_i64 x)"
  unfolding wrap_i64_def is_i64_def using pos_mod_bound [of "2 ^ 64" "x + 2 ^ 63"]
  by simp

lemma unat_of_nat_u64: "n < 2 ^ 64 \<Longrightarrow> unat (of_nat n :: u64) = n"
  by (simp add: unat_of_nat take_bit_nat_eq_self)

lemma of_nat_u64_inj:
  "a < 2 ^ 64 \<Longrightarrow> b < 2 ^ 64 \<Longrightarrow> (of_nat a :: u64) = of_nat b \<longleftrightarrow> a = b"
  using unat_of_nat_u64 by metis

lemma of_nat_u64_0: "n < 2 ^ 64 \<Longrightarrow> (of_nat n :: u64) = 0 \<longleftrightarrow> n = 0"
  using of_nat_u64_inj [of n 0] by simp

section \<open>Results and errors\<close>

text \<open>
  Rust's \<open>Result\<close>, and \<open>anyhow\<close> errors: a message raised by the program, a context
  wrapped around another error, or an error value of type \<open>'x\<close> that a library returned.
\<close>

datatype ('a, 'e) result = Ok 'a | Err 'e

datatype 'x error = Bail string | Context string "'x error" | Foreign 'x

fun is_ok :: "('a, 'e) result \<Rightarrow> bool" where
  "is_ok (Ok _) = True"
| "is_ok (Err _) = False"

fun bind_result :: "('a, 'e) result \<Rightarrow> ('a \<Rightarrow> ('b, 'e) result) \<Rightarrow> ('b, 'e) result" where
  "bind_result (Ok a) f = f a"
| "bind_result (Err e) f = Err e"

text \<open>\<open>Result::and\<close>: the first error, otherwise the second result.\<close>

fun result_and :: "('a, 'e) result \<Rightarrow> ('b, 'e) result \<Rightarrow> ('b, 'e) result" where
  "result_and (Ok _) r = r"
| "result_and (Err e) _ = Err e"

named_theorems ok_iff \<open>when a computation returns \<open>Ok\<close>\<close>

lemma bind_result_ok [ok_iff]:
  "bind_result r f = Ok b \<longleftrightarrow> (\<exists>a. r = Ok a \<and> f a = Ok b)"
  by (cases r) auto

lemma bind_result_err:
  "bind_result r f = Err e \<longleftrightarrow> r = Err e \<or> (\<exists>a. r = Ok a \<and> f a = Err e)"
  by (cases r) auto

lemma result_and_ok [ok_iff]: "result_and r q = Ok b \<longleftrightarrow> is_ok r \<and> q = Ok b"
  by (cases r) auto

lemma is_ok_iff [ok_iff]: "is_ok r \<longleftrightarrow> (\<exists>a. r = Ok a)"
  by (cases r) auto

section \<open>Labelled step systems\<close>

text \<open>
  A component whose moves are chosen by its environment (the scheduler, a channel, a
  broker) is a partial step function: the label says which move is made, \<open>None\<close> that the
  move is not enabled. \<open>run\<close> performs a sequence of moves.
\<close>

fun run :: "('s \<Rightarrow> 'l \<Rightarrow> 's option) \<Rightarrow> 's \<Rightarrow> 'l list \<Rightarrow> 's option" where
  "run step s [] = Some s"
| "run step s (l # ls) = (case step s l of None \<Rightarrow> None | Some t \<Rightarrow> run step t ls)"

lemma run_append:
  "run step s (xs @ ys) = (case run step s xs of None \<Rightarrow> None | Some t \<Rightarrow> run step t ys)"
  by (induction xs arbitrary: s) (auto split: option.splits)

lemma run_snoc_SomeE:
  assumes "run step s (xs @ [x]) = Some u"
  obtains t where "run step s xs = Some t" "step t x = Some u"
  using assms by (auto simp: run_append split: option.splits)

text \<open>Some labels lead from one state to the other.\<close>

definition reaches :: "('s \<Rightarrow> 'l \<Rightarrow> 's option) \<Rightarrow> 's \<Rightarrow> 's \<Rightarrow> bool" where
  "reaches step s t \<longleftrightarrow> (\<exists>ls. run step s ls = Some t)"

lemma reaches_refl [simp]: "reaches step s s"
  unfolding reaches_def by (rule exI [of _ "[]"]) simp

lemma reaches_trans: "reaches step s t \<Longrightarrow> reaches step t u \<Longrightarrow> reaches step s u"
  unfolding reaches_def by (elim exE, rule_tac x = "ls @ lsa" in exI) (simp add: run_append)

lemma reaches_step: "reaches step s t \<Longrightarrow> step t l = Some u \<Longrightarrow> reaches step s u"
  by (rule reaches_trans) (auto simp: reaches_def intro!: exI [of _ "[l]"])

locale step_invariant =
  fixes step :: "'s \<Rightarrow> 'l \<Rightarrow> 's option"
    and inv :: "'s \<Rightarrow> bool"
  assumes step_keeps: "inv s \<Longrightarrow> step s l = Some t \<Longrightarrow> inv t"
begin

lemma run_keeps: "inv s \<Longrightarrow> run step s ls = Some t \<Longrightarrow> inv t"
  by (induction ls arbitrary: s) (auto split: option.splits dest: step_keeps)

lemma prefix_keeps:
  assumes "inv s" "run step s (xs @ ys) = Some t"
  shows "\<exists>u. run step s xs = Some u \<and> inv u"
  using assms by (auto simp: run_append split: option.splits dest: run_keeps)

end

section \<open>Lists\<close>

lemma sum_list_concat_map:
  "(\<Sum>x\<leftarrow>concat xss. f x) = (\<Sum>xs\<leftarrow>xss. \<Sum>x\<leftarrow>xs. (f x :: nat))"
  by (induction xss) auto

lemma length_filter_update:
  assumes "i < length xs"
  shows "length (filter P (xs[i := y])) + (if P (xs ! i) then 1 else 0) =
    length (filter P xs) + (if P y then 1 else 0)"
  using assms
proof (induction xs arbitrary: i)
  case (Cons x xs)
  then show ?case by (cases i) auto
qed simp

lemma list_all_update:
  "i < length xs \<Longrightarrow> list_all P xs \<Longrightarrow> P y \<Longrightarrow> list_all P (xs[i := y])"
  by (auto simp: list_all_iff dest: set_update_subset_insert [THEN subsetD])

lemma mem_update_iff:
  assumes "i < length xs" "xs ! i \<noteq> x"
  shows "x \<in> set (xs[i := y]) \<longleftrightarrow> x = y \<or> x \<in> set xs"
  using assms by (auto simp: in_set_conv_nth nth_list_update)

lemma length_filter_update_same:
  assumes "i < length xs" "P (xs ! i) \<longleftrightarrow> P y"
  shows "length (filter P (xs[i := y])) = length (filter P xs)"
  using length_filter_update [OF assms(1), of P y] assms(2) by auto

lemma nth_update_if: "xs[i := x] ! j = (if i = j \<and> i < length xs then x else xs ! j)"
  by (cases "i < length xs") (auto simp: nth_list_update list_update_beyond)

text \<open>Taking one element out, as \<open>join_next\<close> does to a set of tasks.\<close>

definition remove_nth :: "nat \<Rightarrow> 'a list \<Rightarrow> 'a list" where
  "remove_nth i xs = take i xs @ drop (Suc i) xs"

lemma length_remove_nth [simp]: "i < length xs \<Longrightarrow> length (remove_nth i xs) = length xs - 1"
  by (simp add: remove_nth_def)

lemma set_remove_nth: "set (remove_nth i xs) \<subseteq> set xs"
  unfolding remove_nth_def by (auto dest: in_set_takeD in_set_dropD)

lemma mem_remove_nth:
  assumes "i < length xs" "x \<in> set xs"
  shows "x = xs ! i \<or> x \<in> set (remove_nth i xs)"
  using assms by (subst (asm) id_take_nth_drop [of i xs]) (auto simp: remove_nth_def)

lemma list_all_remove_nth: "list_all P xs \<Longrightarrow> list_all P (remove_nth i xs)"
  using set_remove_nth [of i xs] by (auto simp: list_all_iff)

section \<open>Countdown latches\<close>

text \<open>
  \<open>AckState\<close> in \<open>topology.rs\<close> and \<open>BatchTracker\<close> in \<open>sink/kafka.rs\<close> are the same device:
  a count of outstanding shares, a verdict accumulated from the settlements, and a
  notification that fires when the count reaches zero. The interface: settling \<open>v\<close> takes
  \<open>weight v\<close> shares off the count, folds \<open>v\<close> into the verdict, and reports whether this
  settlement fired the notification; once fired the latch is no longer armed.
\<close>

locale latch =
  fixes settle :: "'v \<Rightarrow> 's \<Rightarrow> 's \<times> bool"
    and remaining :: "'s \<Rightarrow> nat"
    and armed :: "'s \<Rightarrow> bool"
    and verdict :: "'s \<Rightarrow> 'r"
    and weight :: "'v \<Rightarrow> nat"
    and combine :: "'r \<Rightarrow> 'v \<Rightarrow> 'r"
  assumes settle_remaining:
      "0 < weight v \<Longrightarrow> weight v \<le> remaining s \<Longrightarrow> settle v s = (t, f) \<Longrightarrow>
       remaining t = remaining s - weight v"
    and settle_verdict:
      "0 < weight v \<Longrightarrow> weight v \<le> remaining s \<Longrightarrow> settle v s = (t, f) \<Longrightarrow>
       verdict t = combine (verdict s) v"
    and settle_fires:
      "0 < weight v \<Longrightarrow> weight v \<le> remaining s \<Longrightarrow> settle v s = (t, f) \<Longrightarrow>
       f \<longleftrightarrow> remaining s = weight v \<and> armed s"
    and settle_armed:
      "0 < weight v \<Longrightarrow> weight v \<le> remaining s \<Longrightarrow> settle v s = (t, f) \<Longrightarrow>
       armed t \<longleftrightarrow> armed s \<and> \<not> f"
begin

fun settle_all :: "'v list \<Rightarrow> 's \<Rightarrow> 's \<times> nat" where
  "settle_all [] s = (s, 0)"
| "settle_all (v # vs) s =
     (let (t, f) = settle v s; (u, n) = settle_all vs t in (u, (if f then Suc n else n)))"

lemma settle_all_state:
  assumes "\<forall>v \<in> set vs. 0 < weight v" "sum_list (map weight vs) \<le> remaining s"
    "settle_all vs s = (u, n)"
  shows "remaining u = remaining s - sum_list (map weight vs) \<and>
    verdict u = foldl combine (verdict s) vs"
  using assms
proof (induction vs arbitrary: s u n)
  case (Cons v vs)
  obtain t f where sv: "settle v s = (t, f)" by fastforce
  obtain w m where sa: "settle_all vs t = (w, m)" by fastforce
  from Cons.prems have v: "0 < weight v" "weight v \<le> remaining s" by auto
  have r: "remaining t = remaining s - weight v" and "verdict t = combine (verdict s) v"
    using settle_remaining [OF v sv] settle_verdict [OF v sv] by auto
  with Cons.IH [OF _ _ sa] Cons.prems sv sa show ?case by (auto simp: Let_def)
qed simp

lemma settle_all_before_last:
  assumes "\<forall>v \<in> set vs. 0 < weight v" "sum_list (map weight vs) < remaining s"
    "armed s" "settle_all vs s = (u, n)"
  shows "n = 0 \<and> armed u"
  using assms
proof (induction vs arbitrary: s u n)
  case (Cons v vs)
  obtain t f where sv: "settle v s = (t, f)" by fastforce
  obtain w m where sa: "settle_all vs t = (w, m)" by fastforce
  from Cons.prems have v: "0 < weight v" "weight v \<le> remaining s" "weight v \<noteq> remaining s" by auto
  have "\<not> f" using settle_fires [OF v(1,2) sv] v(3) by simp
  with Cons.prems settle_armed [OF v(1,2) sv] settle_remaining [OF v(1,2) sv] have
    "armed t" "sum_list (map weight vs) < remaining t" by auto
  with Cons.IH [OF _ _ _ sa] Cons.prems sv sa \<open>\<not> f\<close> show ?case by (auto simp: Let_def)
qed simp

lemma settle_all_append:
  assumes "settle_all xs s = (t, m)" "settle_all ys t = (u, n)"
  shows "settle_all (xs @ ys) s = (u, m + n)"
  using assms
proof (induction xs arbitrary: s m)
  case (Cons x xs)
  obtain s' f where "settle x s = (s', f)" by fastforce
  moreover obtain t' m' where "settle_all xs s' = (t', m')" by fastforce
  ultimately show ?case using Cons by (auto simp: Let_def split: if_splits)
qed simp

text \<open>Settling every share fires the notification exactly once, at the last settlement.\<close>

lemma settle_all_fires_once:
  assumes vs: "\<forall>v \<in> set vs. 0 < weight v" and sum: "sum_list (map weight vs) = remaining s"
    and s: "armed s" "0 < remaining s" and sa: "settle_all vs s = (u, n)"
  shows "n = 1 \<and> \<not> armed u \<and> remaining u = 0 \<and> verdict u = foldl combine (verdict s) vs"
proof -
  from sum s(2) have "vs \<noteq> []" by auto
  then obtain ws v where w: "vs = ws @ [v]" by (metis append_butlast_last_id)
  obtain t m where st: "settle_all ws s = (t, m)" by fastforce
  obtain u' f where su: "settle v t = (u', f)" by fastforce
  from vs sum w have lt: "sum_list (map weight ws) < remaining s" "0 < weight v"
    "\<forall>v \<in> set ws. 0 < weight v" by auto
  have t: "m = 0" "armed t" using settle_all_before_last [OF lt(3,1) s(1) st] by auto
  have r: "remaining t = weight v"
    using settle_all_state [OF lt(3) _ st] lt(1) sum w by auto
  have f: f "\<not> armed u'"
    using settle_fires [OF lt(2) _ su] settle_armed [OF lt(2) _ su] r t by auto
  have "settle_all [v] t = (u', 1)" using su f by simp
  from settle_all_append [OF st this] w sa t have un: "u = u'" "n = 1" by auto
  with settle_all_state [OF vs _ sa] sum f show ?thesis by auto
qed

end

end
