(* ===== verification/Event.thy ===== *)
theory Event
  imports Prelude
begin

text \<open>
  \<open>src/event.rs\<close>: the transport-neutral event, the batch with its precomputed size, and
  the arena \<open>BatchBuffer\<close> that turns per-message allocations into per-chunk ones. The
  arena is built on \<open>BytesMut\<close> of the \<open>bytes\<close> crate, which is a parameter here: a
  record of the operations the arena calls, with the documented behaviour it relies on
  collected in \<open>bytes_mut_laws\<close>.
\<close>

section \<open>Events and batches\<close>

record source_metadata =
  component_id :: string
  topic :: string
  partition :: i32
  offset :: i64

record event =
  key :: "bytes option"
  payload :: bytes
  timestamp_ms :: "i64 option"
  source :: source_metadata

text \<open>
  \<open>size_of::<Event>()\<close> is a layout constant the compiler chooses; it is the first
  argument of every definition that depends on it.
\<close>

definition estimated_size :: "usize \<Rightarrow> event \<Rightarrow> usize" where
  "estimated_size size_of e =
     wrap_usize (size_of + (case key e of None \<Rightarrow> 0 | Some k \<Rightarrow> length k) + length (payload e))"

record event_batch =
  batch_events :: "event list"
  batch_bytes :: usize

definition EventBatch_new :: "usize \<Rightarrow> event list \<Rightarrow> event_batch" where
  "EventBatch_new size_of es =
     \<lparr>batch_events = es, batch_bytes = wrap_usize (sum_list (map (estimated_size size_of) es))\<rparr>"

definition batch_len :: "event_batch \<Rightarrow> usize" where
  "batch_len b = length (batch_events b)"

definition batch_is_empty :: "event_batch \<Rightarrow> bool" where
  "batch_is_empty b \<longleftrightarrow> batch_events b = []"

text \<open>The events a sink sees when it is handed several coalesced batches.\<close>

definition flat_events :: "event_batch list \<Rightarrow> event list" where
  "flat_events bs = concat (map batch_events bs)"

lemma EventBatch_new_simps [simp]:
  "batch_events (EventBatch_new z es) = es"
  "batch_len (EventBatch_new z es) = length es"
  "batch_bytes (EventBatch_new z es) = wrap_usize (sum_list (map (estimated_size z) es))"
  by (simp_all add: EventBatch_new_def batch_len_def)

lemma length_flat_events: "length (flat_events bs) = sum_list (map batch_len bs)"
  by (induction bs) (auto simp: flat_events_def batch_len_def)

lemma flat_events_simps [simp]:
  "flat_events [] = []"
  "flat_events (b # bs) = batch_events b @ flat_events bs"
  "flat_events (as @ bs) = flat_events as @ flat_events bs"
  by (simp_all add: flat_events_def)

section \<open>The arena\<close>

record 'm bytes_mut_ops =
  bm_new :: 'm
  bm_with_capacity :: "usize \<Rightarrow> 'm"
  bm_capacity :: "'m \<Rightarrow> usize"
  bm_extend_from_slice :: "'m \<Rightarrow> bytes \<Rightarrow> 'm"
  bm_split_to :: "'m \<Rightarrow> usize \<Rightarrow> 'm \<times> 'm"
  bm_freeze :: "'m \<Rightarrow> bytes"

text \<open>
  What the arena relies on of \<open>BytesMut\<close>: a fresh buffer is empty and has at least the
  capacity asked for; \<open>extend_from_slice\<close> appends, and keeps the allocation while the
  bytes fit; \<open>split_to n\<close> returns the first \<open>n\<close> bytes and leaves the rest together with
  the unused capacity; \<open>freeze\<close> is the contents.
\<close>

definition bytes_mut_laws :: "'m bytes_mut_ops \<Rightarrow> bool" where
  "bytes_mut_laws ops \<longleftrightarrow>
     bm_freeze ops (bm_new ops) = [] \<and>
     (\<forall>n. bm_freeze ops (bm_with_capacity ops n) = [] \<and>
          n \<le> bm_capacity ops (bm_with_capacity ops n)) \<and>
     (\<forall>m xs. bm_freeze ops (bm_extend_from_slice ops m xs) = bm_freeze ops m @ xs \<and>
          (length (bm_freeze ops m) + length xs \<le> bm_capacity ops m \<longrightarrow>
           bm_capacity ops (bm_extend_from_slice ops m xs) = bm_capacity ops m)) \<and>
     (\<forall>m n f r. n \<le> length (bm_freeze ops m) \<and> bm_split_to ops m n = (f, r) \<longrightarrow>
          bm_freeze ops f = take n (bm_freeze ops m) \<and>
          bm_freeze ops r = drop n (bm_freeze ops m) \<and>
          bm_capacity ops r = bm_capacity ops m - n)"

lemma bytes_mut_lawsD:
  assumes "bytes_mut_laws ops"
  shows "bm_freeze ops (bm_new ops) = []"
    and "bm_freeze ops (bm_with_capacity ops n) = []"
    and "n \<le> bm_capacity ops (bm_with_capacity ops n)"
    and "bm_freeze ops (bm_extend_from_slice ops m xs) = bm_freeze ops m @ xs"
    and "length (bm_freeze ops m) + length xs \<le> bm_capacity ops m \<Longrightarrow>
      bm_capacity ops (bm_extend_from_slice ops m xs) = bm_capacity ops m"
    and "n \<le> length (bm_freeze ops m) \<Longrightarrow> bm_split_to ops m n = (f, r) \<Longrightarrow>
      bm_freeze ops f = take n (bm_freeze ops m) \<and>
      bm_freeze ops r = drop n (bm_freeze ops m) \<and>
      bm_capacity ops r = bm_capacity ops m - n"
  using assms unfolding bytes_mut_laws_def by blast+

definition DEFAULT_CHUNK_BYTES :: usize where
  "DEFAULT_CHUNK_BYTES = 1024 * 1024"

record 'm batch_buffer =
  chunk :: usize
  buffer :: 'm

definition with_chunk :: "'m bytes_mut_ops \<Rightarrow> usize \<Rightarrow> 'm batch_buffer" where
  "with_chunk ops c = \<lparr>chunk = max c 1, buffer = bm_new ops\<rparr>"

definition BatchBuffer_default :: "'m bytes_mut_ops \<Rightarrow> 'm batch_buffer" where
  "BatchBuffer_default ops = with_chunk ops DEFAULT_CHUNK_BYTES"

text \<open>Whether a copy starts a new chunk: the remaining-space check of \<open>copy\<close>.\<close>

definition needs_chunk :: "'m bytes_mut_ops \<Rightarrow> 'm batch_buffer \<Rightarrow> bytes \<Rightarrow> bool" where
  "needs_chunk ops bb src \<longleftrightarrow> bm_capacity ops (buffer bb) < length src"

definition room_for :: "'m bytes_mut_ops \<Rightarrow> 'm batch_buffer \<Rightarrow> bytes \<Rightarrow> 'm" where
  "room_for ops bb src =
     (if needs_chunk ops bb src then bm_with_capacity ops (max (chunk bb) (length src))
      else buffer bb)"

definition copy :: "'m bytes_mut_ops \<Rightarrow> 'm batch_buffer \<Rightarrow> bytes \<Rightarrow> 'm batch_buffer \<times> bytes" where
  "copy ops bb src =
     (if src = [] then (bb, [])
      else
        let filled = bm_extend_from_slice ops (room_for ops bb src) src;
            (front, rest) = bm_split_to ops filled (length src)
        in (bb\<lparr>buffer := rest\<rparr>, bm_freeze ops front))"

fun copy_all ::
  "'m bytes_mut_ops \<Rightarrow> 'm batch_buffer \<Rightarrow> bytes list \<Rightarrow> 'm batch_buffer \<times> bytes list" where
  "copy_all ops bb [] = (bb, [])"
| "copy_all ops bb (s # ss) =
     (let (bb1, v) = copy ops bb s; (bb2, vs) = copy_all ops bb1 ss in (bb2, v # vs))"

text \<open>How many chunks a sequence of copies allocates.\<close>

fun allocations :: "'m bytes_mut_ops \<Rightarrow> 'm batch_buffer \<Rightarrow> bytes list \<Rightarrow> nat" where
  "allocations ops bb [] = 0"
| "allocations ops bb (s # ss) =
     (if s \<noteq> [] \<and> needs_chunk ops bb s then 1 else 0) + allocations ops (fst (copy ops bb s)) ss"

text \<open>Between two copies the arena's buffer holds no bytes, only spare capacity.\<close>

definition arena_inv :: "'m bytes_mut_ops \<Rightarrow> 'm batch_buffer \<Rightarrow> bool" where
  "arena_inv ops bb \<longleftrightarrow> bm_freeze ops (buffer bb) = [] \<and> 1 \<le> chunk bb"

lemma with_chunk_inv [simp]: "bytes_mut_laws ops \<Longrightarrow> arena_inv ops (with_chunk ops c)"
  by (simp add: arena_inv_def with_chunk_def bytes_mut_lawsD(1))

lemma arena_inv_default [simp]: "bytes_mut_laws ops \<Longrightarrow> arena_inv ops (BatchBuffer_default ops)"
  by (simp add: BatchBuffer_default_def)

lemma room_for_fits:
  assumes "bytes_mut_laws ops" "arena_inv ops bb"
  shows "bm_freeze ops (room_for ops bb src) = []"
    and "length src \<le> bm_capacity ops (room_for ops bb src)"
  using assms bytes_mut_lawsD(3) [OF assms(1), of "max (chunk bb) (length src)"]
  by (auto simp: room_for_def needs_chunk_def arena_inv_def bytes_mut_lawsD(2))

lemma copy_correct:
  assumes laws: "bytes_mut_laws ops" and inv: "arena_inv ops bb" and c: "copy ops bb src = (bb', v)"
  shows "v = src" and "arena_inv ops bb'" and "chunk bb' = chunk bb"
    and "src \<noteq> [] \<Longrightarrow>
      bm_capacity ops (buffer bb') = bm_capacity ops (room_for ops bb src) - length src"
proof -
  let ?m = "bm_extend_from_slice ops (room_for ops bb src) src"
  obtain f r where s: "bm_split_to ops ?m (length src) = (f, r)" by fastforce
  note room = room_for_fits [OF laws inv, of src]
  have m: "bm_freeze ops ?m = src" "bm_capacity ops ?m = bm_capacity ops (room_for ops bb src)"
    using bytes_mut_lawsD(4) [OF laws] bytes_mut_lawsD(5) [OF laws] room by auto
  have "bm_freeze ops f = src" "bm_freeze ops r = []"
    "bm_capacity ops r = bm_capacity ops (room_for ops bb src) - length src"
    using bytes_mut_lawsD(6) [OF laws _ s] m by auto
  then show "v = src" "arena_inv ops bb'" "chunk bb' = chunk bb"
    "src \<noteq> [] \<Longrightarrow>
      bm_capacity ops (buffer bb') = bm_capacity ops (room_for ops bb src) - length src"
    using c s inv by (auto simp: copy_def Let_def arena_inv_def split: if_splits)
qed

lemma copy_all_correct:
  assumes "bytes_mut_laws ops" "arena_inv ops bb" "copy_all ops bb srcs = (bb', vs)"
  shows "vs = srcs \<and> arena_inv ops bb'"
  using assms
proof (induction srcs arbitrary: bb bb' vs)
  case (Cons s ss)
  obtain b1 v where c: "copy ops bb s = (b1, v)" by fastforce
  obtain b2 ws where "copy_all ops b1 ss = (b2, ws)" by fastforce
  with Cons c copy_correct [OF Cons.prems(1,2) c] show ?case by (auto simp: Let_def)
qed simp

text \<open>
  The potential argument behind the allocation bound: the shortfall of the current
  chunk pays for the next one.
\<close>

lemma allocations_potential:
  assumes "bytes_mut_laws ops" "arena_inv ops bb" "chunk bb = c"
  shows "c * allocations ops bb srcs \<le>
    2 * sum_list (map length srcs) + (c - bm_capacity ops (buffer bb))"
  using assms(2,3)
proof (induction srcs arbitrary: bb)
  case (Cons s ss)
  obtain b1 v where c: "copy ops bb s = (b1, v)" by fastforce
  note cc = copy_correct [OF assms(1) Cons.prems(1) c]
  have IH: "c * allocations ops b1 ss \<le>
      2 * sum_list (map length ss) + (c - bm_capacity ops (buffer b1))"
    using Cons.IH [OF cc(2)] cc(3) Cons.prems(2) by simp
  show ?case
  proof (cases "s = []")
    case True
    with c have "b1 = bb" by (simp add: copy_def)
    with IH True c show ?thesis by simp
  next
    case nonempty: False
    show ?thesis
    proof (cases "needs_chunk ops bb s")
      case True
      then have "max c (length s) \<le> bm_capacity ops (room_for ops bb s)"
        using bytes_mut_lawsD(3) [OF assms(1)] Cons.prems(2) by (simp add: room_for_def)
      with cc(4) [OF nonempty]
      have "c - bm_capacity ops (buffer b1) \<le> min c (length s)" by linarith
      moreover have "c + min c (length s) \<le> 2 * length s + (c - bm_capacity ops (buffer bb))"
        using True by (auto simp: needs_chunk_def)
      ultimately show ?thesis using IH c nonempty True by (simp add: algebra_simps)
    next
      case False
      then have "bm_capacity ops (buffer b1) = bm_capacity ops (buffer bb) - length s"
        using cc(4) [OF nonempty] by (simp add: room_for_def)
      then have "c - bm_capacity ops (buffer b1) \<le> length s + (c - bm_capacity ops (buffer bb))"
        by arith
      with IH c False show ?thesis by simp
    qed
  qed
qed simp

section \<open>A reference buffer\<close>

text \<open>
  A buffer that is a byte list with a capacity satisfies the laws, so the theorems about
  the arena are about something.
\<close>

definition list_bytes_mut :: "(bytes \<times> usize) bytes_mut_ops" where
  "list_bytes_mut = \<lparr>
     bm_new = ([], 0),
     bm_with_capacity = (\<lambda>n. ([], n)),
     bm_capacity = snd,
     bm_extend_from_slice = (\<lambda>(xs, c) ys. (xs @ ys, max c (length xs + length ys))),
     bm_split_to = (\<lambda>(xs, c) n. ((take n xs, n), (drop n xs, c - n))),
     bm_freeze = fst\<rparr>"

lemma list_bytes_mut_laws: "bytes_mut_laws list_bytes_mut"
  by (auto simp: bytes_mut_laws_def list_bytes_mut_def)

section \<open>Properties\<close>

text \<open>
  C35: the views a fresh arena hands out for any sequence of copies are exactly the bytes
  that were copied, whatever chunk size was asked for (0 included), and afterwards the
  arena's buffer is again empty, so a later copy cannot disturb an earlier view.
\<close>

theorem arena_copies_are_faithful:
  assumes "bytes_mut_laws ops" and "copy_all ops (with_chunk ops c) srcs = (bb, vs)"
  shows "vs = srcs \<and> arena_inv ops bb"
  using copy_all_correct [OF assms(1) with_chunk_inv [OF assms(1)] assms(2)] .

theorem arena_copies_are_faithful_witness:
  "bytes_mut_laws list_bytes_mut \<and>
   snd (copy_all list_bytes_mut (with_chunk list_bytes_mut 4) [''abc'', [], ''defghi'', ''j'']) =
     [''abc'', [], ''defghi'', ''j'']"
  using list_bytes_mut_laws
    arena_copies_are_faithful [OF list_bytes_mut_laws, of 4 "[''abc'', [], ''defghi'', ''j'']"]
  by (cases "copy_all list_bytes_mut (with_chunk list_bytes_mut 4) [''abc'', [], ''defghi'', ''j'']")
     auto

text \<open>
  C36: the arena allocates about one chunk per chunk of bytes copied rather than one
  buffer per message: chunk size times allocations never exceeds twice the bytes copied
  plus one chunk, for any sequence of copies.
\<close>

theorem arena_allocations_bounded:
  assumes "bytes_mut_laws ops"
  shows "max c 1 * allocations ops (with_chunk ops c) srcs \<le>
    2 * sum_list (map length srcs) + max c 1"
  using allocations_potential [OF assms with_chunk_inv [OF assms], of c "max c 1" srcs]
  by (simp add: with_chunk_def)

theorem arena_allocations_bounded_witness:
  "bytes_mut_laws list_bytes_mut \<and>
   4 * allocations list_bytes_mut (with_chunk list_bytes_mut 4) [''ab'', ''abc'', ''d''] \<le>
     2 * 6 + 4"
  using list_bytes_mut_laws
    arena_allocations_bounded [OF list_bytes_mut_laws, of 4 "[''ab'', ''abc'', ''d'']"]
  by simp

text \<open>
  A batch's precomputed byte count is, modulo the width of \<open>usize\<close>, the struct footprint of
  every event plus every key and payload byte; it is exact when that total fits.
\<close>

definition footprint :: "usize \<Rightarrow> event list \<Rightarrow> nat" where
  "footprint size_of es = size_of * length es +
     (\<Sum>e\<leftarrow>es. length (case key e of None \<Rightarrow> [] | Some k \<Rightarrow> k)) + (\<Sum>e\<leftarrow>es. length (payload e))"

lemma sum_estimated_sizes:
  "wrap_usize (sum_list (map (estimated_size size_of) es)) = wrap_usize (footprint size_of es)"
proof (induction es)
  case (Cons e es)
  let ?n = "size_of + (case key e of None \<Rightarrow> 0 | Some k \<Rightarrow> length k) + length (payload e)"
  have "wrap_usize (sum_list (map (estimated_size size_of) (e # es))) =
      wrap_usize (wrap_usize (wrap_usize ?n) + wrap_usize (sum_list (map (estimated_size size_of) es)))"
    by (simp only: wrap_usize_add) (simp add: estimated_size_def)
  also have "\<dots> = wrap_usize (wrap_usize ?n + wrap_usize (footprint size_of es))"
    unfolding Cons.IH by (simp add: wrap_usize_def)
  also have "\<dots> = wrap_usize (footprint size_of (e # es))"
    unfolding wrap_usize_add by (simp add: footprint_def algebra_simps split: option.split)
  finally show ?case .
qed (simp add: footprint_def)

theorem batch_bytes_counts_everything:
  "batch_bytes (EventBatch_new size_of es) = wrap_usize (footprint size_of es)"
  by (simp add: sum_estimated_sizes)

theorem batch_bytes_exact:
  "footprint size_of es \<le> usize_MAX \<Longrightarrow> batch_bytes (EventBatch_new size_of es) = footprint size_of es"
  by (simp add: sum_estimated_sizes usize_MAX_def)

lemma batch_bytes_range: "batch_bytes (EventBatch_new size_of es) \<le> usize_MAX"
  by (simp add: wrap_usize_range)

end
