(* ===== verification/Config.thy ===== *)
theory Config
  imports Prelude Complex_Main
begin

text \<open>
  \<open>src/config.rs\<close>: the configuration structs, their serde defaults, the accessors the
  runtime uses, and \<open>Config::validate\<close>. Reading the file and parsing TOML are library work
  and not modelled. A \<open>HashMap\<close> is the list of its entries in iteration order, which Rust
  leaves unspecified: every theorem is about an arbitrary such list. Each \<open>bail!\<close> is a
  constructor of \<open>config_error\<close> carrying what its message interpolates.
\<close>

section \<open>Structs\<close>

type_synonym u32 = "32 word"

text \<open>An \<open>f64\<close> as far as the configuration compares it.\<close>

datatype f64 = NaN | Infinity bool | Finite rat

fun f64_in_unit_range :: "f64 \<Rightarrow> bool" where
  "f64_in_unit_range (Finite x) = (0 \<le> x \<and> x \<le> 1)"
| "f64_in_unit_range _ = False"

record metrics_config =
  log_interval_seconds :: u64
  listen :: "string option"

record kafka_source_config =
  ks_brokers :: string
  ks_group_id :: string
  ks_topics :: "string list"
  ks_session_timeout_ms :: u64
  ks_batch_size :: usize
  ks_batch_linger_ms :: u64
  ks_max_in_flight_batches :: usize
  ks_max_in_flight_bytes :: usize
  ks_queued_max_messages_kbytes :: u64
  ks_queued_min_messages :: u64
  ks_max_poll_interval_ms :: u64
  ks_client_config :: "(string \<times> string) list"

datatype source_config = SourceKafka kafka_source_config

record kafka_sink_config =
  kk_inputs :: "string list"
  kk_brokers :: string
  kk_topic :: string
  kk_delivery_timeout_ms :: u64
  kk_buffer_capacity :: usize
  kk_batch_max_events :: usize
  kk_batch_max_bytes :: usize
  kk_batch_linger_ms :: u64
  kk_max_concurrent_writes :: usize
  kk_retry_max_attempts :: u32
  kk_retry_initial_backoff_ms :: u64
  kk_retry_max_backoff_ms :: u64
  kk_acks :: string
  kk_enable_idempotence :: bool
  kk_compression_type :: string
  kk_producer_linger_ms :: u64
  kk_producer_batch_num_messages :: u64
  kk_queue_buffering_max_messages :: u64
  kk_queue_buffering_max_kbytes :: u64
  kk_client_config :: "(string \<times> string) list"

datatype clickhouse_schema = SchemaEvent | SchemaJson

record metadata_columns_config =
  mcc_topic :: "string option"
  mcc_partition :: "string option"
  mcc_offset :: "string option"
  mcc_timestamp :: "string option"
  mcc_key :: "string option"

record clickhouse_sink_config =
  ch_inputs :: "string list"
  ch_endpoint :: string
  ch_database :: string
  ch_table :: string
  ch_user :: string
  ch_password :: string
  ch_buffer_capacity :: usize
  ch_batch_max_events :: usize
  ch_batch_max_bytes :: usize
  ch_batch_linger_ms :: u64
  ch_schema :: clickhouse_schema
  ch_metadata_columns :: metadata_columns_config
  ch_allow_errors_num :: u64
  ch_allow_errors_ratio :: f64
  ch_max_concurrent_writes :: usize
  ch_retry_max_attempts :: u32
  ch_retry_initial_backoff_ms :: u64
  ch_retry_max_backoff_ms :: u64

datatype sink_config = SinkKafka kafka_sink_config | SinkClickhouse clickhouse_sink_config

record config =
  cfg_sources :: "(string \<times> source_config) list"
  cfg_sinks :: "(string \<times> sink_config) list"
  cfg_metrics :: metrics_config

record delivery_settings =
  max_concurrent_writes :: usize
  retry_max_attempts :: u32
  retry_initial_backoff :: duration
  retry_max_backoff :: duration

section \<open>Defaults\<close>

definition default_log_interval_seconds :: u64 where "default_log_interval_seconds = 10"
definition default_session_timeout_ms :: u64 where "default_session_timeout_ms = 45000"
definition default_batch_size :: usize where "default_batch_size = 1000"
definition default_batch_linger_ms :: u64 where "default_batch_linger_ms = 5"
definition default_max_in_flight_batches :: usize where "default_max_in_flight_batches = 8"
definition default_max_in_flight_bytes :: usize where "default_max_in_flight_bytes = 256 * 1024 * 1024"
definition default_queued_max_messages_kbytes :: u64 where "default_queued_max_messages_kbytes = 65536"
definition default_queued_min_messages :: u64 where "default_queued_min_messages = 100000"
definition default_max_poll_interval_ms :: u64 where "default_max_poll_interval_ms = 300000"
definition default_delivery_timeout_ms :: u64 where "default_delivery_timeout_ms = 30000"
definition default_buffer_capacity :: usize where "default_buffer_capacity = 32"
definition default_sink_batch_events :: usize where "default_sink_batch_events = 10000"
definition default_sink_batch_bytes :: usize where "default_sink_batch_bytes = 16 * 1024 * 1024"
definition default_kafka_sink_linger_ms :: u64 where "default_kafka_sink_linger_ms = 5"
definition default_clickhouse_sink_linger_ms :: u64 where "default_clickhouse_sink_linger_ms = 50"
definition default_database :: string where "default_database = ''default''"
definition default_acks :: string where "default_acks = ''all''"
definition default_compression_type :: string where "default_compression_type = ''lz4''"
definition default_producer_linger_ms :: u64 where "default_producer_linger_ms = 5"
definition default_producer_batch_num_messages :: u64 where "default_producer_batch_num_messages = 10000"
definition default_queue_buffering_max_messages :: u64 where "default_queue_buffering_max_messages = 100000"
definition default_queue_buffering_max_kbytes :: u64 where "default_queue_buffering_max_kbytes = 1048576"
definition default_max_concurrent_writes :: usize where "default_max_concurrent_writes = 1"
definition default_retry_max_attempts :: u32 where "default_retry_max_attempts = 5"
definition default_retry_initial_backoff_ms :: u64 where "default_retry_initial_backoff_ms = 100"
definition default_retry_max_backoff_ms :: u64 where "default_retry_max_backoff_ms = 5000"

lemmas default_defs = default_log_interval_seconds_def default_session_timeout_ms_def
  default_batch_size_def default_batch_linger_ms_def default_max_in_flight_batches_def
  default_max_in_flight_bytes_def default_queued_max_messages_kbytes_def
  default_queued_min_messages_def default_max_poll_interval_ms_def default_delivery_timeout_ms_def
  default_buffer_capacity_def default_sink_batch_events_def default_sink_batch_bytes_def
  default_kafka_sink_linger_ms_def default_clickhouse_sink_linger_ms_def default_database_def
  default_acks_def default_compression_type_def default_producer_linger_ms_def
  default_producer_batch_num_messages_def default_queue_buffering_max_messages_def
  default_queue_buffering_max_kbytes_def default_max_concurrent_writes_def
  default_retry_max_attempts_def default_retry_initial_backoff_ms_def default_retry_max_backoff_ms_def

text \<open>The struct serde builds when only the required keys are present.\<close>

definition MetricsConfig_default :: metrics_config where
  "MetricsConfig_default = \<lparr>log_interval_seconds = default_log_interval_seconds, listen = None\<rparr>"

definition MetadataColumnsConfig_default :: metadata_columns_config where
  "MetadataColumnsConfig_default = \<lparr>mcc_topic = None, mcc_partition = None, mcc_offset = None,
     mcc_timestamp = None, mcc_key = None\<rparr>"

definition kafka_source_required :: "string \<Rightarrow> string \<Rightarrow> string list \<Rightarrow> kafka_source_config" where
  "kafka_source_required brokers group_id topics = \<lparr>
     ks_brokers = brokers, ks_group_id = group_id, ks_topics = topics,
     ks_session_timeout_ms = default_session_timeout_ms,
     ks_batch_size = default_batch_size,
     ks_batch_linger_ms = default_batch_linger_ms,
     ks_max_in_flight_batches = default_max_in_flight_batches,
     ks_max_in_flight_bytes = default_max_in_flight_bytes,
     ks_queued_max_messages_kbytes = default_queued_max_messages_kbytes,
     ks_queued_min_messages = default_queued_min_messages,
     ks_max_poll_interval_ms = default_max_poll_interval_ms,
     ks_client_config = []\<rparr>"

definition kafka_sink_required :: "string list \<Rightarrow> string \<Rightarrow> string \<Rightarrow> kafka_sink_config" where
  "kafka_sink_required inputs brokers topic = \<lparr>
     kk_inputs = inputs, kk_brokers = brokers, kk_topic = topic,
     kk_delivery_timeout_ms = default_delivery_timeout_ms,
     kk_buffer_capacity = default_buffer_capacity,
     kk_batch_max_events = default_sink_batch_events,
     kk_batch_max_bytes = default_sink_batch_bytes,
     kk_batch_linger_ms = default_kafka_sink_linger_ms,
     kk_max_concurrent_writes = default_max_concurrent_writes,
     kk_retry_max_attempts = default_retry_max_attempts,
     kk_retry_initial_backoff_ms = default_retry_initial_backoff_ms,
     kk_retry_max_backoff_ms = default_retry_max_backoff_ms,
     kk_acks = default_acks,
     kk_enable_idempotence = True,
     kk_compression_type = default_compression_type,
     kk_producer_linger_ms = default_producer_linger_ms,
     kk_producer_batch_num_messages = default_producer_batch_num_messages,
     kk_queue_buffering_max_messages = default_queue_buffering_max_messages,
     kk_queue_buffering_max_kbytes = default_queue_buffering_max_kbytes,
     kk_client_config = []\<rparr>"

definition clickhouse_sink_required :: "string list \<Rightarrow> string \<Rightarrow> string \<Rightarrow> clickhouse_sink_config" where
  "clickhouse_sink_required inputs endpoint table = \<lparr>
     ch_inputs = inputs, ch_endpoint = endpoint, ch_database = default_database, ch_table = table,
     ch_user = [], ch_password = [],
     ch_buffer_capacity = default_buffer_capacity,
     ch_batch_max_events = default_sink_batch_events,
     ch_batch_max_bytes = default_sink_batch_bytes,
     ch_batch_linger_ms = default_clickhouse_sink_linger_ms,
     ch_schema = SchemaEvent,
     ch_metadata_columns = MetadataColumnsConfig_default,
     ch_allow_errors_num = 0,
     ch_allow_errors_ratio = Finite 0,
     ch_max_concurrent_writes = default_max_concurrent_writes,
     ch_retry_max_attempts = default_retry_max_attempts,
     ch_retry_initial_backoff_ms = default_retry_initial_backoff_ms,
     ch_retry_max_backoff_ms = default_retry_max_backoff_ms\<rparr>"

section \<open>Accessors\<close>

definition from_millis :: "u64 \<Rightarrow> duration" where
  "from_millis ms = unat ms * 1000000"

definition log_interval :: "metrics_config \<Rightarrow> duration" where
  "log_interval m = unat (log_interval_seconds m) * 1000000000"

definition metadata_columns_config_is_empty :: "metadata_columns_config \<Rightarrow> bool" where
  "metadata_columns_config_is_empty m \<longleftrightarrow> m = MetadataColumnsConfig_default"

fun sink_inputs :: "sink_config \<Rightarrow> string list" where
  "sink_inputs (SinkKafka c) = kk_inputs c"
| "sink_inputs (SinkClickhouse c) = ch_inputs c"

fun sink_buffer_capacity :: "sink_config \<Rightarrow> usize" where
  "sink_buffer_capacity (SinkKafka c) = kk_buffer_capacity c"
| "sink_buffer_capacity (SinkClickhouse c) = ch_buffer_capacity c"

fun batch_limits :: "sink_config \<Rightarrow> usize \<times> usize" where
  "batch_limits (SinkKafka c) = (kk_batch_max_events c, kk_batch_max_bytes c)"
| "batch_limits (SinkClickhouse c) = (ch_batch_max_events c, ch_batch_max_bytes c)"

text \<open>The \<open>delivery_settings!\<close> macro, on the four fields that both sink configurations have.\<close>

definition delivery_settings_of :: "usize \<Rightarrow> u32 \<Rightarrow> u64 \<Rightarrow> u64 \<Rightarrow> delivery_settings" where
  [simp]: "delivery_settings_of writes attempts initial_ms max_ms = \<lparr>
     max_concurrent_writes = max writes 1,
     retry_max_attempts = max attempts 1,
     retry_initial_backoff = from_millis initial_ms,
     retry_max_backoff = from_millis max_ms\<rparr>"

fun runtime_settings :: "sink_config \<Rightarrow> delivery_settings" where
  "runtime_settings (SinkKafka c) = delivery_settings_of (kk_max_concurrent_writes c)
     (kk_retry_max_attempts c) (kk_retry_initial_backoff_ms c) (kk_retry_max_backoff_ms c)"
| "runtime_settings (SinkClickhouse c) = delivery_settings_of (ch_max_concurrent_writes c)
     (ch_retry_max_attempts c) (ch_retry_initial_backoff_ms c) (ch_retry_max_backoff_ms c)"

section \<open>Validation\<close>

datatype config_error =
    NoSources
  | NoSinks
  | SinkNoInputs string
  | SinkZeroBuffer string
  | SinkZeroBatchLimits string
  | SinkMetadataInEventMode string
  | SinkErrorsRatio string
  | SinkBackoffOrder string
  | SinkUnknownInput string string
  | SourceNoTopics string
  | SourceZeroLimits string

text \<open>A \<open>for\<close> loop over a body that may return early with an error.\<close>

fun for_each :: "('a \<Rightarrow> (unit, 'e) result) \<Rightarrow> 'a list \<Rightarrow> (unit, 'e) result" where
  "for_each f [] = Ok ()"
| "for_each f (x # xs) = bind_result (f x) (\<lambda>_. for_each f xs)"

definition contains_key :: "(string \<times> 'v) list \<Rightarrow> string \<Rightarrow> bool" where
  "contains_key m k \<longleftrightarrow> k \<in> set (map fst m)"

fun validate_clickhouse :: "string \<Rightarrow> sink_config \<Rightarrow> (unit, config_error) result" where
  "validate_clickhouse sid (SinkClickhouse c) =
     (if ch_schema c = SchemaEvent \<and> \<not> metadata_columns_config_is_empty (ch_metadata_columns c)
      then Err (SinkMetadataInEventMode sid)
      else if \<not> f64_in_unit_range (ch_allow_errors_ratio c) then Err (SinkErrorsRatio sid)
      else Ok ())"
| "validate_clickhouse sid (SinkKafka _) = Ok ()"

definition validate_sink ::
  "(string \<times> source_config) list \<Rightarrow> string \<times> sink_config \<Rightarrow> (unit, config_error) result" where
  "validate_sink sources = (\<lambda>(sid, sink).
     if sink_inputs sink = [] then Err (SinkNoInputs sid)
     else if sink_buffer_capacity sink = 0 then Err (SinkZeroBuffer sid)
     else if fst (batch_limits sink) = 0 \<or> snd (batch_limits sink) = 0
       then Err (SinkZeroBatchLimits sid)
     else bind_result (validate_clickhouse sid sink) (\<lambda>_.
       if retry_initial_backoff (runtime_settings sink) > retry_max_backoff (runtime_settings sink)
       then Err (SinkBackoffOrder sid)
       else for_each (\<lambda>input. if \<not> contains_key sources input then Err (SinkUnknownInput sid input)
                              else Ok ()) (sink_inputs sink)))"

fun validate_source :: "string \<times> source_config \<Rightarrow> (unit, config_error) result" where
  "validate_source (sid, SourceKafka c) =
     (if ks_topics c = [] then Err (SourceNoTopics sid)
      else if ks_batch_size c = 0 \<or> ks_max_in_flight_batches c = 0 \<or> ks_max_in_flight_bytes c = 0
        then Err (SourceZeroLimits sid)
      else Ok ())"

definition validate :: "config \<Rightarrow> (unit, config_error) result" where
  "validate c =
     (if cfg_sources c = [] then Err NoSources
      else if cfg_sinks c = [] then Err NoSinks
      else bind_result (for_each (validate_sink (cfg_sources c)) (cfg_sinks c))
        (\<lambda>_. for_each validate_source (cfg_sources c)))"

text \<open>
  \<open>Config::load\<close>, with reading a file and parsing TOML into the structs as parameters; the two
  contexts that \<open>with_context\<close> adds carry the path.
\<close>

datatype ('r, 't) load_error = CannotRead string 'r | InvalidToml string 't | InvalidConfig config_error

definition Config_load ::
  "(string \<Rightarrow> (string, 'r) result) \<Rightarrow> (string \<Rightarrow> (config, 't) result) \<Rightarrow> string \<Rightarrow>
   (config, ('r, 't) load_error) result" where
  "Config_load read_to_string from_str path =
     (case read_to_string path of
        Err e \<Rightarrow> Err (CannotRead path e)
      | Ok raw \<Rightarrow>
          (case from_str raw of
             Err e \<Rightarrow> Err (InvalidToml path e)
           | Ok config \<Rightarrow> (case validate config of Err e \<Rightarrow> Err (InvalidConfig e) | Ok _ \<Rightarrow> Ok config)))"

section \<open>What a valid configuration is\<close>

fun valid_clickhouse :: "sink_config \<Rightarrow> bool" where
  "valid_clickhouse (SinkClickhouse c) \<longleftrightarrow>
     (ch_schema c = SchemaJson \<or> ch_metadata_columns c = MetadataColumnsConfig_default) \<and>
     f64_in_unit_range (ch_allow_errors_ratio c)"
| "valid_clickhouse (SinkKafka c) \<longleftrightarrow> True"

definition valid_sink :: "string set \<Rightarrow> sink_config \<Rightarrow> bool" where
  "valid_sink ids sink \<longleftrightarrow>
     sink_inputs sink \<noteq> [] \<and> set (sink_inputs sink) \<subseteq> ids \<and>
     0 < sink_buffer_capacity sink \<and> 0 < fst (batch_limits sink) \<and> 0 < snd (batch_limits sink) \<and>
     valid_clickhouse sink \<and>
     retry_initial_backoff (runtime_settings sink) \<le> retry_max_backoff (runtime_settings sink)"

fun valid_source :: "source_config \<Rightarrow> bool" where
  "valid_source (SourceKafka c) \<longleftrightarrow>
     ks_topics c \<noteq> [] \<and> 0 < ks_batch_size c \<and> 0 < ks_max_in_flight_batches c \<and> 0 < ks_max_in_flight_bytes c"

definition valid_config :: "config \<Rightarrow> bool" where
  "valid_config c \<longleftrightarrow>
     cfg_sources c \<noteq> [] \<and> cfg_sinks c \<noteq> [] \<and>
     (\<forall>(sid, sink) \<in> set (cfg_sinks c). valid_sink (fst ` set (cfg_sources c)) sink) \<and>
     (\<forall>(sid, src) \<in> set (cfg_sources c). valid_source src)"

lemma for_each_ok [ok_iff]: "for_each f xs = Ok u \<longleftrightarrow> (\<forall>x \<in> set xs. f x = Ok ())"
  by (induction xs) (auto simp: ok_iff)

lemma for_each_err: "for_each f xs = Err e \<Longrightarrow> \<exists>x \<in> set xs. f x = Err e"
  by (induction xs) (auto simp: bind_result_err)

lemma validate_clickhouse_ok [ok_iff]: "validate_clickhouse sid s = Ok u \<longleftrightarrow> valid_clickhouse s"
  by (cases s) (auto simp: metadata_columns_config_is_empty_def intro: clickhouse_schema.exhaust)

lemma validate_sink_ok [ok_iff]:
  "validate_sink srcs (sid, s) = Ok u \<longleftrightarrow> valid_sink (fst ` set srcs) s"
  by (auto simp: validate_sink_def valid_sink_def ok_iff contains_key_def not_less split: if_splits)

lemma validate_source_ok [ok_iff]: "validate_source (sid, s) = Ok u \<longleftrightarrow> valid_source s"
  by (cases s) auto

lemma validate_ok [ok_iff]: "validate c = Ok u \<longleftrightarrow> valid_config c"
  by (auto simp: validate_def valid_config_def ok_iff split: if_splits)

lemma runtime_settings_min:
  "1 \<le> max_concurrent_writes (runtime_settings s)" "1 \<le> unat (retry_max_attempts (runtime_settings s))"
  by (cases s; simp add: max_def word_le_nat_alt not_le)+

text \<open>What each error says of the configuration.\<close>

fun defect :: "config \<Rightarrow> config_error \<Rightarrow> bool" where
  "defect c NoSources \<longleftrightarrow> cfg_sources c = []"
| "defect c NoSinks \<longleftrightarrow> cfg_sinks c = []"
| "defect c (SinkNoInputs i) \<longleftrightarrow> (\<exists>s. (i, s) \<in> set (cfg_sinks c) \<and> sink_inputs s = [])"
| "defect c (SinkZeroBuffer i) \<longleftrightarrow> (\<exists>s. (i, s) \<in> set (cfg_sinks c) \<and> sink_buffer_capacity s = 0)"
| "defect c (SinkZeroBatchLimits i) \<longleftrightarrow>
     (\<exists>s. (i, s) \<in> set (cfg_sinks c) \<and> (fst (batch_limits s) = 0 \<or> snd (batch_limits s) = 0))"
| "defect c (SinkMetadataInEventMode i) \<longleftrightarrow> (\<exists>s. (i, SinkClickhouse s) \<in> set (cfg_sinks c) \<and>
     ch_schema s = SchemaEvent \<and> ch_metadata_columns s \<noteq> MetadataColumnsConfig_default)"
| "defect c (SinkErrorsRatio i) \<longleftrightarrow> (\<exists>s. (i, SinkClickhouse s) \<in> set (cfg_sinks c) \<and>
     \<not> f64_in_unit_range (ch_allow_errors_ratio s))"
| "defect c (SinkBackoffOrder i) \<longleftrightarrow> (\<exists>s. (i, s) \<in> set (cfg_sinks c) \<and>
     retry_max_backoff (runtime_settings s) < retry_initial_backoff (runtime_settings s))"
| "defect c (SinkUnknownInput i input) \<longleftrightarrow> (\<exists>s. (i, s) \<in> set (cfg_sinks c) \<and>
     input \<in> set (sink_inputs s) \<and> input \<notin> fst ` set (cfg_sources c))"
| "defect c (SourceNoTopics i) \<longleftrightarrow> (\<exists>s. (i, SourceKafka s) \<in> set (cfg_sources c) \<and> ks_topics s = [])"
| "defect c (SourceZeroLimits i) \<longleftrightarrow> (\<exists>s. (i, SourceKafka s) \<in> set (cfg_sources c) \<and>
     (ks_batch_size s = 0 \<or> ks_max_in_flight_batches s = 0 \<or> ks_max_in_flight_bytes s = 0))"

lemma validate_clickhouse_err:
  "validate_clickhouse sid s = Err e \<Longrightarrow> (sid, s) \<in> set (cfg_sinks c) \<Longrightarrow> defect c e"
  by (cases s) (auto simp: metadata_columns_config_is_empty_def split: if_splits)

lemma validate_sink_err:
  assumes "validate_sink (cfg_sources c) (sid, s) = Err e" "(sid, s) \<in> set (cfg_sinks c)"
  shows "defect c e"
  using assms
  by (fastforce simp: validate_sink_def bind_result_err contains_key_def split: if_splits
    dest!: for_each_err dest: validate_clickhouse_err)

lemma validate_source_err:
  assumes "validate_source (sid, s) = Err e" "(sid, s) \<in> set (cfg_sources c)"
  shows "defect c e"
  using assms by (cases s) (auto split: if_splits)

lemma validate_err: "validate c = Err e \<Longrightarrow> defect c e"
  by (auto simp: validate_def bind_result_err split: if_splits
    dest!: for_each_err dest: validate_sink_err validate_source_err)

lemma Config_load_ok:
  "Config_load rd toml path = Ok c \<longleftrightarrow>
     (\<exists>raw. rd path = Ok raw \<and> toml raw = Ok c) \<and> valid_config c"
  by (auto simp: Config_load_def validate_ok [of _ "()", symmetric] split: result.splits)

lemma Config_load_invalid:
  assumes "rd path = Ok raw" "toml raw = Ok c"
  shows "Config_load rd toml path = Err (InvalidConfig e) \<longleftrightarrow> validate c = Err e"
  using assms by (auto simp: Config_load_def split: result.splits)

section \<open>Properties\<close>

text \<open>
  C32: \<open>Config::validate\<close> accepts a configuration exactly when it is valid: at least one source
  and one sink, every sink has inputs, all of them existing sources, non-zero buffer and
  batch limits, an increasing backoff window and consistent ClickHouse options, and every
  source has topics and non-zero limits, whatever order the maps are iterated in. And every
  error it reports names an actual defect: the component it names is configured and has the reported
  problem.
\<close>

theorem validate_accepts_exactly_valid_configs:
  "(validate c = Ok () \<longleftrightarrow> valid_config c) \<and> (\<forall>e. validate c = Err e \<longrightarrow> defect c e)"
  using validate_err validate_ok [of c "()"] by blast

theorem validate_accepts_exactly_valid_configs_witness:
  "defect \<lparr>cfg_sources = [(''in'', SourceKafka (kafka_source_required ''b'' ''g'' [''t'']))],
     cfg_sinks = [(''out'', SinkKafka (kafka_sink_required [''in'', ''typo''] ''b'' ''t''))],
     cfg_metrics = MetricsConfig_default\<rparr> (SinkUnknownInput ''out'' ''typo'')"
  by (rule validate_accepts_exactly_valid_configs [THEN conjunct2, rule_format])
    (simp add: validate_def validate_sink_def contains_key_def kafka_sink_required_def
      from_millis_def default_defs)

text \<open>
  A configuration that only gives the required keys is accepted: one Kafka source with a
  topic, and a Kafka and a ClickHouse sink reading from it. The defaults satisfy every check.
\<close>

theorem minimal_config_is_valid:
  assumes "topics \<noteq> []"
  shows "validate \<lparr>cfg_sources = [(src, SourceKafka (kafka_source_required brokers group_id topics))],
      cfg_sinks = [(k, SinkKafka (kafka_sink_required [src] out_brokers topic)),
        (h, SinkClickhouse (clickhouse_sink_required [src] endpoint tbl))],
      cfg_metrics = MetricsConfig_default\<rparr> = Ok ()"
  using assms
  by (simp add: validate_def validate_sink_def contains_key_def kafka_sink_required_def
      kafka_source_required_def clickhouse_sink_required_def metadata_columns_config_is_empty_def
      from_millis_def default_defs)

theorem minimal_config_is_valid_witness:
  "is_ok (validate \<lparr>cfg_sources =
        [(''in'', SourceKafka (kafka_source_required ''b:9092'' ''g'' [''events'']))],
      cfg_sinks = [(''out'', SinkKafka (kafka_sink_required [''in''] ''b:9092'' ''copy'')),
        (''ch'', SinkClickhouse (clickhouse_sink_required [''in''] ''http://ch'' ''t''))],
      cfg_metrics = MetricsConfig_default\<rparr>)"
  using minimal_config_is_valid [of "[''events'']"] by simp

end
