(* ===== verification/BTree.thy ===== *)
theory BTree
  imports Prelude "HOL-Library.Multiset"
begin

text \<open>
  \<open>std::collections::BTreeMap\<close>, which holds the metric registry and the completions that
  wait for their turn to be committed: an association list kept sorted by key, so that
  iteration order is key order. The interface the clients rely on is the locale
  \<open>ordered_map\<close>.
\<close>

section \<open>The interface\<close>

locale ordered_map =
  fixes empty :: 'm
    and insert :: "'k::linorder \<Rightarrow> 'v \<Rightarrow> 'm \<Rightarrow> 'm"
    and remove :: "'k \<Rightarrow> 'm \<Rightarrow> 'm"
    and get :: "'m \<Rightarrow> 'k \<rightharpoonup> 'v"
    and iter :: "'m \<Rightarrow> ('k \<times> 'v) list"
    and invar :: "'m \<Rightarrow> bool"
  assumes invar_empty: "invar empty"
    and invar_insert: "invar m \<Longrightarrow> invar (insert k v m)"
    and invar_remove: "invar m \<Longrightarrow> invar (remove k m)"
    and get_empty: "get empty = Map.empty"
    and get_insert: "invar m \<Longrightarrow> get (insert k v m) = (get m)(k \<mapsto> v)"
    and get_remove: "invar m \<Longrightarrow> get (remove k m) = (get m)(k := None)"
    and iter_get: "invar m \<Longrightarrow> (k, v) \<in> set (iter m) \<longleftrightarrow> get m k = Some v"
    and iter_sorted: "invar m \<Longrightarrow> sorted_wrt (<) (map fst (iter m))"
begin

text \<open>\<open>collect()\<close> of an iterator of pairs: insert one after the other.\<close>

definition collect :: "('k \<times> 'v) list \<Rightarrow> 'm" where
  "collect kvs = fold (\<lambda>(k, v). insert k v) kvs empty"

lemma fold_insert:
  "invar m \<Longrightarrow> invar (fold (\<lambda>(k, v). insert k v) kvs m) \<and>
     get (fold (\<lambda>(k, v). insert k v) kvs m) = get m ++ map_of (rev kvs)"
proof (induction kvs arbitrary: m)
  case (Cons kv kvs)
  obtain k v where kv: "kv = (k, v)" by fastforce
  have "invar (insert k v m)" using Cons.prems by (rule invar_insert)
  from Cons.IH [OF this] get_insert [OF Cons.prems] show ?case
    by (simp add: kv map_add_upd_left) (auto simp: map_add_def fun_eq_iff split: option.splits)
qed simp

lemma collect_invar: "invar (collect kvs)"
  and collect_get: "get (collect kvs) = map_of (rev kvs)"
  using fold_insert [OF invar_empty] by (simp_all add: collect_def get_empty)

lemma dom_collect: "dom (get (collect kvs)) = fst ` set kvs"
  by (simp add: collect_get dom_map_of_conv_image_fst)

lemma iter_keys: "invar m \<Longrightarrow> fst ` set (iter m) = dom (get m)"
  using iter_get by (force simp: dom_def)

lemma iter_distinct: "invar m \<Longrightarrow> distinct (map fst (iter m))"
  using iter_sorted strict_sorted_iff by blast

end

section \<open>The sorted list\<close>

type_synonym ('k, 'v) btree = "('k \<times> 'v) list"

fun bt_insert :: "'k::linorder \<Rightarrow> 'v \<Rightarrow> ('k, 'v) btree \<Rightarrow> ('k, 'v) btree" where
  "bt_insert k v [] = [(k, v)]"
| "bt_insert k v ((a, b) # m) =
     (if k < a then (k, v) # (a, b) # m
      else if k = a then (k, v) # m
      else (a, b) # bt_insert k v m)"

fun bt_remove :: "'k::linorder \<Rightarrow> ('k, 'v) btree \<Rightarrow> ('k, 'v) btree" where
  "bt_remove k [] = []"
| "bt_remove k ((a, b) # m) = (if k = a then m else (a, b) # bt_remove k m)"

definition bt_get :: "('k, 'v) btree \<Rightarrow> 'k \<rightharpoonup> 'v" where
  "bt_get = map_of"

definition bt_inv :: "('k::linorder, 'v) btree \<Rightarrow> bool" where
  "bt_inv m \<longleftrightarrow> sorted_wrt (<) (map fst m)"

definition bt_collect :: "('k::linorder \<times> 'v) list \<Rightarrow> ('k, 'v) btree" where
  "bt_collect kvs = fold (\<lambda>(k, v). bt_insert k v) kvs []"

lemma set_keys_insert: "set (map fst (bt_insert k v m)) = Set.insert k (set (map fst m))"
  by (induction k v m rule: bt_insert.induct) auto

lemma set_bt_remove: "set (bt_remove k m) \<subseteq> set m"
  by (induction k m rule: bt_remove.induct) auto

lemma bt_inv_insert: "bt_inv m \<Longrightarrow> bt_inv (bt_insert k v m)"
proof (induction k v m rule: bt_insert.induct)
  case (2 k v a b m)
  then show ?case
    using set_keys_insert [of k v m] by (auto simp: bt_inv_def)
qed (simp add: bt_inv_def)

lemma bt_inv_remove: "bt_inv m \<Longrightarrow> bt_inv (bt_remove k m)"
proof (induction k m rule: bt_remove.induct)
  case (2 k a b m)
  then show ?case
    using set_bt_remove [of k m] by (auto simp: bt_inv_def)
qed (simp add: bt_inv_def)

lemma bt_get_insert: "bt_inv m \<Longrightarrow> bt_get (bt_insert k v m) = (bt_get m)(k \<mapsto> v)"
  by (induction k v m rule: bt_insert.induct) (auto simp: bt_inv_def bt_get_def fun_upd_twist)

lemma map_of_less_None: "\<forall>x \<in> set (map fst m). a < x \<Longrightarrow> map_of m (a :: 'k::linorder) = None"
  by (auto simp: map_of_eq_None_iff)

lemma bt_get_remove: "bt_inv m \<Longrightarrow> bt_get (bt_remove k m) = (bt_get m)(k := None)"
  by (induction k m rule: bt_remove.induct)
     (auto simp: bt_inv_def bt_get_def fun_upd_twist map_of_less_None fun_upd_idem)

lemma bt_remove_length:
  "bt_get m k = Some v \<Longrightarrow> length (bt_remove k m) < length m"
  by (induction k m rule: bt_remove.induct) (auto simp: bt_get_def split: if_splits)

interpretation bt: ordered_map "[]" bt_insert bt_remove bt_get "\<lambda>m. m" bt_inv
proof unfold_locales
  fix m :: "('a, 'b) btree" and k v
  assume "bt_inv m"
  then show "(k, v) \<in> set m \<longleftrightarrow> bt_get m k = Some v"
    by (auto simp: bt_inv_def bt_get_def strict_sorted_iff map_of_eq_Some_iff)
qed (auto simp: bt_inv_insert bt_inv_remove bt_get_insert bt_get_remove, auto simp: bt_inv_def bt_get_def)

lemma bt_collect_eq: "bt_collect kvs = bt.collect kvs"
  by (simp add: bt_collect_def bt.collect_def)

lemma bt_insert_last: "\<forall>x \<in> set (map fst m). x < k \<Longrightarrow> bt_insert k v m = m @ [(k, v)]"
  by (induction k v m rule: bt_insert.induct) auto

text \<open>Collecting pairs that are already in key order is the identity.\<close>

lemma bt_collect_sorted: "sorted_wrt (<) (map fst kvs) \<Longrightarrow> bt_collect kvs = kvs"
proof (induction kvs rule: rev_induct)
  case (snoc kv kvs)
  then show ?case
    using bt_insert_last [of kvs "fst kv" "snd kv"]
    by (simp add: bt_collect_def sorted_wrt_append case_prod_beta)
qed (simp add: bt_collect_def)

lemma map_of_constant: "map_of (map (\<lambda>k. (k, c)) ks) k = (if k \<in> set ks then Some c else None)"
  by (induction ks) auto

text \<open>The values held, as a multiset: what moves in and out of a map of waiting work.\<close>

lemma mset_bt_remove:
  "bt_get m k = Some v \<Longrightarrow> mset (map snd m) = add_mset v (mset (map snd (bt_remove k m)))"
  by (induction k m rule: bt_remove.induct) (auto simp: bt_get_def split: if_splits)

lemma mset_bt_insert:
  "k \<notin> fst ` set m \<Longrightarrow> mset (map snd (bt_insert k v m)) = add_mset v (mset (map snd m))"
  by (induction k v m rule: bt_insert.induct) auto

lemma set_bt_insert: "set (bt_insert k v m) \<subseteq> Set.insert (k, v) (set m)"
  by (induction k v m rule: bt_insert.induct) auto

end
