(* ===== verification/Std_Text.thy ===== *)
theory Std_Text
  imports Prelude "HOL-Library.Char_ord" "HOL-Library.List_Lexorder"
begin

text \<open>
  The parts of Rust's standard library that the router's text output rests on: decimal
  \<open>to_string\<close>, hexadecimal and \<open>{:?}\<close> formatting, \<open>u8::is_ascii_whitespace\<close>, \<open>String::from_utf8_lossy\<close> with
  \<open>str::chars\<close>, and \<open>char::encode_utf8\<close>. Code points are natural numbers.
\<close>

section \<open>Decimal printing\<close>

definition digit :: "nat \<Rightarrow> char" where
  "digit d = char_of (48 + d)"

definition digit_value :: "char \<Rightarrow> nat" where
  "digit_value c = of_char c - 48"

definition is_digit :: "char \<Rightarrow> bool" where
  "is_digit c \<longleftrightarrow> 48 \<le> (of_char c :: nat) \<and> (of_char c :: nat) \<le> 57"

fun nat_to_string :: "nat \<Rightarrow> string" where
  "nat_to_string n =
     (if n < 10 then [digit n] else nat_to_string (n div 10) @ [digit (n mod 10)])"

declare nat_to_string.simps [simp del]

definition u64_to_string :: "u64 \<Rightarrow> string" where
  "u64_to_string w = nat_to_string (unat w)"

definition i64_to_string :: "i64 \<Rightarrow> string" where
  "i64_to_string x =
     (if x < 0 then CHR ''-'' # nat_to_string (nat (- x)) else nat_to_string (nat x))"

definition read_nat :: "string \<Rightarrow> nat" where
  "read_nat s = foldl (\<lambda>acc c. 10 * acc + digit_value c) 0 s"

lemma of_char_digit: "d < 10 \<Longrightarrow> (of_char (digit d) :: nat) = 48 + d"
  by (simp add: digit_def)

lemma is_digit_digit [simp]: "d < 10 \<Longrightarrow> is_digit (digit d)"
  by (simp add: is_digit_def of_char_digit)

lemma digit_value_digit [simp]: "d < 10 \<Longrightarrow> digit_value (digit d) = d"
  by (simp add: digit_value_def of_char_digit)

lemma digit_inj: "a < 10 \<Longrightarrow> b < 10 \<Longrightarrow> digit a = digit b \<longleftrightarrow> a = b"
  using digit_value_digit by metis

lemma nat_to_string_shape:
  "nat_to_string n \<noteq> [] \<and> list_all is_digit (nat_to_string n) \<and> read_nat (nat_to_string n) = n \<and>
   (hd (nat_to_string n) = digit 0 \<longrightarrow> nat_to_string n = [digit 0])"
proof (induction n rule: nat_to_string.induct)
  case (1 n)
  show ?case
  proof (cases "n < 10")
    case True
    then show ?thesis
      by (subst (1 2 3 4 5) nat_to_string.simps) (auto simp: read_nat_def digit_inj)
  next
    case False
    let ?q = "nat_to_string (n div 10)"
    note IH = "1.IH" [OF False]
    have "?q \<noteq> [digit 0]"
    proof
      assume "?q = [digit 0]"
      then have "read_nat ?q = 0" by (simp add: read_nat_def)
      with IH have "n div 10 = 0" by simp
      with False show False by (simp add: div_eq_0_iff)
    qed
    with IH False show ?thesis
      by (subst (1 2 3 4 5) nat_to_string.simps) (auto simp: read_nat_def)
  qed
qed

lemma nat_to_string_ne [simp]: "nat_to_string n \<noteq> []"
  and nat_to_string_digits: "list_all is_digit (nat_to_string n)"
  and read_nat_to_string [simp]: "read_nat (nat_to_string n) = n"
  and nat_to_string_no_leading_zero:
    "hd (nat_to_string n) = digit 0 \<Longrightarrow> nat_to_string n = [digit 0]"
  using nat_to_string_shape by blast+

lemma nat_to_string_inj: "nat_to_string a = nat_to_string b \<longleftrightarrow> a = b"
  using read_nat_to_string by metis

section \<open>Hexadecimal and debug printing\<close>

definition hex_digit :: "nat \<Rightarrow> char" where
  "hex_digit d = char_of (if d < 10 then 48 + d else 87 + d)"

fun hex_string :: "nat \<Rightarrow> string" where
  "hex_string n =
     (if n < 16 then [hex_digit n] else hex_string (n div 16) @ [hex_digit (n mod 16)])"

declare hex_string.simps [simp del]

text \<open>
  \<open>{:?}\<close> of a \<open>str\<close>, byte by byte. Bytes of a character beyond ASCII are copied, as they are for
  every printable one.
\<close>

definition debug_char :: "char \<Rightarrow> string" where
  "debug_char c =
     (let b = of_char c :: nat in
      if b = 0x22 \<or> b = 0x5C then [CHR 0x5C, c]
      else if b = 0 then [CHR 0x5C, CHR ''0'']
      else if b = 0x09 then [CHR 0x5C, CHR ''t'']
      else if b = 0x0A then [CHR 0x5C, CHR ''n'']
      else if b = 0x0D then [CHR 0x5C, CHR ''r'']
      else if b < 0x20 \<or> b = 0x7F then [CHR 0x5C, CHR ''u'', CHR 0x7B] @ hex_string b @ [CHR 0x7D]
      else [c])"

definition debug_str :: "string \<Rightarrow> string" where
  "debug_str s = [CHR 0x22] @ concat (map debug_char s) @ [CHR 0x22]"

text \<open>
  \<open>{:?}\<close> of a \<open>Duration\<close> in nanoseconds: the largest unit of which there is a whole one, with the exact
  decimals and no trailing zeros.
\<close>

fun frac_digits :: "nat \<Rightarrow> nat \<Rightarrow> string" where
  "frac_digits frac divisor =
     (if frac = 0 \<or> divisor = 0 then []
      else digit (frac div divisor) # frac_digits (frac mod divisor) (divisor div 10))"

declare frac_digits.simps [simp del]

definition fmt_decimal :: "nat \<Rightarrow> nat \<Rightarrow> nat \<Rightarrow> string \<Rightarrow> string" where
  "fmt_decimal whole frac divisor unit_name =
     nat_to_string whole @ (if frac = 0 then [] else CHR ''.'' # frac_digits frac divisor) @ unit_name"

definition debug_duration :: "nat \<Rightarrow> string" where
  "debug_duration d =
     (if 1000000000 \<le> d then fmt_decimal (d div 1000000000) (d mod 1000000000) 100000000 ''s''
      else if 1000000 \<le> d then fmt_decimal (d div 1000000) (d mod 1000000) 100000 ''ms''
      else if 1000 \<le> d then fmt_decimal (d div 1000) (d mod 1000) 100 [CHR 0xC2, CHR 0xB5, CHR ''s'']
      else fmt_decimal d 0 1 ''ns'')"

lemma debug_duration_examples:
  "debug_duration 30000000000 = ''30s''" "debug_duration 1050000000 = ''1.05s''" "debug_duration 2000000 = ''2ms''"
  by (simp_all add: debug_duration_def fmt_decimal_def frac_digits.simps nat_to_string.simps digit_def char_of_def bit_Suc_0_iff)

section \<open>Whitespace\<close>

definition is_ascii_whitespace :: "char \<Rightarrow> bool" where
  "is_ascii_whitespace c \<longleftrightarrow> (of_char c :: nat) \<in> {0x20, 0x09, 0x0A, 0x0C, 0x0D}"

section \<open>UTF-8\<close>

abbreviation byte_value :: "char \<Rightarrow> nat" where
  "byte_value \<equiv> of_char"

definition REPLACEMENT_CHARACTER :: nat where
  "REPLACEMENT_CHARACTER = 0xFFFD"

definition is_scalar :: "nat \<Rightarrow> bool" where
  "is_scalar c \<longleftrightarrow> c < 0xD800 \<or> 0xE000 \<le> c \<and> c < 0x110000"

definition encode_utf8 :: "nat \<Rightarrow> bytes" where
  "encode_utf8 c = map char_of
     (if c < 0x80 then [c]
      else if c < 0x800 then [0xC0 + c div 0x40, 0x80 + c mod 0x40]
      else if c < 0x10000 then [0xE0 + c div 0x1000, 0x80 + c div 0x40 mod 0x40, 0x80 + c mod 0x40]
      else [0xF0 + c div 0x40000, 0x80 + c div 0x1000 mod 0x40,
            0x80 + c div 0x40 mod 0x40, 0x80 + c mod 0x40])"

definition is_cont :: "nat \<Rightarrow> bool" where
  "is_cont b \<longleftrightarrow> 0x80 \<le> b \<and> b \<le> 0xBF"

text \<open>The ranges a second byte may take after each lead byte of a three- or four-byte form.\<close>

definition second_ok :: "nat \<Rightarrow> nat \<Rightarrow> bool" where
  "second_ok b c \<longleftrightarrow>
     (if b = 0xE0 then 0xA0 \<le> c \<and> c \<le> 0xBF
      else if b = 0xED then 0x80 \<le> c \<and> c \<le> 0x9F
      else if b = 0xF0 then 0x90 \<le> c \<and> c \<le> 0xBF
      else if b = 0xF4 then 0x80 \<le> c \<and> c \<le> 0x8F
      else is_cont c)"

text \<open>
  One step of lossy decoding after the lead byte \<open>b\<close>: the code point, or \<open>None\<close> for an
  invalid sequence, and the remaining input. An invalid sequence ends at the first byte
  that cannot continue it, which is looked at again as a lead byte.
\<close>

fun decode2 :: "nat \<Rightarrow> bytes \<Rightarrow> nat option \<times> bytes" where
  "decode2 b (c # r) =
     (if is_cont (byte_value c) then (Some ((b - 0xC0) * 0x40 + (byte_value c - 0x80)), r)
      else (None, c # r))"
| "decode2 b [] = (None, [])"

fun decode3 :: "nat \<Rightarrow> bytes \<Rightarrow> nat option \<times> bytes" where
  "decode3 b (c # d # r) =
     (if second_ok b (byte_value c) then
        if is_cont (byte_value d)
        then (Some ((b - 0xE0) * 0x1000 + (byte_value c - 0x80) * 0x40 + (byte_value d - 0x80)), r)
        else (None, d # r)
      else (None, c # d # r))"
| "decode3 b [c] = (if second_ok b (byte_value c) then (None, []) else (None, [c]))"
| "decode3 b [] = (None, [])"

fun decode4 :: "nat \<Rightarrow> bytes \<Rightarrow> nat option \<times> bytes" where
  "decode4 b (c # d # e # r) =
     (if second_ok b (byte_value c) then
        if is_cont (byte_value d) then
          if is_cont (byte_value e)
          then (Some ((b - 0xF0) * 0x40000 + (byte_value c - 0x80) * 0x1000 +
                      (byte_value d - 0x80) * 0x40 + (byte_value e - 0x80)), r)
          else (None, e # r)
        else (None, d # e # r)
      else (None, c # d # e # r))"
| "decode4 b [c, d] =
     (if second_ok b (byte_value c) then if is_cont (byte_value d) then (None, []) else (None, [d])
      else (None, [c, d]))"
| "decode4 b [c] = (if second_ok b (byte_value c) then (None, []) else (None, [c]))"
| "decode4 b [] = (None, [])"

definition decode_step :: "char \<Rightarrow> bytes \<Rightarrow> nat option \<times> bytes" where
  "decode_step lead bs =
     (let b = byte_value lead in
      if b < 0x80 then (Some b, bs)
      else if 0xC2 \<le> b \<and> b \<le> 0xDF then decode2 b bs
      else if 0xE0 \<le> b \<and> b \<le> 0xEF then decode3 b bs
      else if 0xF0 \<le> b \<and> b \<le> 0xF4 then decode4 b bs
      else (None, bs))"

lemma decode_step_length: "decode_step b bs = (c, r) \<Longrightarrow> length r \<le> length bs"
  unfolding decode_step_def Let_def
  by (auto split: if_splits elim!: decode2.elims decode3.elims decode4.elims)

function from_utf8_lossy :: "bytes \<Rightarrow> nat list" where
  "from_utf8_lossy [] = []"
| "from_utf8_lossy (b # bs) =
     (let (c, r) = decode_step b bs
      in (case c of Some x \<Rightarrow> x | None \<Rightarrow> REPLACEMENT_CHARACTER) # from_utf8_lossy r)"
  by pat_completeness auto
termination
  by (relation "measure length") (auto dest!: decode_step_length [OF sym])

lemma decode_step_scalar:
  assumes "decode_step lead bs = (Some c, r)"
  shows "is_scalar c"
proof -
  define b where "b = byte_value lead"
  from assms consider "c < 0x80" | "0xC2 \<le> b" "b \<le> 0xDF" "decode2 b bs = (Some c, r)"
    | "0xE0 \<le> b" "b \<le> 0xEF" "decode3 b bs = (Some c, r)"
    | "0xF0 \<le> b" "b \<le> 0xF4" "decode4 b bs = (Some c, r)"
    by (auto simp: decode_step_def Let_def b_def split: if_splits)
  then show ?thesis
  proof cases
    case 2
    then show ?thesis
      by (auto simp: is_scalar_def is_cont_def split: if_splits elim!: decode2.elims)
  next
    case 3
    then show ?thesis
      by (auto simp: is_scalar_def is_cont_def second_ok_def split: if_splits elim!: decode3.elims)
  next
    case 4
    from 4(3) obtain c1 d e where c: "second_ok b (byte_value c1)" "is_cont (byte_value d)"
      "is_cont (byte_value e)" "c = (b - 0xF0) * 0x40000 + (byte_value c1 - 0x80) * 0x1000 +
        (byte_value d - 0x80) * 0x40 + (byte_value e - 0x80)"
      by (auto split: if_splits elim!: decode4.elims)
    define p x y z where "p = b - 0xF0" and "x = byte_value c1 - 0x80"
      and "y = byte_value d - 0x80" and "z = byte_value e - 0x80"
    have "p \<le> 4" "x \<le> 63" "y \<le> 63" "z \<le> 63" "p = 0 \<longrightarrow> 16 \<le> x" "p = 4 \<longrightarrow> x \<le> 15"
      using 4(1,2) c(1-3)
      by (auto simp: p_def x_def y_def z_def is_cont_def second_ok_def split: if_splits)
    moreover have "c = p * 0x40000 + x * 0x1000 + y * 0x40 + z"
      by (simp add: c(4) p_def x_def y_def z_def)
    ultimately show ?thesis unfolding is_scalar_def by linarith
  qed (simp add: is_scalar_def)
qed

lemma from_utf8_lossy_scalars: "list_all is_scalar (from_utf8_lossy bs)"
proof (induction bs rule: from_utf8_lossy.induct)
  case (2 b bs)
  obtain c r where c: "decode_step b bs = (c, r)" by fastforce
  then have "is_scalar (case c of Some x \<Rightarrow> x | None \<Rightarrow> REPLACEMENT_CHARACTER)"
    by (cases c) (auto simp: REPLACEMENT_CHARACTER_def is_scalar_def [of "0xFFFD"]
        dest: decode_step_scalar)
  with 2 c show ?case by simp
qed simp

lemma sextets:
  fixes c :: nat
  shows "c = c div 0x40 * 0x40 + c mod 0x40"
    and "c div 0x40 = c div 0x1000 * 0x40 + c div 0x40 mod 0x40"
    and "c div 0x1000 = c div 0x40000 * 0x40 + c div 0x1000 mod 0x40"
  using div_mult2_eq [of c 64 64] div_mult2_eq [of c 4096 64] by simp_all

lemma decode_encode:
  assumes "is_scalar c"
  shows "\<exists>b bs. encode_utf8 c = b # bs \<and> decode_step b (bs @ r) = (Some c, r)"
proof -
  define p q s t where "p = c div 0x40000" and "q = c div 0x1000 mod 0x40"
    and "s = c div 0x40 mod 0x40" and "t = c mod 0x40"
  have b: "q < 64" "s < 64" "t < 64" by (simp_all add: q_def s_def t_def)
  have e: "c div 0x40 = c div 0x1000 * 0x40 + s" "c div 0x1000 = p * 0x40 + q"
    "c = c div 0x40 * 0x40 + t"
    using sextets [of c] by (simp_all add: p_def q_def s_def t_def)
  have c: "c = p * 0x40000 + q * 0x1000 + s * 0x40 + t" using e by linarith
  consider "c < 0x80" | "0x80 \<le> c" "c < 0x800" | "0x800 \<le> c" "c < 0x10000" | "0x10000 \<le> c"
    by linarith
  then show ?thesis
  proof cases
    case 2
    then have "p = 0" "q = 0" using c b by linarith+
    then have "c div 0x40 = s" "s * 0x40 + t = c" using c e by linarith+
    moreover from this 2 have "s < 32" "2 \<le> s" using b by linarith+
    ultimately show ?thesis using 2 b
      by (simp add: encode_utf8_def decode_step_def Let_def is_cont_def t_def [symmetric])
  next
    case 3
    then have p: "p = 0" using c b by linarith
    then have c3: "c div 0x1000 = q" "q * 0x1000 + s * 0x40 + t = c" using c e by linarith+
    have "q < 16" using 3 c3 by linarith
    moreover have "q = 0 \<longrightarrow> 32 \<le> s" using 3 c3(2) b by linarith
    moreover have "q = 13 \<longrightarrow> s \<le> 31" using assms c3(2) b unfolding is_scalar_def by linarith
    ultimately show ?thesis using 3 b c3
      by (simp add: encode_utf8_def decode_step_def Let_def is_cont_def second_ok_def
          t_def [symmetric] s_def [symmetric])
  next
    case 4
    have "p < 5" using c b assms unfolding is_scalar_def by linarith
    moreover have "p = 0 \<longrightarrow> 16 \<le> q" using c b 4 by linarith
    moreover have "p = 4 \<longrightarrow> q \<le> 15" using c b assms unfolding is_scalar_def by linarith
    ultimately show ?thesis using 4 b c [symmetric]
      by (simp add: encode_utf8_def decode_step_def Let_def is_cont_def second_ok_def
          t_def [symmetric] s_def [symmetric] q_def [symmetric] p_def [symmetric])
  qed (simp add: encode_utf8_def decode_step_def Let_def)
qed

lemma encode_utf8_ascii_free: "0x80 \<le> c \<Longrightarrow> is_scalar c \<Longrightarrow> \<forall>b \<in> set (encode_utf8 c). 0x80 \<le> byte_value b"
  unfolding encode_utf8_def is_scalar_def by (auto simp: div_less_iff_less_mult mod_less)

end
