(* ===== verification/Metrics.thy ===== *)
theory Metrics
  imports BTree Std_Text "HOL-Library.Sublist"
begin

text \<open>
  \<open>src/metrics.rs\<close> and \<open>src/metrics/server.rs\<close>: the counters of every source and sink,
  snapshots of them, the Prometheus rendering, the rates between two snapshots, the
  periodic reporter and the request router. Floating-point arithmetic enters only through
  the three operations the code applies (conversion, division, comparison with zero), which are a
  parameter: nothing proved here depends on how they round.
\<close>

section \<open>Counters\<close>

record source_metrics =
  events_in :: u64
  bytes_in :: u64
  batches_in :: u64
  commits :: u64
  rebalances :: u64
  in_flight_bytes :: u64
  in_flight_batches :: u64

record sink_metrics =
  events_out :: u64
  events_dropped :: u64
  batches_written :: u64
  write_errors :: u64
  retries :: u64
  queue_depth :: u64

definition SourceMetrics_default :: source_metrics where
  "SourceMetrics_default = \<lparr>events_in = 0, bytes_in = 0, batches_in = 0, commits = 0,
     rebalances = 0, in_flight_bytes = 0, in_flight_batches = 0\<rparr>"

definition SinkMetrics_default :: sink_metrics where
  "SinkMetrics_default = \<lparr>events_out = 0, events_dropped = 0, batches_written = 0,
     write_errors = 0, retries = 0, queue_depth = 0\<rparr>"

record metrics =
  metric_sources :: "(string, source_metrics) btree"
  metric_sinks :: "(string, sink_metrics) btree"

definition Metrics_new :: "string list \<Rightarrow> string list \<Rightarrow> metrics" where
  "Metrics_new sources sinks = \<lparr>
     metric_sources = bt_collect (map (\<lambda>id. (id, SourceMetrics_default)) sources),
     metric_sinks = bt_collect (map (\<lambda>id. (id, SinkMetrics_default)) sinks)\<rparr>"

text \<open>Looking up an unregistered component panics: \<open>None\<close>.\<close>

definition metrics_source :: "metrics \<Rightarrow> string \<Rightarrow> source_metrics option" where
  "metrics_source m component = bt_get (metric_sources m) component"

definition metrics_sink :: "metrics \<Rightarrow> string \<Rightarrow> sink_metrics option" where
  "metrics_sink m component = bt_get (metric_sinks m) component"

section \<open>Snapshots\<close>

record source_values =
  sv_events_in :: u64
  sv_bytes_in :: u64
  sv_batches_in :: u64
  sv_commits :: u64
  sv_rebalances :: u64
  sv_in_flight_bytes :: u64
  sv_in_flight_batches :: u64

record sink_values =
  kv_events_out :: u64
  kv_events_dropped :: u64
  kv_batches_written :: u64
  kv_write_errors :: u64
  kv_retries :: u64
  kv_queue_depth :: u64

definition SourceValues_default :: source_values where
  "SourceValues_default = \<lparr>sv_events_in = 0, sv_bytes_in = 0, sv_batches_in = 0, sv_commits = 0,
     sv_rebalances = 0, sv_in_flight_bytes = 0, sv_in_flight_batches = 0\<rparr>"

definition SinkValues_default :: sink_values where
  "SinkValues_default = \<lparr>kv_events_out = 0, kv_events_dropped = 0, kv_batches_written = 0,
     kv_write_errors = 0, kv_retries = 0, kv_queue_depth = 0\<rparr>"

definition load_source :: "source_metrics \<Rightarrow> source_values" where
  "load_source m = \<lparr>sv_events_in = events_in m, sv_bytes_in = bytes_in m,
     sv_batches_in = batches_in m, sv_commits = commits m, sv_rebalances = rebalances m,
     sv_in_flight_bytes = in_flight_bytes m, sv_in_flight_batches = in_flight_batches m\<rparr>"

definition load_sink :: "sink_metrics \<Rightarrow> sink_values" where
  "load_sink m = \<lparr>kv_events_out = events_out m, kv_events_dropped = events_dropped m,
     kv_batches_written = batches_written m, kv_write_errors = write_errors m,
     kv_retries = retries m, kv_queue_depth = queue_depth m\<rparr>"

text \<open>\<open>Instant\<close>s are readings of the monotonic clock in nanoseconds.\<close>

record snapshot =
  taken_at :: duration
  snap_sources :: "(string, source_values) btree"
  snap_sinks :: "(string, sink_values) btree"

definition metrics_snapshot :: "duration \<Rightarrow> metrics \<Rightarrow> snapshot" where
  "metrics_snapshot now m = \<lparr>taken_at = now,
     snap_sources = bt_collect (map (\<lambda>(id, c). (id, load_source c)) (metric_sources m)),
     snap_sinks = bt_collect (map (\<lambda>(id, c). (id, load_sink c)) (metric_sinks m))\<rparr>"

section \<open>Prometheus exposition\<close>

definition SOURCE_SERIES :: "(string \<times> string \<times> string \<times> (source_values \<Rightarrow> u64)) list" where
  "SOURCE_SERIES = [
     (''rustper_source_events_total'', ''Events consumed and committed.'', ''counter'', sv_events_in),
     (''rustper_source_bytes_total'', ''Payload bytes consumed.'', ''counter'', sv_bytes_in),
     (''rustper_source_batches_total'', ''Batches dispatched to the fan-out.'', ''counter'', sv_batches_in),
     (''rustper_source_commits_total'', ''Offset commits issued.'', ''counter'', sv_commits),
     (''rustper_source_rebalances_total'', ''Consumer group rebalances observed.'', ''counter'', sv_rebalances),
     (''rustper_source_in_flight_bytes'', ''Bytes held by unacknowledged batches.'', ''gauge'', sv_in_flight_bytes),
     (''rustper_source_in_flight_batches'', ''Unacknowledged batches.'', ''gauge'', sv_in_flight_batches)]"

definition SINK_SERIES :: "(string \<times> string \<times> string \<times> (sink_values \<Rightarrow> u64)) list" where
  "SINK_SERIES = [
     (''rustper_sink_events_total'', ''Events written.'', ''counter'', kv_events_out),
     (''rustper_sink_events_dropped_total'', ''Events the sink refused to write.'', ''counter'', kv_events_dropped),
     (''rustper_sink_batches_total'', ''Coalesced writes completed.'', ''counter'', kv_batches_written),
     (''rustper_sink_write_errors_total'', ''Writes that failed after retries.'', ''counter'', kv_write_errors),
     (''rustper_sink_retries_total'', ''Write attempts retried.'', ''counter'', kv_retries),
     (''rustper_sink_queue_depth'', ''Envelopes waiting in the sink queue.'', ''gauge'', kv_queue_depth)]"

definition help_line :: "string \<Rightarrow> string \<Rightarrow> string" where
  "help_line metric help = ''# HELP '' @ metric @ '' '' @ help @ [CHR 0x0A]"

definition type_line :: "string \<Rightarrow> string \<Rightarrow> string" where
  "type_line metric kind = ''# TYPE '' @ metric @ '' '' @ kind @ [CHR 0x0A]"

definition sample_line :: "string \<Rightarrow> string \<Rightarrow> string \<Rightarrow> u64 \<Rightarrow> string" where
  "sample_line metric label component v =
     metric @ ''{'' @ label @ ''='' @ [CHR 0x22] @ component @ [CHR 0x22] @ ''} '' @ u64_to_string v @ [CHR 0x0A]"

definition render_series ::
  "string \<Rightarrow> (string \<times> 'v) list \<Rightarrow> string \<times> string \<times> string \<times> ('v \<Rightarrow> u64) \<Rightarrow> string" where
  "render_series label values = (\<lambda>(metric, help, kind, extract).
     help_line metric help @ type_line metric kind @
     concat (map (\<lambda>(id, v). sample_line metric label id (extract v)) values))"

definition render_prometheus :: "duration \<Rightarrow> metrics \<Rightarrow> string" where
  "render_prometheus now m =
     (let s = metrics_snapshot now m in
      concat (map (render_series ''source'' (snap_sources s)) SOURCE_SERIES) @
      concat (map (render_series ''sink'' (snap_sinks s)) SINK_SERIES))"

section \<open>Rates\<close>

record 'f f64_ops =
  u64_as_f64 :: "u64 \<Rightarrow> 'f"
  f64_div :: "'f \<Rightarrow> 'f \<Rightarrow> 'f"
  f64_zero :: 'f
  f64_gt_zero :: "'f \<Rightarrow> bool"
  as_secs_f64 :: "duration \<Rightarrow> 'f"

record 'f source_rates =
  sr_events_per_second :: 'f
  sr_bytes_per_second :: 'f
  sr_rebalances :: u64
  sr_in_flight_bytes :: u64
  sr_in_flight_batches :: u64
  sr_events_total :: u64

record 'f sink_rates =
  kr_events_per_second :: 'f
  kr_dropped_per_second :: 'f
  kr_retries :: u64
  kr_write_errors :: u64
  kr_queue_depth :: u64
  kr_events_total :: u64
  kr_dropped_total :: u64

record 'f rates =
  elapsed :: duration
  rate_sources :: "(string, 'f source_rates) btree"
  rate_sinks :: "(string, 'f sink_rates) btree"

definition per_second :: "'f f64_ops \<Rightarrow> 'f \<Rightarrow> u64 \<Rightarrow> u64 \<Rightarrow> 'f" where
  "per_second F seconds current before =
     (if f64_gt_zero F seconds then f64_div F (u64_as_f64 F (u64_saturating_sub current before)) seconds
      else f64_zero F)"

definition unwrap_or :: "'a option \<Rightarrow> 'a \<Rightarrow> 'a" where
  "unwrap_or x d = (case x of None \<Rightarrow> d | Some a \<Rightarrow> a)"

definition source_rates_since :: "'f f64_ops \<Rightarrow> 'f \<Rightarrow> source_values \<Rightarrow> source_values \<Rightarrow> 'f source_rates" where
  "source_rates_since F seconds now was = \<lparr>
     sr_events_per_second = per_second F seconds (sv_events_in now) (sv_events_in was),
     sr_bytes_per_second = per_second F seconds (sv_bytes_in now) (sv_bytes_in was),
     sr_rebalances = sv_rebalances now,
     sr_in_flight_bytes = sv_in_flight_bytes now,
     sr_in_flight_batches = sv_in_flight_batches now,
     sr_events_total = sv_events_in now\<rparr>"

definition sink_rates_since :: "'f f64_ops \<Rightarrow> 'f \<Rightarrow> sink_values \<Rightarrow> sink_values \<Rightarrow> 'f sink_rates" where
  "sink_rates_since F seconds now was = \<lparr>
     kr_events_per_second = per_second F seconds (kv_events_out now) (kv_events_out was),
     kr_dropped_per_second = per_second F seconds (kv_events_dropped now) (kv_events_dropped was),
     kr_retries = kv_retries now,
     kr_write_errors = kv_write_errors now,
     kr_queue_depth = kv_queue_depth now,
     kr_events_total = kv_events_out now,
     kr_dropped_total = kv_events_dropped now\<rparr>"

definition rates_since :: "'f f64_ops \<Rightarrow> snapshot \<Rightarrow> snapshot \<Rightarrow> 'f rates" where
  "rates_since F current previous =
     (let el = saturating_sub (taken_at current) (taken_at previous);
          seconds = as_secs_f64 F el
      in \<lparr>elapsed = el,
          rate_sources = bt_collect (map (\<lambda>(id, now).
            (id, source_rates_since F seconds now
                   (unwrap_or (bt_get (snap_sources previous) id) SourceValues_default)))
            (snap_sources current)),
          rate_sinks = bt_collect (map (\<lambda>(id, now).
            (id, sink_rates_since F seconds now
                   (unwrap_or (bt_get (snap_sinks previous) id) SinkValues_default)))
            (snap_sinks current))\<rparr>)"

section \<open>The reporter and the endpoint\<close>

text \<open>
  What \<open>report\<close> waits for: the shutdown token, or a tick at which the counters have the
  given values. The result is the list of rates it logs.
\<close>

datatype report_event = Tick snapshot | Shutdown

fun report_loop :: "'f f64_ops \<Rightarrow> snapshot \<Rightarrow> report_event list \<Rightarrow> 'f rates list" where
  "report_loop F previous [] = []"
| "report_loop F previous (Shutdown # _) = []"
| "report_loop F previous (Tick current # es) =
     rates_since F current previous # report_loop F current es"

definition report :: "'f f64_ops \<Rightarrow> duration \<Rightarrow> snapshot \<Rightarrow> report_event list \<Rightarrow> 'f rates list" where
  "report F interval start es = (if interval = 0 then [] else report_loop F start es)"

record response =
  status :: nat
  headers :: "(string \<times> string) list"
  body :: string

definition route :: "duration \<Rightarrow> metrics \<Rightarrow> string \<Rightarrow> string \<Rightarrow> response" where
  "route now m http_method path =
     (if http_method = ''GET'' \<and> path = ''/metrics''
      then \<lparr>status = 200, headers = [(''content-type'', ''text/plain; version=0.0.4; charset=utf-8'')],
            body = render_prometheus now m\<rparr>
      else \<lparr>status = 404, headers = [], body = ''try /metrics'' @ [CHR 0x0A]\<rparr>)"

text \<open>
  \<open>serve\<close>: the listener hands over connections, fails to accept one, or the shutdown token
  fires. Of a connection the model has the requests read from it, each with the time and the counters
  at which it is answered (its task runs on its own), and how serving it ended. The result is what
  \<open>serve\<close> returns (\<open>None\<close> while it is still waiting) and, per connection, the
  responses sent and the warning logged.
\<close>

record request =
  req_at :: duration
  req_metrics :: metrics
  req_method :: string
  req_path :: string

datatype 'e serve_event = Accepted "request list" "(unit, 'e) result" | AcceptFailed 'e | ServeShutdown

datatype ('a, 'e) serve_error = CannotBind 'a 'e

definition serve_connection :: "request list \<Rightarrow> (unit, 'e) result \<Rightarrow> response list \<times> 'e option" where
  "serve_connection reqs r =
     (map (\<lambda>q. route (req_at q) (req_metrics q) (req_method q) (req_path q)) reqs,
      case r of Err e \<Rightarrow> Some e | Ok _ \<Rightarrow> None)"

fun serve_loop ::
  "'e serve_event list \<Rightarrow> (unit, ('a, 'e) serve_error) result option \<times> (response list \<times> 'e option) list" where
  "serve_loop [] = (None, [])"
| "serve_loop (ServeShutdown # _) = (Some (Ok ()), [])"
| "serve_loop (AcceptFailed _ # es) = serve_loop es"
| "serve_loop (Accepted reqs r # es) = (let (res, cs) = serve_loop es in (res, serve_connection reqs r # cs))"

definition serve ::
  "('a \<Rightarrow> (unit, 'e) result) \<Rightarrow> 'a \<Rightarrow> 'e serve_event list \<Rightarrow>
   (unit, ('a, 'e) serve_error) result option \<times> (response list \<times> 'e option) list" where
  "serve bind address es =
     (case bind address of Err e \<Rightarrow> (Some (Err (CannotBind address e)), []) | Ok _ \<Rightarrow> serve_loop es)"

section \<open>Lemmas\<close>

lemma Metrics_new_get:
  "bt_inv (metric_sources (Metrics_new srcs snks))" "bt_inv (metric_sinks (Metrics_new srcs snks))"
  "metrics_source (Metrics_new srcs snks) component =
     (if component \<in> set srcs then Some SourceMetrics_default else None)"
  "metrics_sink (Metrics_new srcs snks) component =
     (if component \<in> set snks then Some SinkMetrics_default else None)"
  by (auto simp: Metrics_new_def metrics_source_def metrics_sink_def bt_collect_eq bt.collect_invar
      bt.collect_get map_of_eq_None_iff rev_map map_of_map_keys map_of_constant)

lemma snapshot_of_registry:
  assumes "bt_inv (metric_sources m)" "bt_inv (metric_sinks m)"
  shows "snap_sources (metrics_snapshot now m) = map (\<lambda>(k, c). (k, load_source c)) (metric_sources m)"
    and "snap_sinks (metrics_snapshot now m) = map (\<lambda>(k, c). (k, load_sink c)) (metric_sinks m)"
  using assms by (simp_all add: metrics_snapshot_def bt_collect_sorted bt_inv_def comp_def case_prod_beta)

lemma u64_saturating_sub_unat: "unat (u64_saturating_sub a b) = unat a - unat b"
  by (simp add: u64_saturating_sub_def unat_sub word_le_nat_alt)

lemma bt_get_collect_map:
  assumes "bt_inv m"
  shows "bt_get (bt_collect (map (\<lambda>(k, v). (k, f k v)) m)) k = map_option (f k) (bt_get m k)"
proof -
  have "bt_collect (map (\<lambda>(k, v). (k, f k v)) m) = map (\<lambda>(k, v). (k, f k v)) m"
    using assms by (simp add: bt_collect_sorted bt_inv_def comp_def case_prod_beta)
  moreover have "map_of (map (\<lambda>(k, v). (k, f k v)) m) k = map_option (f k) (map_of m k)"
    by (induction m) auto
  ultimately show ?thesis by (simp add: bt_get_def)
qed

section \<open>Reading the exposition back\<close>

text \<open>
  A reader of the text exposition format: the page is a list of lines, and a sample is a line of a
  metric name, a label with a quoted value, and a decimal number. \<open>samples\<close> collects every value
  the page gives a series of a component.
\<close>

fun page_lines :: "string \<Rightarrow> string \<Rightarrow> string list" where
  "page_lines line [] = []"
| "page_lines line (c # cs) =
     (if c = CHR 0x0A then line # page_lines [] cs else page_lines (line @ [c]) cs)"

definition sample_key :: "string \<Rightarrow> string \<Rightarrow> string \<Rightarrow> string" where
  "sample_key metric label component =
     metric @ CHR ''{'' # label @ ''='' @ CHR 0x22 # component @ CHR 0x22 # ''} ''"

definition samples :: "string \<Rightarrow> string \<Rightarrow> string \<Rightarrow> string \<Rightarrow> nat list" where
  "samples page metric label component =
     (let key = sample_key metric label component
      in map (\<lambda>l. read_nat (drop (length key) l)) (filter (prefix key) (page_lines [] page)))"

text \<open>What the reader can tell apart: label values that need no escaping, and metric names.\<close>

definition plain :: "string \<Rightarrow> bool" where
  "plain s \<longleftrightarrow> CHR 0x22 \<notin> set s \<and> CHR 0x5C \<notin> set s \<and> CHR 0x0A \<notin> set s"

definition metric_name :: "string \<Rightarrow> bool" where
  "metric_name s \<longleftrightarrow> s \<noteq> [] \<and> hd s \<noteq> CHR ''#'' \<and> CHR ''{'' \<notin> set s \<and> CHR 0x0A \<notin> set s"

definition text_lines ::
  "string \<Rightarrow> (string \<times> 'v) list \<Rightarrow> string \<times> string \<times> string \<times> ('v \<Rightarrow> u64) \<Rightarrow> string list" where
  "text_lines label values = (\<lambda>(metric, help, kind, extract).
     [''# HELP '' @ metric @ '' '' @ help, ''# TYPE '' @ metric @ '' '' @ kind] @
     map (\<lambda>(id, v). sample_key metric label id @ u64_to_string (extract v)) values)"

lemma page_lines_line:
  "CHR 0x0A \<notin> set l \<Longrightarrow> page_lines line (l @ CHR 0x0A # rest) = (line @ l) # page_lines [] rest"
  by (induction l arbitrary: line) auto

lemma page_lines_concat:
  "\<forall>l \<in> set ls. CHR 0x0A \<notin> set l \<Longrightarrow> page_lines [] (concat (map (\<lambda>l. l @ [CHR 0x0A]) ls)) = ls"
  by (induction ls) (simp_all add: page_lines_line)

lemma render_series_lines:
  "render_series label values s = concat (map (\<lambda>l. l @ [CHR 0x0A]) (text_lines label values s))"
  by (cases s) (simp add: render_series_def text_lines_def help_line_def type_line_def sample_line_def
    sample_key_def comp_def case_prod_unfold)

lemma number_no_newline: "CHR 0x0A \<notin> set (u64_to_string v)"
  using nat_to_string_digits [of "unat v"] by (auto simp: u64_to_string_def list_all_iff is_digit_def)

lemma concat_concat_map: "concat (map f (concat xss)) = concat (map (\<lambda>xs. concat (map f xs)) xss)"
  by (induction xss) simp_all

lemma text_lines_no_newline:
  assumes "metric_name metric" "CHR 0x0A \<notin> set (help @ kind @ label)" "\<forall>(k, v) \<in> set values. plain k"
    "l \<in> set (text_lines label values (metric, help, kind, extract))"
  shows "CHR 0x0A \<notin> set l"
  using assms number_no_newline
  by (auto simp: text_lines_def metric_name_def sample_key_def plain_def)

lemma prefix_separator:
  "c \<notin> set a \<Longrightarrow> c \<notin> set b \<Longrightarrow> prefix (a @ c # r) (b @ c # q) \<longleftrightarrow> a = b \<and> prefix r q"
proof (induction a arbitrary: b)
  case Nil
  then show ?case by (cases b) auto
next
  case (Cons x a)
  then show ?case by (cases b) auto
qed

lemma prefix_sample_key:
  assumes "metric_name metric" "metric_name metric'" "plain k" "plain k'"
  shows "prefix (sample_key metric label k) (sample_key metric' label k' @ n) \<longleftrightarrow> metric = metric' \<and> k = k'"
  using assms prefix_separator [of "CHR ''{''" metric metric' "label @ ''='' @ CHR 0x22 # k @ CHR 0x22 # ''} ''"]
    prefix_separator [of "CHR 0x22" k k' "''} ''" "''} '' @ n"]
  by (simp add: sample_key_def metric_name_def plain_def)

lemma prefix_other_metric:
  assumes "metric_name metric" "metric_name metric'" "metric \<noteq> metric'"
  shows "\<not> prefix (sample_key metric label k) (sample_key metric' label' k' @ n)"
  using assms prefix_separator [of "CHR ''{''" metric metric' "label @ ''='' @ CHR 0x22 # k @ CHR 0x22 # ''} ''"]
  by (simp add: sample_key_def metric_name_def)

lemma prefix_comment:
  assumes "metric_name metric"
  shows "\<not> prefix (sample_key metric label k) (CHR ''#'' # l)"
  using assms by (cases metric) (auto simp: sample_key_def metric_name_def)

lemma filter_key:
  "distinct (map fst kvs) \<Longrightarrow> map_of kvs k = Some v \<Longrightarrow> filter (\<lambda>(k', v). k = k') kvs = [(k, v)]"
proof (induction kvs)
  case (Cons kv kvs)
  have "filter (\<lambda>(k', v). k = k') kvs = []" if "k \<notin> fst ` set kvs"
    using that by (force simp: filter_empty_conv)
  with Cons show ?case by (cases kv) (auto split: if_splits)
qed simp

lemma filter_text_lines:
  assumes "metric_name metric" "metric_name metric'" "\<forall>(k, v) \<in> set values. plain k"
    "distinct (map fst values)" "map_of values k = Some v"
  shows "filter (prefix (sample_key metric label k)) (text_lines label values (metric', help, kind, extract)) =
    (if metric = metric' then [sample_key metric label k @ u64_to_string (extract v)] else [])"
proof -
  have k: "plain k" using assms(3) map_of_SomeD [OF assms(5)] by blast
  have "filter (\<lambda>(k', v). prefix (sample_key metric label k) (sample_key metric' label k' @ u64_to_string (extract v)))
      values = filter (\<lambda>(k', v). metric = metric' \<and> k = k') values"
    using assms(3) prefix_sample_key [OF assms(1,2) k] by (intro filter_cong) auto
  moreover have "filter (\<lambda>(k', v). metric = metric' \<and> k = k') values = (if metric = metric' then [(k, v)] else [])"
    using filter_key [OF assms(4,5)] by simp
  ultimately show ?thesis
    using prefix_comment [OF assms(1)]
    by (simp add: text_lines_def filter_map comp_def case_prod_unfold)
qed

lemma filter_other_series:
  assumes "metric_name metric" "metric \<notin> fst ` set series" "\<forall>s \<in> set series. metric_name (fst s)"
  shows "filter (prefix (sample_key metric label k)) (concat (map (text_lines label' values) series)) = []"
  using assms prefix_comment [OF assms(1)] prefix_other_metric [OF assms(1)]
  by (fastforce simp: filter_empty_conv text_lines_def)

text \<open>A table with distinct names gives each of its series one sample per component.\<close>

lemma filter_series:
  assumes "(metric, help, kind, extract) \<in> set series" "distinct (map fst series)"
    "\<forall>s \<in> set series. metric_name (fst s)" "\<forall>(k, v) \<in> set values. plain k"
    "distinct (map fst values)" "map_of values k = Some v"
  shows "filter (prefix (sample_key metric label k)) (concat (map (text_lines label values) series)) =
    [sample_key metric label k @ u64_to_string (extract v)]"
  using assms(1-3)
proof (induction series)
  case (Cons s series)
  obtain metric' help' kind' x' where s: "s = (metric', help', kind', x')" by (cases s)
  from Cons.prems have m: "metric_name metric" "metric_name metric'" by (auto simp: s)
  note f = filter_text_lines [OF m assms(4-6), of label help' kind' x']
  show ?case
  proof (cases "metric = metric'")
    case True
    with Cons.prems have x: "x' = extract" "metric \<notin> fst ` set series" by (auto simp: s rev_image_eqI)
    have "filter (prefix (sample_key metric label k)) (concat (map (text_lines label values) series)) = []"
      using filter_other_series [OF m(1) x(2)] Cons.prems by simp
    with f True x(1) show ?thesis by (simp add: s)
  next
    case False
    with Cons f show ?thesis by (simp add: s)
  qed
qed simp

lemma series_names:
  "distinct (map fst SOURCE_SERIES @ map fst SINK_SERIES)"
  "\<forall>s \<in> set SOURCE_SERIES. metric_name (fst s)" "\<forall>s \<in> set SINK_SERIES. metric_name (fst s)"
  "\<forall>(n, h, t, x) \<in> set SOURCE_SERIES. CHR 0x0A \<notin> set (h @ t)" "\<forall>(n, h, t, x) \<in> set SINK_SERIES. CHR 0x0A \<notin> set (h @ t)"
  by (simp_all add: SOURCE_SERIES_def SINK_SERIES_def metric_name_def)

lemma series_no_newline:
  assumes "\<forall>s \<in> set series. metric_name (fst s)" "\<forall>(n, h, t, x) \<in> set series. CHR 0x0A \<notin> set (h @ t)"
    "CHR 0x0A \<notin> set label" "\<forall>(k, v) \<in> set values. plain k"
    "l \<in> set (concat (map (text_lines label values) series))"
  shows "CHR 0x0A \<notin> set l"
proof -
  from assms(5) have "\<exists>s \<in> set series. l \<in> set (text_lines label values s)" by simp
  then obtain n h t x where s: "(n, h, t, x) \<in> set series" "l \<in> set (text_lines label values (n, h, t, x))"
    by (metis prod.exhaust)
  with assms(1-3) have "metric_name n" "CHR 0x0A \<notin> set (h @ t @ label)" by force+
  from text_lines_no_newline [OF this assms(4) s(2)] show ?thesis .
qed

lemma registry_values:
  assumes "bt_inv m" "bt_get m k = Some c" "\<forall>k \<in> fst ` set m. plain k"
  shows "distinct (map fst (map (\<lambda>(k, c). (k, f c)) m))" "map_of (map (\<lambda>(k, c). (k, f c)) m) k = Some (f c)"
    "\<forall>(k, v) \<in> set (map (\<lambda>(k, c). (k, f c)) m). plain k"
proof -
  have "map fst (map (\<lambda>(k, c). (k, f c)) m) = map fst m" by (induction m) auto
  moreover have "distinct (map fst m)" using assms(1) by (simp add: bt_inv_def strict_sorted_iff)
  ultimately show "distinct (map fst (map (\<lambda>(k, c). (k, f c)) m))" by metis
  show "map_of (map (\<lambda>(k, c). (k, f c)) m) k = Some (f c)"
    using assms(2) by (simp add: map_of_map bt_get_def)
  show "\<forall>(k, v) \<in> set (map (\<lambda>(k, c). (k, f c)) m). plain k" using assms(3) by force
qed

lemma render_lines:
  assumes "bt_inv (metric_sources m)" "bt_inv (metric_sinks m)"
    "\<forall>k \<in> fst ` (set (metric_sources m)) \<union> fst ` (set (metric_sinks m)). plain k"
  shows "page_lines [] (render_prometheus now m) =
    concat (map (text_lines ''source'' (map (\<lambda>(k, c). (k, load_source c)) (metric_sources m))) SOURCE_SERIES) @
    concat (map (text_lines ''sink'' (map (\<lambda>(k, c). (k, load_sink c)) (metric_sinks m))) SINK_SERIES)"
    (is "_ = ?lines")
proof -
  let ?S = "map (\<lambda>(k, c). (k, load_source c)) (metric_sources m)" and ?K = "map (\<lambda>(k, c). (k, load_sink c)) (metric_sinks m)"
  have v: "\<forall>(k, v) \<in> set ?S. plain k" "\<forall>(k, v) \<in> set ?K. plain k" using assms(3) by force+
  have "CHR 0x0A \<notin> set l" if "l \<in> set ?lines" for l
  proof -
    from that consider "l \<in> set (concat (map (text_lines ''source'' ?S) SOURCE_SERIES))"
      | "l \<in> set (concat (map (text_lines ''sink'' ?K) SINK_SERIES))" unfolding set_append by blast
    then show ?thesis
    proof cases
      case 1
      show ?thesis by (rule series_no_newline [OF series_names(2,4) _ v(1) 1]) simp
    next
      case 2
      show ?thesis by (rule series_no_newline [OF series_names(3,5) _ v(2) 2]) simp
    qed
  qed
  then have "page_lines [] (concat (map (\<lambda>l. l @ [CHR 0x0A]) ?lines)) = ?lines"
    by (intro page_lines_concat) blast
  moreover have "render_prometheus now m = concat (map (\<lambda>l. l @ [CHR 0x0A]) ?lines)"
    unfolding render_prometheus_def Let_def snapshot_of_registry [OF assms(1,2)] map_append concat_append
      concat_concat_map map_map comp_def render_series_lines [abs_def] ..
  ultimately show ?thesis by (rule HOL.trans [OF arg_cong, rotated])
qed

lemma source_samples:
  assumes "bt_inv (metric_sources m)" "bt_inv (metric_sinks m)"
    "\<forall>k \<in> fst ` (set (metric_sources m)) \<union> fst ` (set (metric_sinks m)). plain k"
  shows "metrics_source m k = Some c \<longrightarrow> (\<forall>(n, h, t, extract) \<in> set SOURCE_SERIES.
    samples (render_prometheus now m) n ''source'' k = [unat (extract (load_source c))])"
proof (clarify)
  fix n h t x assume c: "metrics_source m k = Some c" and n: "(n, h, t, x) \<in> set SOURCE_SERIES"
  let ?vals = "map (\<lambda>(k, c). (k, load_source c)) (metric_sources m)"
  have v: "distinct (map fst ?vals)" "map_of ?vals k = Some (load_source c)" "\<forall>(k, v) \<in> set ?vals. plain k"
    using assms(1,3) c registry_values [of "metric_sources m" k c load_source]
    by (auto simp: metrics_source_def)
  have "n \<notin> fst ` set SINK_SERIES" "metric_name n" "distinct (map fst SOURCE_SERIES)"
    using series_names(1,2) n by (force simp: disjoint_iff)+
  with filter_series [OF n _ series_names(2) v(3,1,2)] filter_other_series [OF _ _ series_names(3)]
  show "samples (render_prometheus now m) n ''source'' k = [unat (x (load_source c))]"
    by (simp add: samples_def Let_def render_lines [OF assms] u64_to_string_def)
qed

lemma sink_samples:
  assumes "bt_inv (metric_sources m)" "bt_inv (metric_sinks m)"
    "\<forall>k \<in> fst ` (set (metric_sources m)) \<union> fst ` (set (metric_sinks m)). plain k"
  shows "metrics_sink m k = Some c \<longrightarrow> (\<forall>(n, h, t, extract) \<in> set SINK_SERIES.
    samples (render_prometheus now m) n ''sink'' k = [unat (extract (load_sink c))])"
proof (clarify)
  fix n h t x assume c: "metrics_sink m k = Some c" and n: "(n, h, t, x) \<in> set SINK_SERIES"
  let ?vals = "map (\<lambda>(k, c). (k, load_sink c)) (metric_sinks m)"
  have v: "distinct (map fst ?vals)" "map_of ?vals k = Some (load_sink c)" "\<forall>(k, v) \<in> set ?vals. plain k"
    using assms(2,3) c registry_values [of "metric_sinks m" k c load_sink]
    by (auto simp: metrics_sink_def)
  have "n \<notin> fst ` set SOURCE_SERIES" "metric_name n" "distinct (map fst SINK_SERIES)"
    using series_names(1,3) n by (force simp: disjoint_iff)+
  with filter_series [OF n _ series_names(3) v(3,1,2)] filter_other_series [OF _ _ series_names(2)]
  show "samples (render_prometheus now m) n ''sink'' k = [unat (x (load_sink c))]"
    by (simp add: samples_def Let_def render_lines [OF assms] u64_to_string_def)
qed

lemma type_lines:
  assumes "bt_inv (metric_sources m)" "bt_inv (metric_sinks m)"
    "\<forall>k \<in> fst ` (set (metric_sources m)) \<union> fst ` (set (metric_sinks m)). plain k"
  shows "(\<forall>(n, h, t, x) \<in> set SOURCE_SERIES. ''# TYPE '' @ n @ '' '' @ t \<in> set (page_lines [] (render_prometheus now m))) \<and>
    (\<forall>(n, h, t, x) \<in> set SINK_SERIES. ''# TYPE '' @ n @ '' '' @ t \<in> set (page_lines [] (render_prometheus now m)))"
  unfolding render_lines [OF assms] by (force simp: text_lines_def)

section \<open>Properties\<close>

text \<open>
  C37: read back line by line, the Prometheus page holds for every registered source and sink
  exactly one sample of each of the thirteen series, with the current value of the counter of that
  name, and declares each series with its type. This is for component ids that need no escaping in a
  label (no double quote, backslash or newline): the page quotes ids without escaping them.
\<close>

theorem prometheus_exposes_every_component:
  assumes "bt_inv (metric_sources m)" and "bt_inv (metric_sinks m)"
    and "\<forall>k \<in> fst ` (set (metric_sources m)) \<union> fst ` (set (metric_sinks m)). plain k"
  shows "(\<forall>k c. metrics_source m k = Some c \<longrightarrow>
      (\<forall>(series, v) \<in> set [
         (''rustper_source_events_total'', events_in c), (''rustper_source_bytes_total'', bytes_in c),
         (''rustper_source_batches_total'', batches_in c), (''rustper_source_commits_total'', commits c),
         (''rustper_source_rebalances_total'', rebalances c),
         (''rustper_source_in_flight_bytes'', in_flight_bytes c),
         (''rustper_source_in_flight_batches'', in_flight_batches c)].
         samples (render_prometheus now m) series ''source'' k = [unat v])) \<and>
    (\<forall>k c. metrics_sink m k = Some c \<longrightarrow>
      (\<forall>(series, v) \<in> set [
         (''rustper_sink_events_total'', events_out c), (''rustper_sink_events_dropped_total'', events_dropped c),
         (''rustper_sink_batches_total'', batches_written c), (''rustper_sink_write_errors_total'', write_errors c),
         (''rustper_sink_retries_total'', retries c), (''rustper_sink_queue_depth'', queue_depth c)].
         samples (render_prometheus now m) series ''sink'' k = [unat v])) \<and>
    (\<forall>(series, type) \<in> set [
       (''rustper_source_events_total'', ''counter''), (''rustper_source_bytes_total'', ''counter''),
       (''rustper_source_batches_total'', ''counter''), (''rustper_source_commits_total'', ''counter''),
       (''rustper_source_rebalances_total'', ''counter''), (''rustper_source_in_flight_bytes'', ''gauge''),
       (''rustper_source_in_flight_batches'', ''gauge''), (''rustper_sink_events_total'', ''counter''),
       (''rustper_sink_events_dropped_total'', ''counter''), (''rustper_sink_batches_total'', ''counter''),
       (''rustper_sink_write_errors_total'', ''counter''), (''rustper_sink_retries_total'', ''counter''),
       (''rustper_sink_queue_depth'', ''gauge'')].
       ''# TYPE '' @ series @ '' '' @ type \<in> set (page_lines [] (render_prometheus now m)))"
proof (intro conjI allI impI)
  fix k c assume "metrics_source m k = Some c"
  with source_samples [OF assms, of k] show "\<forall>(series, v) \<in> set [
         (''rustper_source_events_total'', events_in c), (''rustper_source_bytes_total'', bytes_in c),
         (''rustper_source_batches_total'', batches_in c), (''rustper_source_commits_total'', commits c),
         (''rustper_source_rebalances_total'', rebalances c),
         (''rustper_source_in_flight_bytes'', in_flight_bytes c),
         (''rustper_source_in_flight_batches'', in_flight_batches c)].
         samples (render_prometheus now m) series ''source'' k = [unat v]"
    by (simp add: SOURCE_SERIES_def load_source_def)
next
  fix k c assume "metrics_sink m k = Some c"
  with sink_samples [OF assms, of k] show "\<forall>(series, v) \<in> set [
         (''rustper_sink_events_total'', events_out c), (''rustper_sink_events_dropped_total'', events_dropped c),
         (''rustper_sink_batches_total'', batches_written c), (''rustper_sink_write_errors_total'', write_errors c),
         (''rustper_sink_retries_total'', retries c), (''rustper_sink_queue_depth'', queue_depth c)].
         samples (render_prometheus now m) series ''sink'' k = [unat v]"
    by (simp add: SINK_SERIES_def load_sink_def)
next
  from type_lines [OF assms] show "\<forall>(series, type) \<in> set [
       (''rustper_source_events_total'', ''counter''), (''rustper_source_bytes_total'', ''counter''),
       (''rustper_source_batches_total'', ''counter''), (''rustper_source_commits_total'', ''counter''),
       (''rustper_source_rebalances_total'', ''counter''), (''rustper_source_in_flight_bytes'', ''gauge''),
       (''rustper_source_in_flight_batches'', ''gauge''), (''rustper_sink_events_total'', ''counter''),
       (''rustper_sink_events_dropped_total'', ''counter''), (''rustper_sink_batches_total'', ''counter''),
       (''rustper_sink_write_errors_total'', ''counter''), (''rustper_sink_retries_total'', ''counter''),
       (''rustper_sink_queue_depth'', ''gauge'')].
       ''# TYPE '' @ series @ '' '' @ type \<in> set (page_lines [] (render_prometheus now m))"
    by (simp add: SOURCE_SERIES_def SINK_SERIES_def)
qed

theorem prometheus_exposes_every_component_witness:
  "samples (render_prometheus 0 \<lparr>metric_sources = [(''in'', SourceMetrics_default\<lparr>events_in := 12, bytes_in := 340\<rparr>)],
       metric_sinks = [(''a'', SinkMetrics_default), (''b'', SinkMetrics_default\<lparr>queue_depth := 7\<rparr>)]\<rparr>)
     ''rustper_source_events_total'' ''source'' ''in'' = [12] \<and>
   samples (render_prometheus 0 \<lparr>metric_sources = [(''in'', SourceMetrics_default\<lparr>events_in := 12, bytes_in := 340\<rparr>)],
       metric_sinks = [(''a'', SinkMetrics_default), (''b'', SinkMetrics_default\<lparr>queue_depth := 7\<rparr>)]\<rparr>)
     ''rustper_sink_queue_depth'' ''sink'' ''b'' = [7]"
proof -
  let ?m = "\<lparr>metric_sources = [(''in'', SourceMetrics_default\<lparr>events_in := 12, bytes_in := 340\<rparr>)],
       metric_sinks = [(''a'', SinkMetrics_default), (''b'', SinkMetrics_default\<lparr>queue_depth := 7\<rparr>)]\<rparr>"
  have m: "bt_inv (metric_sources ?m)" "bt_inv (metric_sinks ?m)"
    "\<forall>k \<in> fst ` (set (metric_sources ?m)) \<union> fst ` (set (metric_sinks ?m)). plain k"
    by (simp_all add: bt_inv_def plain_def less_char_def)
  have g: "metrics_source ?m ''in'' = Some (SourceMetrics_default\<lparr>events_in := 12, bytes_in := 340\<rparr>)"
    "metrics_sink ?m ''b'' = Some (SinkMetrics_default\<lparr>queue_depth := 7\<rparr>)"
    by (simp_all add: metrics_source_def metrics_sink_def bt_get_def)
  note p = prometheus_exposes_every_component [OF m, of 0]
  have "samples (render_prometheus 0 ?m) ''rustper_source_events_total'' ''source'' ''in'' = [12]"
    using p [THEN conjunct1] g(1) by force
  moreover have "samples (render_prometheus 0 ?m) ''rustper_sink_queue_depth'' ''sink'' ''b'' = [7]"
    using p [THEN conjunct2, THEN conjunct1] g(2) by force
  ultimately show ?thesis by blast
qed

text \<open>
  A component's rate is computed from the difference of its counter between the two
  snapshots, which is zero rather than negative when the snapshots are swapped and counts
  from zero when the component is new; a zero-length interval yields the zero rate, and
  the absolute values come from the current snapshot.
\<close>

theorem rates_are_interval_deltas:
  fixes F :: "'f f64_ops"
  assumes "bt_inv (snap_sources current)" and "bt_get (snap_sources current) component = Some now"
  shows "\<exists>r d. bt_get (rate_sources (rates_since F current previous)) component = Some r \<and>
    sr_events_total r = sv_events_in now \<and> sr_rebalances r = sv_rebalances now \<and>
    unat d = unat (sv_events_in now) -
      unat (sv_events_in (unwrap_or (bt_get (snap_sources previous) component) SourceValues_default)) \<and>
    sr_events_per_second r =
      (let seconds = as_secs_f64 F (taken_at current - taken_at previous) in
       if f64_gt_zero F seconds then f64_div F (u64_as_f64 F d) seconds else f64_zero F)"
proof -
  let ?was = "unwrap_or (bt_get (snap_sources previous) component) SourceValues_default"
  let ?secs = "as_secs_f64 F (taken_at current - taken_at previous)"
  have "bt_get (rate_sources (rates_since F current previous)) component =
      Some (source_rates_since F ?secs now ?was)"
    using bt_get_collect_map [OF assms(1), of _ component] assms(2)
    by (simp add: rates_since_def Let_def)
  then show ?thesis
    using u64_saturating_sub_unat
    by (intro exI [of _ "source_rates_since F ?secs now ?was"]
        exI [of _ "u64_saturating_sub (sv_events_in now) (sv_events_in ?was)"])
       (simp add: source_rates_since_def per_second_def Let_def)
qed

theorem rates_are_interval_deltas_witness:
  "\<exists>r (d :: u64). bt_get (rate_sources (rates_since
      \<lparr>u64_as_f64 = unat, f64_div = (div), f64_zero = 0, f64_gt_zero = (\<lambda>x. 0 < x), as_secs_f64 = (\<lambda>t. t div 1000000000)\<rparr>
      \<lparr>taken_at = 5000000000, snap_sources = [(''src'', SourceValues_default\<lparr>sv_events_in := 11000\<rparr>)], snap_sinks = []\<rparr>
      \<lparr>taken_at = 3000000000, snap_sources = [(''src'', SourceValues_default\<lparr>sv_events_in := 1000\<rparr>)], snap_sinks = []\<rparr>))
      ''src'' = Some r \<and> unat d = 10000 \<and> sr_events_per_second r = (5000 :: nat)"
  using rates_are_interval_deltas [of
      "\<lparr>taken_at = 5000000000, snap_sources = [(''src'', SourceValues_default\<lparr>sv_events_in := 11000\<rparr>)], snap_sinks = []\<rparr>"
      "''src''" "SourceValues_default\<lparr>sv_events_in := 11000\<rparr>"
      "\<lparr>u64_as_f64 = unat, f64_div = (div), f64_zero = 0, f64_gt_zero = (\<lambda>x. 0 < x), as_secs_f64 = (\<lambda>t. t div 1000000000)\<rparr>"
      "\<lparr>taken_at = 3000000000, snap_sources = [(''src'', SourceValues_default\<lparr>sv_events_in := 1000\<rparr>)], snap_sinks = []\<rparr>"]
  by (auto simp: bt_inv_def bt_get_def unwrap_or_def Let_def SourceValues_default_def)

text \<open>
  The log reporter's windows are adjacent: its n-th line is the rate between the n-th
  tick and the one before it (the start for the first), nothing is logged after shutdown,
  and nothing at all when the interval is zero.
\<close>

theorem report_windows_are_adjacent:
  "report F interval start (map Tick snaps @ Shutdown # es) =
     (if interval = 0 then [] else map2 (rates_since F) snaps (start # snaps))"
proof -
  have "report_loop F start (map Tick snaps @ Shutdown # es) = map2 (rates_since F) snaps (start # snaps)"
    by (induction snaps arbitrary: start) auto
  then show ?thesis by (simp add: report_def)
qed

text \<open>
  Exactly the components the topology registers have counters: looking up a
  registered source or sink never panics and starts from zero, looking up any other does.
\<close>

theorem registry_covers_registered_components:
  "metrics_source (Metrics_new srcs snks) component =
     (if component \<in> set srcs then Some SourceMetrics_default else None) \<and>
   metrics_sink (Metrics_new srcs snks) component =
     (if component \<in> set snks then Some SinkMetrics_default else None)"
  using Metrics_new_get(3,4) by simp

text \<open>
  Neither a failed accept nor a failed connection ends the endpoint: once bound it serves every
  connection accepted before the shutdown, answers each request to \<open>GET /metrics\<close> with the page
  of the counters at that moment, and returns \<open>Ok\<close> at the shutdown, never before.
\<close>

lemma serve_loop_append:
  "ServeShutdown \<notin> set es \<Longrightarrow> serve_loop (es @ fs) =
     (let (res, cs) = serve_loop fs in
      (res, map (\<lambda>(reqs, r). serve_connection reqs r)
         (List.map_filter (\<lambda>e. case e of Accepted reqs r \<Rightarrow> Some (reqs, r) | _ \<Rightarrow> None) es) @ cs))"
  by (induction es rule: serve_loop.induct) (auto simp: List.map_filter_simps Let_def split: prod.splits)

theorem serve_until_shutdown:
  assumes "bind address = Ok ()" and "ServeShutdown \<notin> set es"
  shows "fst (serve bind address es) = None \<and> serve bind address (es @ ServeShutdown # fs) =
     (Some (Ok ()), map (\<lambda>(reqs, r). serve_connection reqs r)
        (List.map_filter (\<lambda>e. case e of Accepted reqs r \<Rightarrow> Some (reqs, r) | _ \<Rightarrow> None) es))"
  using assms(1)
  by (simp add: serve_def serve_loop_append [OF assms(2)] serve_loop_append [OF assms(2), of "[]", simplified])

end
