(* ===== verification/Kafka_Source.thy ===== *)
theory Kafka_Source
  imports Event Config Metrics "HOL-Library.Multiset"
begin

text \<open>
  \<open>src/source/kafka.rs\<close>: interning topic names, turning messages into events, the offsets a
  batch commits, in-order committing of out-of-order completions, the throughput reporter,
  and the source's \<open>run\<close> loop as a labelled step system. The Kafka consumer, its messages
  and its \<open>TopicPartitionList\<close> belong to \<open>rdkafka\<close>: they are parameters. \<open>Fanout::send\<close> is
  the component of theory Fanout; here only its result matters.
\<close>

section \<open>Client settings\<close>

text \<open>
  \<open>ClientConfig::set\<close> overwrites an earlier value of the same key: the settings are the
  calls in order, and the last one for a key wins. The entries of \<open>client_config\<close> come
  last, in the order the map yields them.
\<close>

definition source_client_settings :: "kafka_source_config \<Rightarrow> (string \<times> string) list" where
  "source_client_settings c = [
     (''bootstrap.servers'', ks_brokers c),
     (''group.id'', ks_group_id c),
     (''session.timeout.ms'', u64_to_string (ks_session_timeout_ms c)),
     (''enable.auto.commit'', ''false''),
     (''enable.auto.offset.store'', ''false''),
     (''auto.offset.reset'', ''earliest''),
     (''queued.max.messages.kbytes'', u64_to_string (ks_queued_max_messages_kbytes c)),
     (''queued.min.messages'', u64_to_string (ks_queued_min_messages c))] @ ks_client_config c"

record kafka_source =
  source_id :: string
  source_settings :: kafka_source_config

text \<open>
  \<open>KafkaSource::new\<close>: \<open>create\<close> is \<open>create_with_context\<close> on the settings, \<open>subscribe\<close> subscribes the
  consumer it made.
\<close>

definition KafkaSource_new ::
  "((string \<times> string) list \<Rightarrow> ('c, 'x) result) \<Rightarrow> ('c \<Rightarrow> string list \<Rightarrow> (unit, 'x) result) \<Rightarrow>
   string \<Rightarrow> kafka_source_config \<Rightarrow> (kafka_source, 'x error) result" where
  "KafkaSource_new create subscribe sid c =
     (case create (source_client_settings c) of
        Err e \<Rightarrow> Err (Context ''cannot create Kafka source'' (Foreign e))
      | Ok consumer \<Rightarrow>
          (case subscribe consumer (ks_topics c) of
             Err e \<Rightarrow> Err (Context ''cannot subscribe to Kafka topics'' (Foreign e))
           | Ok _ \<Rightarrow> Ok \<lparr>source_id = sid, source_settings = c\<rparr>))"

definition setting :: "(string \<times> string) list \<Rightarrow> string \<Rightarrow> string option" where
  "setting calls k = map_of (rev calls) k"

section \<open>The topic cache\<close>

text \<open>
  An \<open>Arc<str>\<close> is its address and its contents; \<open>Arc::from\<close> allocates the next address, the
  first component of the state threaded through \<open>intern\<close>.
\<close>

record arc_str =
  arc_addr :: nat
  arc_text :: string

record topic_cache =
  last_topic :: "arc_str option"
  interned :: "string \<rightharpoonup> arc_str"

definition TopicCache_default :: topic_cache where
  "TopicCache_default = \<lparr>last_topic = None, interned = Map.empty\<rparr>"

definition intern :: "string \<Rightarrow> nat \<times> topic_cache \<Rightarrow> arc_str \<times> nat \<times> topic_cache" where
  "intern t = (\<lambda>(fresh, cache).
     case last_topic cache of
       Some l \<Rightarrow>
         if arc_text l = t then (l, fresh, cache)
         else (case interned cache t of
             Some a \<Rightarrow> (a, fresh, cache\<lparr>last_topic := Some a\<rparr>)
           | None \<Rightarrow> let a = \<lparr>arc_addr = fresh, arc_text = t\<rparr> in
               (a, Suc fresh, cache\<lparr>interned := (interned cache)(t \<mapsto> a), last_topic := Some a\<rparr>))
     | None \<Rightarrow>
         (case interned cache t of
             Some a \<Rightarrow> (a, fresh, cache\<lparr>last_topic := Some a\<rparr>)
           | None \<Rightarrow> let a = \<lparr>arc_addr = fresh, arc_text = t\<rparr> in
               (a, Suc fresh, cache\<lparr>interned := (interned cache)(t \<mapsto> a), last_topic := Some a\<rparr>)))"

fun intern_all :: "string list \<Rightarrow> nat \<times> topic_cache \<Rightarrow> arc_str list \<times> nat \<times> topic_cache" where
  "intern_all [] s = ([], s)"
| "intern_all (t # ts) s = (let (a, s1) = intern t s; (as, s2) = intern_all ts s1 in (a # as, s2))"

section \<open>Messages and events\<close>

text \<open>What the source reads of a \<open>BorrowedMessage\<close>.\<close>

record message =
  msg_key :: "bytes option"
  msg_payload :: "bytes option"
  msg_timestamp :: "i64 option"
  msg_topic :: string
  msg_partition :: i32
  msg_offset :: i64

record 'm decoder =
  dec_fresh :: nat
  dec_topics :: topic_cache
  dec_buffer :: "'m batch_buffer"

definition decoder_start :: "'m bytes_mut_ops \<Rightarrow> 'm decoder" where
  "decoder_start ops = \<lparr>dec_fresh = 0, dec_topics = TopicCache_default, dec_buffer = BatchBuffer_default ops\<rparr>"

definition copy_opt ::
  "'m bytes_mut_ops \<Rightarrow> 'm batch_buffer \<Rightarrow> bytes option \<Rightarrow> 'm batch_buffer \<times> bytes option" where
  "copy_opt ops bb src =
     (case src of None \<Rightarrow> (bb, None) | Some s \<Rightarrow> let (bb', v) = copy ops bb s in (bb', Some v))"

definition to_event ::
  "'m bytes_mut_ops \<Rightarrow> string \<Rightarrow> 'm decoder \<Rightarrow> message \<Rightarrow> event \<times> 'm decoder" where
  "to_event ops component d m =
     (let (b1, k) = copy_opt ops (dec_buffer d) (msg_key m);
          (b2, p) = copy_opt ops b1 (msg_payload m);
          (a, fresh, topics) = intern (msg_topic m) (dec_fresh d, dec_topics d)
      in (\<lparr>key = k, payload = unwrap_or p [], timestamp_ms = msg_timestamp m,
           source = \<lparr>component_id = component, topic = arc_text a, partition = msg_partition m,
             offset = msg_offset m\<rparr>\<rparr>,
          \<lparr>dec_fresh = fresh, dec_topics = topics, dec_buffer = b2\<rparr>))"

section \<open>The offsets of a batch\<close>

type_synonym next_offset = "string \<times> i32 \<times> i64"

text \<open>\<open>iter_mut().find(...)\<close> with the update of the entry found, or the push of a new one.\<close>

fun bump :: "string \<Rightarrow> i32 \<Rightarrow> i64 \<Rightarrow> next_offset list \<Rightarrow> next_offset list" where
  "bump t p next [] = [(t, p, next)]"
| "bump t p next ((seen, seen_partition, o') # rest) =
     (if seen_partition = p \<and> seen = t then (seen, seen_partition, max o' next) # rest
      else (seen, seen_partition, o') # bump t p next rest)"

definition next_offsets :: "event list \<Rightarrow> next_offset list" where
  "next_offsets es = fold (\<lambda>e.
     bump (topic (source e)) (partition (source e)) (wrap_i64 (offset (source e) + 1))) es []"

text \<open>
  \<open>TopicPartitionList\<close>: an empty list, \<open>add_partition_offset\<close>, which may fail, and the offset
  found for a partition.
\<close>

record ('l, 'x) tpl_ops =
  tpl_new :: 'l
  tpl_add :: "'l \<Rightarrow> string \<Rightarrow> i32 \<Rightarrow> i64 \<Rightarrow> ('l, 'x) result"
  tpl_find :: "'l \<Rightarrow> string \<Rightarrow> i32 \<Rightarrow> i64 option"

fun add_offsets :: "('l, 'x) tpl_ops \<Rightarrow> next_offset list \<Rightarrow> 'l \<Rightarrow> ('l, 'x error) result" where
  "add_offsets T [] l = Ok l"
| "add_offsets T ((t, p, n) # rest) l =
     (case tpl_add T l t p n of
        Ok l' \<Rightarrow> add_offsets T rest l'
      | Err e \<Rightarrow> Err (Context ''cannot record next offsets for Kafka batch'' (Foreign e)))"

definition offsets_for :: "('l, 'x) tpl_ops \<Rightarrow> event list \<Rightarrow> ('l, 'x error) result" where
  "offsets_for T es = add_offsets T (next_offsets es) (tpl_new T)"

text \<open>
  What the source relies on of the list: a new one has no offsets, and recording one for a
  partition sets exactly that partition's.
\<close>

definition tpl_laws :: "('l, 'x) tpl_ops \<Rightarrow> bool" where
  "tpl_laws T \<longleftrightarrow> (\<forall>t p. tpl_find T (tpl_new T) t p = None) \<and>
     (\<forall>l t p n l'. tpl_add T l t p n = Ok l' \<longrightarrow>
        (\<forall>t' p'. tpl_find T l' t' p' = (if t' = t \<and> p' = p then Some n else tpl_find T l t' p')))"

text \<open>A list of entries in which a later one for the same partition wins satisfies them.\<close>

definition list_tpl :: "(next_offset list, 'x) tpl_ops" where
  "list_tpl = \<lparr>tpl_new = [], tpl_add = (\<lambda>l t p n. Ok ((t, p, n) # l)),
     tpl_find = (\<lambda>l t p. map_of (map (\<lambda>(t, p, n). ((t, p), n)) l) (t, p))\<rparr>"

lemma list_tpl_laws: "tpl_laws list_tpl"
  by (auto simp: tpl_laws_def list_tpl_def)

section \<open>Committing in order\<close>

record 'l batch_completion =
  bc_sequence :: u64
  bc_offsets :: 'l
  bc_events :: u64
  bc_bytes :: usize

text \<open>
  The \<open>while let\<close> loop. \<open>commit\<close> is \<open>Consumer::commit\<close> over the consumer's state. Besides the
  result, the consumer, the waiting completions, the next sequence number and the counters,
  the completions whose offsets were committed are returned, in order.
\<close>

function commit_loop ::
  "('c \<Rightarrow> 'l \<Rightarrow> (unit, 'x) result \<times> 'c) \<Rightarrow> 'c \<Rightarrow> (u64, 'l batch_completion) btree \<Rightarrow> u64 \<Rightarrow>
   source_metrics \<Rightarrow> u64 \<Rightarrow> u64 \<Rightarrow>
   (u64 \<times> u64, 'x error) result \<times> 'c \<times> (u64, 'l batch_completion) btree \<times> u64 \<times> source_metrics \<times>
   'l batch_completion list" where
  "commit_loop commit con completed next m events bytes =
     (case bt_get completed next of
        None \<Rightarrow> (Ok (events, bytes), con, completed, next, m, [])
      | Some c \<Rightarrow>
          let completed' = bt_remove next completed in
          (case commit con (bc_offsets c) of
             (Err e, con') \<Rightarrow>
               (Err (Context ''cannot commit Kafka batch'' (Foreign e)), con', completed', next, m, [])
           | (Ok _, con') \<Rightarrow>
               let (r, con'', completed'', next', m', log) =
                 commit_loop commit con' completed' (next + 1) (m\<lparr>commits := commits m + 1\<rparr>)
                   (events + bc_events c) (bytes + of_nat (bc_bytes c))
               in (r, con'', completed'', next', m', c # log)))"
  by pat_completeness auto
termination
  by (relation "measure (\<lambda>(_, _, completed, _). length completed)") (auto dest: bt_remove_length)

declare commit_loop.simps [simp del]

definition commit_contiguous ::
  "('c \<Rightarrow> 'l \<Rightarrow> (unit, 'x) result \<times> 'c) \<Rightarrow> 'c \<Rightarrow> (u64, 'l batch_completion) btree \<Rightarrow> u64 \<Rightarrow>
   'l batch_completion \<Rightarrow> source_metrics \<Rightarrow>
   (u64 \<times> u64, 'x error) result \<times> 'c \<times> (u64, 'l batch_completion) btree \<times> u64 \<times> source_metrics \<times>
   'l batch_completion list" where
  "commit_contiguous commit con completed next completion m =
     commit_loop commit con (bt_insert (bc_sequence completion) completion completed) next m 0 0"

section \<open>Throughput reports\<close>

record reporter =
  rep_every :: u64
  rep_next :: u64
  rep_window_started :: duration
  rep_window_events :: u64
  rep_total_started :: duration

text \<open>What a report line is computed from; the printed rates are these counts over these times.\<close>

record report_line =
  line_processed :: u64
  line_window_events :: u64
  line_window_elapsed :: duration
  line_total_elapsed :: duration

definition REPORT_EVERY :: u64 where "REPORT_EVERY = 100000"

definition Reporter_new :: "duration \<Rightarrow> u64 \<Rightarrow> reporter" where
  "Reporter_new now every = \<lparr>rep_every = max every 1, rep_next = max every 1,
     rep_window_started = now, rep_window_events = 0, rep_total_started = now\<rparr>"

definition record_events :: "duration \<Rightarrow> u64 \<Rightarrow> u64 \<Rightarrow> reporter \<Rightarrow> reporter \<times> report_line option" where
  "record_events now events tot r =
     (let r1 = r\<lparr>rep_window_events := rep_window_events r + events\<rparr> in
      if tot < rep_next r1 then (r1, None)
      else (r1\<lparr>rep_next := (tot div rep_every r1 + 1) * rep_every r1, rep_window_started := now,
              rep_window_events := 0\<rparr>,
            Some \<lparr>line_processed = tot, line_window_events = rep_window_events r1,
              line_window_elapsed = saturating_sub now (rep_window_started r1),
              line_total_elapsed = saturating_sub now (rep_total_started r1)\<rparr>))"

section \<open>Rebalances\<close>

text \<open>
  The consumer's \<open>post_rebalance\<close> callback, told apart only by whether the rebalance is an
  assignment.
\<close>

definition post_rebalance :: "bool \<Rightarrow> source_metrics \<Rightarrow> source_metrics" where
  "post_rebalance is_assign m = (if is_assign then m\<lparr>rebalances := rebalances m + 1\<rparr> else m)"

lemma post_rebalance_fields [simp]:
  "batches_in (post_rebalance a m) = batches_in m" "commits (post_rebalance a m) = commits m"
  "events_in (post_rebalance a m) = events_in m" "bytes_in (post_rebalance a m) = bytes_in m"
  by (simp_all add: post_rebalance_def)

section \<open>The run loop\<close>

text \<open>
  What the loop is given: the libraries it calls, its id and its configuration. \<open>se_commit\<close> is
  \<open>Consumer::commit\<close> over the consumer's state, \<open>se_size_of\<close> the size of an \<open>Event\<close>.
\<close>

record ('l, 'x, 'm, 'c) source_env =
  se_tpl :: "('l, 'x) tpl_ops"
  se_bytes :: "'m bytes_mut_ops"
  se_commit :: "'c \<Rightarrow> 'l \<Rightarrow> (unit, 'x) result \<times> 'c"
  se_size_of :: usize
  se_id :: string
  se_config :: kafka_source_config

text \<open>
  The locals of \<open>run\<close>. The \<open>JoinSet\<close> \<open>in_flight\<close> is \<open>sending\<close> (sends not yet returned, with the
  completion each will produce) and \<open>joinable\<close> (their results, not yet joined). \<open>arrivals\<close>
  is what \<open>recv\<close> will yield. \<open>src_result\<close> is set when \<open>run\<close> returns. The last four fields
  are history: messages consumed, batches dispatched, sends that returned \<open>Ok\<close>, and commits.
\<close>

record ('l, 'x, 'm, 'c) source_task =
  src_result :: "(unit, 'x error) result option"
  src_cancelled :: bool
  src_deadline :: bool
  arrivals :: "(message, 'x) result list"
  pending :: "event list"
  sending :: "'l batch_completion list"
  joinable :: "('l batch_completion, 'x error) result list"
  completed :: "(u64, 'l batch_completion) btree"
  sequence :: u64
  next_commit_sequence :: u64
  src_in_flight_bytes :: usize
  processed :: u64
  src_counters :: source_metrics
  src_reporter :: reporter
  src_decoder :: "'m decoder"
  src_consumer :: 'c
  consumed :: "message list"
  batches :: "event list list"
  acked :: "'l batch_completion list"
  commit_log :: "'l batch_completion list"

definition source_start ::
  "('l, 'x, 'm, 'c) source_env \<Rightarrow> duration \<Rightarrow> 'c \<Rightarrow> source_metrics \<Rightarrow> ('l, 'x, 'm, 'c) source_task" where
  "source_start E now con m = \<lparr>src_result = None, src_cancelled = False, src_deadline = True,
     arrivals = [], pending = [], sending = [], joinable = [], completed = [], sequence = 0,
     next_commit_sequence = 0, src_in_flight_bytes = 0, processed = 0, src_counters = m,
     src_reporter = Reporter_new now REPORT_EVERY, src_decoder = decoder_start (se_bytes E),
     src_consumer = con, consumed = [], batches = [], acked = [], commit_log = []\<rparr>"

definition in_flight_len :: "('l, 'x, 'm, 'c) source_task \<Rightarrow> usize" where
  "in_flight_len s = length (sending s) + length (joinable s)"

definition admits_batch :: "('l, 'x, 'm, 'c) source_env \<Rightarrow> ('l, 'x, 'm, 'c) source_task \<Rightarrow> bool" where
  "admits_batch E s \<longleftrightarrow> in_flight_len s < ks_max_in_flight_batches (se_config E) \<and>
     src_in_flight_bytes s < ks_max_in_flight_bytes (se_config E)"

text \<open>The \<open>dispatch!\<close> macro.\<close>

definition dispatch ::
  "('l, 'x, 'm, 'c) source_env \<Rightarrow> ('l, 'x, 'm, 'c) source_task \<Rightarrow> ('l, 'x, 'm, 'c) source_task" where
  "dispatch E s =
     (let events = pending s; s0 = s\<lparr>pending := []\<rparr> in
      case offsets_for (se_tpl E) events of
        Err e \<Rightarrow> s0\<lparr>src_result := Some (Err e)\<rparr>
      | Ok offsets \<Rightarrow>
          let batch = EventBatch_new (se_size_of E) events;
              in_flight = saturating_add (src_in_flight_bytes s) (batch_bytes batch)
          in s0\<lparr>src_in_flight_bytes := in_flight,
               src_counters := (src_counters s)\<lparr>batches_in := batches_in (src_counters s) + 1,
                 in_flight_bytes := of_nat in_flight,
                 in_flight_batches := of_nat (in_flight_len s) + 1\<rparr>,
               sequence := sequence s + 1,
               sending := sending s @ [\<lparr>bc_sequence = sequence s, bc_offsets = offsets,
                 bc_events = of_nat (batch_len batch), bc_bytes = batch_bytes batch\<rparr>],
               batches := batches s @ [events]\<rparr>)"

text \<open>The completion branch of the \<open>select!\<close>: account for the batch, then commit what is contiguous.\<close>

definition on_completion ::
  "('l, 'x, 'm, 'c) source_env \<Rightarrow> duration \<Rightarrow> 'l batch_completion \<Rightarrow>
   ('l, 'x, 'm, 'c) source_task \<Rightarrow> ('l, 'x, 'm, 'c) source_task" where
  "on_completion E now c s =
     (let in_flight = saturating_sub (src_in_flight_bytes s) (bc_bytes c);
          m = (src_counters s)\<lparr>in_flight_bytes := of_nat in_flight,
                 in_flight_batches := of_nat (in_flight_len s)\<rparr>;
          (r, con, completed', next, m', log) =
            commit_contiguous (se_commit E) (src_consumer s) (completed s) (next_commit_sequence s) c m;
          s' = s\<lparr>src_in_flight_bytes := in_flight, src_counters := m', src_consumer := con,
                 completed := completed', next_commit_sequence := next, commit_log := commit_log s @ log\<rparr>
      in case r of
           Err e \<Rightarrow> s'\<lparr>src_result := Some (Err e)\<rparr>
         | Ok (n, b) \<Rightarrow>
             s'\<lparr>processed := processed s + n,
                src_counters := m'\<lparr>events_in := events_in m' + n, bytes_in := bytes_in m' + b\<rparr>,
                src_reporter := fst (record_events now n (processed s + n) (src_reporter s))\<rparr>)"

definition on_joined ::
  "('l, 'x, 'm, 'c) source_env \<Rightarrow> duration \<Rightarrow> nat \<Rightarrow>
   ('l, 'x, 'm, 'c) source_task \<Rightarrow> ('l, 'x, 'm, 'c) source_task" where
  "on_joined E now k s =
     (let s' = s\<lparr>joinable := remove_nth k (joinable s)\<rparr> in
      case joinable s ! k of
        Err e \<Rightarrow> s'\<lparr>src_result := Some (Err e)\<rparr>
      | Ok c \<Rightarrow> on_completion E now c s')"

definition on_message ::
  "('l, 'x, 'm, 'c) source_env \<Rightarrow> message \<Rightarrow> ('l, 'x, 'm, 'c) source_task \<Rightarrow> ('l, 'x, 'm, 'c) source_task" where
  "on_message E m s =
     (let (e, d) = to_event (se_bytes E) (se_id E) (src_decoder s) m;
          s' = s\<lparr>src_deadline := (if pending s = [] then False else src_deadline s),
                 pending := pending s @ [e], src_decoder := d, consumed := consumed s @ [m]\<rparr>
      in if ks_batch_size (se_config E) \<le> length (pending s') then dispatch E s' else s')"

definition on_recv ::
  "('l, 'x, 'm, 'c) source_env \<Rightarrow> (message, 'x) result \<Rightarrow>
   ('l, 'x, 'm, 'c) source_task \<Rightarrow> ('l, 'x, 'm, 'c) source_task" where
  "on_recv E r s =
     (case r of
        Err e \<Rightarrow> s\<lparr>src_result := Some (Err (Context ''Kafka consume failed'' (Foreign e)))\<rparr>
      | Ok m \<Rightarrow> on_message E m s)"

datatype 'x source_event =
    SrcCancel
  | SrcLinger
  | Arrive "(message, 'x) result"
  | SendDone nat "(unit, 'x error) result"
  | Rebalanced bool
  | SrcPoll nat duration

text \<open>
  \<open>SendDone i r\<close>: the \<open>i\<close>-th outstanding \<open>Fanout::send\<close> returns \<open>r\<close> (an error also stands for a
  panicked task). \<open>Rebalanced\<close>: the client calls \<open>post_rebalance\<close>. \<open>SrcPoll k now\<close>: one evaluation of the biased \<open>select!\<close>, where \<open>join_next\<close>
  would yield the \<open>k\<close>-th joinable task and the clock reads \<open>now\<close>.
\<close>

definition source_step ::
  "('l, 'x, 'm, 'c) source_env \<Rightarrow> ('l, 'x, 'm, 'c) source_task \<Rightarrow> 'x source_event \<Rightarrow>
   ('l, 'x, 'm, 'c) source_task option" where
  "source_step E s ev =
     (if src_result s \<noteq> None then None
      else case ev of
        SrcCancel \<Rightarrow> Some (s\<lparr>src_cancelled := True\<rparr>)
      | SrcLinger \<Rightarrow> Some (s\<lparr>src_deadline := True\<rparr>)
      | Arrive r \<Rightarrow> Some (s\<lparr>arrivals := arrivals s @ [r]\<rparr>)
      | SendDone i r \<Rightarrow>
          if i < length (sending s) then
            Some (s\<lparr>sending := remove_nth i (sending s),
              joinable := joinable s @ [bind_result r (\<lambda>_. Ok (sending s ! i))],
              acked := acked s @ (if is_ok r then [sending s ! i] else [])\<rparr>)
          else None
      | Rebalanced a \<Rightarrow> Some (s\<lparr>src_counters := post_rebalance a (src_counters s)\<rparr>)
      | SrcPoll k now \<Rightarrow>
          if src_cancelled s then Some (s\<lparr>src_result := Some (Ok ())\<rparr>)
          else if joinable s \<noteq> [] then
            if k < length (joinable s) then Some (on_joined E now k s) else None
          else if src_deadline s \<and> pending s \<noteq> [] \<and> admits_batch E s then Some (dispatch E s)
          else if admits_batch E s \<and> length (pending s) < ks_batch_size (se_config E) then
            (case arrivals s of
               [] \<Rightarrow> None
             | r # rest \<Rightarrow> Some (on_recv E r (s\<lparr>arrivals := rest\<rparr>)))
          else None)"

section \<open>Interning\<close>

definition cache_ok :: "nat \<times> topic_cache \<Rightarrow> bool" where
  "cache_ok = (\<lambda>(fresh, cache).
     (\<forall>t a. interned cache t = Some a \<longrightarrow> arc_text a = t \<and> arc_addr a < fresh) \<and>
     inj_on (\<lambda>t. map_option arc_addr (interned cache t)) (dom (interned cache)) \<and>
     card (dom (interned cache)) = fresh \<and> finite (dom (interned cache)) \<and>
     (\<forall>l. last_topic cache = Some l \<longrightarrow> interned cache (arc_text l) = Some l))"

lemma cache_ok_default: "cache_ok (0, TopicCache_default)"
  by (simp add: cache_ok_def TopicCache_default_def)

lemma intern_known:
  assumes "cache_ok (fresh, cache)" "interned cache t = Some a"
  shows "intern t (fresh, cache) = (a, fresh, cache\<lparr>last_topic := Some a\<rparr>)"
proof (cases "\<exists>l. last_topic cache = Some l \<and> arc_text l = t")
  case True
  then obtain l where l: "last_topic cache = Some l" "arc_text l = t" by blast
  with assms have "a = l" by (simp add: cache_ok_def)
  with l show ?thesis by (cases cache) (simp add: intern_def)
next
  case False
  with assms(2) show ?thesis by (simp add: intern_def split: option.split)
qed

lemma intern_fresh:
  assumes "cache_ok (fresh, cache)" "interned cache t = None"
  shows "intern t (fresh, cache) =
    (\<lparr>arc_addr = fresh, arc_text = t\<rparr>, Suc fresh,
     \<lparr>last_topic = Some \<lparr>arc_addr = fresh, arc_text = t\<rparr>, interned = (interned cache)(t \<mapsto> \<lparr>arc_addr = fresh, arc_text = t\<rparr>)\<rparr>)"
proof -
  have "\<not> (\<exists>l. last_topic cache = Some l \<and> arc_text l = t)" using assms by (auto simp: cache_ok_def)
  with assms(2) show ?thesis by (cases cache) (simp add: intern_def Let_def split: option.split)
qed

text \<open>
  Interning keeps the cache sound, never changes the Arc of a topic already interned, and
  returns the Arc the cache now holds for the topic.
\<close>

lemma intern_correct:
  assumes ok: "cache_ok (fresh, cache)" and i: "intern t (fresh, cache) = (a, fresh', cache')"
  shows "cache_ok (fresh', cache')" and "interned cache' t = Some a" and "arc_text a = t"
    and "interned cache \<subseteq>\<^sub>m interned cache'" and "dom (interned cache') = insert t (dom (interned cache))"
proof -
  have "cache_ok (fresh', cache') \<and> interned cache' t = Some a \<and> arc_text a = t \<and>
    interned cache \<subseteq>\<^sub>m interned cache' \<and> dom (interned cache') = insert t (dom (interned cache))"
  proof (cases "interned cache t")
    case (Some b)
    with i intern_known [OF ok Some] ok show ?thesis
      by (auto simp: cache_ok_def map_le_def)
  next
    case None
    let ?a = "\<lparr>arc_addr = fresh, arc_text = t\<rparr>"
    have lt: "interned cache u = Some b \<Longrightarrow> arc_addr b \<noteq> fresh" for u b
      using ok unfolding cache_ok_def by fastforce
    have "inj_on (\<lambda>u. map_option arc_addr (((interned cache)(t \<mapsto> ?a)) u)) (insert t (dom (interned cache)))"
      using ok None by (auto simp: inj_on_def cache_ok_def dest: lt)
    moreover have "card (insert t (dom (interned cache))) = Suc fresh" "finite (dom (interned cache))"
      "\<forall>u b. interned cache u = Some b \<longrightarrow> arc_text b = u \<and> arc_addr b < fresh"
      using ok None by (simp_all add: cache_ok_def domIff)
    moreover have c: "a = ?a" "fresh' = Suc fresh" "interned cache' = (interned cache)(t \<mapsto> ?a)"
      "last_topic cache' = Some ?a" using i intern_fresh [OF ok None] by auto
    ultimately have "cache_ok (fresh', cache')" by (auto simp: cache_ok_def less_Suc_eq)
    with c None show ?thesis by (auto simp: map_le_def)
  qed
  then show "cache_ok (fresh', cache')" "interned cache' t = Some a" "arc_text a = t"
    "interned cache \<subseteq>\<^sub>m interned cache'" "dom (interned cache') = insert t (dom (interned cache))" by auto
qed

lemma intern_all_correct:
  assumes "cache_ok (fresh, cache)" "intern_all ts (fresh, cache) = (as, fresh', cache')"
  shows "cache_ok (fresh', cache') \<and> map Some as = map (interned cache') ts \<and>
    interned cache \<subseteq>\<^sub>m interned cache' \<and> dom (interned cache') = set ts \<union> dom (interned cache)"
  using assms
proof (induction ts arbitrary: fresh cache as)
  case (Cons t ts)
  obtain a f1 c1 where i: "intern t (fresh, cache) = (a, f1, c1)" by (metis prod.exhaust)
  obtain bs where bs: "intern_all ts (f1, c1) = (bs, fresh', cache')" "as = a # bs"
    using Cons.prems(2) i by (auto split: prod.splits)
  note h = intern_correct [OF Cons.prems(1) i]
  from Cons.IH [OF h(1) bs(1)] h bs(2) show ?case
    by (auto simp: map_le_def)
qed simp

section \<open>Decoding messages\<close>

text \<open>The event a message stands for, without arena and cache.\<close>

definition event_of :: "string \<Rightarrow> message \<Rightarrow> event" where
  "event_of component m = \<lparr>key = msg_key m, payload = unwrap_or (msg_payload m) [],
     timestamp_ms = msg_timestamp m,
     source = \<lparr>component_id = component, topic = msg_topic m, partition = msg_partition m,
       offset = msg_offset m\<rparr>\<rparr>"

definition decoder_ok :: "'m bytes_mut_ops \<Rightarrow> 'm decoder \<Rightarrow> bool" where
  "decoder_ok ops d \<longleftrightarrow> arena_inv ops (dec_buffer d) \<and> cache_ok (dec_fresh d, dec_topics d)"

lemma decoder_start_ok: "bytes_mut_laws ops \<Longrightarrow> decoder_ok ops (decoder_start ops)"
  by (simp add: decoder_ok_def decoder_start_def cache_ok_default BatchBuffer_default_def)

lemma copy_opt_correct:
  assumes "bytes_mut_laws ops" "arena_inv ops bb" "copy_opt ops bb src = (bb', v)"
  shows "v = src \<and> arena_inv ops bb'"
  using assms copy_correct [OF assms(1,2)]
  by (auto simp: copy_opt_def split: option.splits prod.splits)

lemma to_event_correct:
  assumes "bytes_mut_laws ops" "decoder_ok ops d" "to_event ops component d m = (e, d')"
  shows "e = event_of component m" and "decoder_ok ops d'"
proof -
  obtain b1 k where 1: "copy_opt ops (dec_buffer d) (msg_key m) = (b1, k)" by fastforce
  obtain b2 p where 2: "copy_opt ops b1 (msg_payload m) = (b2, p)" by fastforce
  obtain a f c where 3: "intern (msg_topic m) (dec_fresh d, dec_topics d) = (a, f, c)" by (metis prod.exhaust)
  from copy_opt_correct [OF assms(1) _ 1] assms(2) have k: "k = msg_key m" "arena_inv ops b1"
    by (auto simp: decoder_ok_def)
  from copy_opt_correct [OF assms(1) k(2) 2] have p: "p = msg_payload m" "arena_inv ops b2" by auto
  from intern_correct [OF _ 3] assms(2) have "arc_text a = msg_topic m" "cache_ok (f, c)"
    by (auto simp: decoder_ok_def)
  with assms(3) 1 2 3 k p show "e = event_of component m" "decoder_ok ops d'"
    by (auto simp: to_event_def event_of_def decoder_ok_def)
qed

section \<open>Next offsets\<close>

definition lookup_offset :: "next_offset list \<Rightarrow> string \<Rightarrow> i32 \<Rightarrow> i64 option" where
  "lookup_offset l t p = map_of (map (\<lambda>(t, p, n). ((t, p), n)) l) (t, p)"

definition keys_of :: "next_offset list \<Rightarrow> (string \<times> i32) list" where
  "keys_of l = map (\<lambda>(t, p, n). (t, p)) l"

lemma lookup_bump:
  "lookup_offset (bump t p n l) t' p' =
    (if t' = t \<and> p' = p then Some (case lookup_offset l t p of None \<Rightarrow> n | Some x \<Rightarrow> max x n)
     else lookup_offset l t' p')"
  by (induction t p n l rule: bump.induct) (auto simp: lookup_offset_def)

lemma keys_bump: "set (keys_of (bump t p n l)) = insert (t, p) (set (keys_of l))"
  by (induction t p n l rule: bump.induct) (auto simp: keys_of_def)

lemma distinct_bump: "distinct (keys_of l) \<Longrightarrow> distinct (keys_of (bump t p n l))"
proof (induction t p n l rule: bump.induct)
  case (2 t p n seen q x rest)
  then show ?case using keys_bump [of t p n rest] by (auto simp: keys_of_def)
qed (simp add: keys_of_def)

definition same_partition :: "string \<Rightarrow> i32 \<Rightarrow> event \<Rightarrow> bool" where
  "same_partition t p e \<longleftrightarrow> topic (source e) = t \<and> partition (source e) = p"

definition commit_offset :: "event list \<Rightarrow> string \<Rightarrow> i32 \<Rightarrow> i64 option" where
  "commit_offset es t p =
     (case filter (same_partition t p) es of
        [] \<Rightarrow> None
      | fs \<Rightarrow> Some (Max (set (map (\<lambda>e. wrap_i64 (offset (source e) + 1)) fs))))"

lemma commit_offset_snoc:
  "commit_offset (es @ [e]) t p =
    (if same_partition t p e then Some (case commit_offset es t p of
        None \<Rightarrow> wrap_i64 (offset (source e) + 1) | Some x \<Rightarrow> max x (wrap_i64 (offset (source e) + 1)))
     else commit_offset es t p)"
proof (cases "filter (same_partition t p) es")
  case (Cons f fs)
  have "Max (insert a (set xs)) = fold max xs a" for a :: int and xs
    by (simp add: Max.set_eq_fold flip: list.simps(15))
  with Cons show ?thesis
    by (auto simp: commit_offset_def Max_insert max.commute max.left_commute insert_commute
        simp del: Max.set_eq_fold)
qed (simp add: commit_offset_def)

lemma next_offsets_correct:
  "lookup_offset (next_offsets es) t p = commit_offset es t p \<and> distinct (keys_of (next_offsets es))"
proof (induction es arbitrary: t p rule: rev_induct)
  case Nil
  then show ?case by (simp add: next_offsets_def lookup_offset_def commit_offset_def keys_of_def)
next
  case (snoc e es)
  have "next_offsets (es @ [e]) = bump (topic (source e)) (partition (source e))
      (wrap_i64 (offset (source e) + 1)) (next_offsets es)"
    by (simp add: next_offsets_def)
  with snoc show ?case
    by (auto simp: lookup_bump commit_offset_snoc same_partition_def distinct_bump)
qed

lemma add_offsets_correct:
  assumes "tpl_laws T" "add_offsets T ns l = Ok l'" "distinct (keys_of ns)"
  shows "tpl_find T l' t p = (case lookup_offset ns t p of None \<Rightarrow> tpl_find T l t p | Some n \<Rightarrow> Some n)"
  using assms
proof (induction T ns l rule: add_offsets.induct)
  case (2 T t' p' n rest l)
  then obtain l1 where l1: "tpl_add T l t' p' n = Ok l1" "add_offsets T rest l1 = Ok l'"
    by (auto split: result.splits)
  have "lookup_offset rest t' p' = None"
    using 2(4) by (force simp: keys_of_def lookup_offset_def map_of_eq_None_iff)
  moreover have "tpl_find T l1 t p = (if t = t' \<and> p = p' then Some n else tpl_find T l t p)"
    using 2(2) l1(1) by (simp add: tpl_laws_def)
  moreover have "lookup_offset ((t', p', n) # rest) t p =
      (if t = t' \<and> p = p' then Some n else lookup_offset rest t p)"
    by (simp add: lookup_offset_def)
  ultimately show ?case using 2(1) [OF l1(1) 2(2) l1(2)] 2(4)
    by (auto simp: keys_of_def split: option.splits)
qed (simp add: lookup_offset_def)

lemma offsets_for_correct:
  assumes "tpl_laws T" "offsets_for T es = Ok l"
  shows "tpl_find T l t p = commit_offset es t p"
proof -
  have "tpl_find T (tpl_new T) t p = None" using assms(1) by (simp add: tpl_laws_def)
  with add_offsets_correct [OF assms(1) assms(2) [unfolded offsets_for_def]] next_offsets_correct [of es t p]
  show ?thesis by (auto split: option.splits)
qed

section \<open>Contiguous commits\<close>

definition keyed :: "(u64, 'l batch_completion) btree \<Rightarrow> bool" where
  "keyed m \<longleftrightarrow> bt_inv m \<and> (\<forall>(k, c) \<in> set m. k = bc_sequence c)"

lemma keyed_remove: "keyed m \<Longrightarrow> keyed (bt_remove k m)"
  using set_bt_remove [of k m] by (auto simp: keyed_def bt_inv_remove)

lemma keyed_insert: "keyed m \<Longrightarrow> keyed (bt_insert (bc_sequence c) c m)"
  using set_bt_insert [of "bc_sequence c" c m] by (auto simp: keyed_def bt_inv_insert)

text \<open>What one run of the loop commits: the longest run of sequence numbers from \<open>next\<close> on.\<close>

lemma commit_loop_run:
  assumes "commit_loop commit con m nx cnt ev bt = (Ok (ev', bt'), con', m', nx', cnt', lg)" "bt_inv m"
  shows "nx' = nx + of_nat (length lg) \<and>
    (\<forall>i < length lg. bt_get m (nx + of_nat i) = Some (lg ! i)) \<and>
    bt_get m' nx' = None \<and> mset (map snd m) = mset lg + mset (map snd m') \<and>
    ev' = ev + sum_list (map bc_events lg) \<and> bt' = bt + of_nat (sum_list (map bc_bytes lg)) \<and>
    commits cnt' = commits cnt + of_nat (length lg)"
  using assms
proof (induction commit con m nx cnt ev bt arbitrary: lg rule: commit_loop.induct)
  case (1 commit con m nx cnt ev bt)
  show ?case
  proof (cases "bt_get m nx")
    case None
    with 1(2) show ?thesis by (simp add: commit_loop.simps [of commit con])
  next
    case (Some c)
    obtain u con1 where u: "commit con (bc_offsets c) = (Ok u, con1)"
      using 1(2) Some by (cases "commit con (bc_offsets c)"; cases "fst (commit con (bc_offsets c))")
        (auto simp: commit_loop.simps [of commit con] Let_def)
    let ?cnt = "cnt\<lparr>commits := commits cnt + 1\<rparr>"
    obtain lg1 where l: "commit_loop commit con1 (bt_remove nx m) (nx + 1) ?cnt
        (ev + bc_events c) (bt + of_nat (bc_bytes c)) = (Ok (ev', bt'), con', m', nx', cnt', lg1)"
      "lg = c # lg1"
      using 1(2) Some u by (auto simp: commit_loop.simps [of commit con] Let_def split: prod.splits)
    have get: "bt_get (bt_remove nx m) = (bt_get m)(nx := None)" using bt_get_remove [OF 1(3)] .
    note IH = 1(1) [OF Some refl u [symmetric] refl l(1) bt_inv_remove [OF 1(3)]]
    have "bt_get m (nx + of_nat i) = Some (lg ! i)" if "i < length lg" for i
    proof (cases i)
      case (Suc j)
      with IH that l(2) have "bt_get (bt_remove nx m) (nx + 1 + of_nat j) = Some (lg1 ! j)" by auto
      with get Suc l(2) show ?thesis by (auto simp: add.assoc split: if_splits)
    qed (use Some l(2) in simp)
    with IH l(2) mset_bt_remove [OF Some] show ?thesis by (auto simp: algebra_simps)
  qed
qed

text \<open>
  A list of completions numbered from 0 without overflow. Whatever waits is numbered from the
  next commit on, so the completion found under the next number is the next of the list.
\<close>

definition numbered :: "'l batch_completion list \<Rightarrow> bool" where
  "numbered iss \<longleftrightarrow> length iss < 2 ^ 64 \<and> (\<forall>i < length iss. bc_sequence (iss ! i) = of_nat i)"

lemma numbered_inj:
  assumes "numbered iss" "i < length iss" "j < length iss" "bc_sequence (iss ! i) = bc_sequence (iss ! j)"
  shows "i = j"
  using assms of_nat_u64_inj [of i j] by (simp add: numbered_def)

lemma numbered_distinct: "numbered iss \<Longrightarrow> distinct iss"
  unfolding distinct_conv_nth using numbered_inj by metis

lemma numbered_next:
  assumes iss: "numbered iss" and m: "keyed m" "mset (map snd m) \<subseteq># mset (drop n iss)"
    and get: "bt_get m (of_nat n) = Some c" and n: "n \<le> length iss"
  shows "n < length iss" and "iss ! n = c"
proof -
  have mem: "(of_nat n, c) \<in> set m" using get by (simp add: bt_get_def map_of_SomeD)
  then have "bc_sequence c = of_nat n" using m(1) by (auto simp: keyed_def)
  moreover have "c \<in># mset (map snd m)" using mem by force
  then have "c \<in> set (drop n iss)" using m(2) by (metis mset_subset_eqD set_mset_mset)
  then obtain j where j: "n \<le> j" "j < length iss" "iss ! j = c"
    by (auto simp: in_set_conv_nth) (metis add.commute le_add1 less_diff_conv)
  ultimately have "(of_nat j :: u64) = of_nat n" using iss unfolding numbered_def by metis
  then have "j = n" using of_nat_u64_inj [of j n] j iss by (auto simp: numbered_def)
  with j show "n < length iss" "iss ! n = c" by auto
qed

lemma subset_drop_Suc:
  assumes "add_mset (xs ! n) M \<subseteq># mset (drop n xs)" "n < length xs"
  shows "M \<subseteq># mset (drop (Suc n) xs)"
  using assms by (simp add: Cons_nth_drop_Suc [symmetric])

lemma commit_loop_in_order:
  assumes "commit_loop commit con m nx cnt ev bt = (r, con', m', nx', cnt', lg)"
    and "numbered iss" "keyed m" "nx = of_nat n" "n \<le> length iss"
    and "mset others + mset (map snd m) \<subseteq># mset (drop n iss)"
  shows "keyed m' \<and> nx' = of_nat (n + length lg) \<and> n + length lg \<le> length iss \<and>
    lg = take (length lg) (drop n iss) \<and> set lg \<union> snd ` set m' \<subseteq> snd ` set m \<and>
    mset others + mset (map snd m') \<subseteq># mset (drop (n + length lg) iss)"
  using assms
proof (induction commit con m nx cnt ev bt arbitrary: lg n rule: commit_loop.induct)
  case (1 commit con m nx cnt ev bt)
  show ?case
  proof (cases "bt_get m nx")
    case None
    with 1(2-) show ?thesis by (auto simp: commit_loop.simps [of commit con])
  next
    case (Some c)
    have sub: "mset (map snd m) \<subseteq># mset (drop n iss)"
      using 1(7) by (meson mset_subset_eq_add_right subset_mset.order_trans)
    note c = numbered_next [OF 1(3,4) sub Some [unfolded 1(5)] 1(6)]
    have rem: "mset others + mset (map snd (bt_remove nx m)) \<subseteq># mset (drop (Suc n) iss)"
      using 1(7) mset_bt_remove [OF Some] c by (intro subset_drop_Suc) simp_all
    have "(nx, c) \<in> set m" using Some by (simp add: bt_get_def map_of_SomeD)
    then have vals: "c \<in> snd ` set m" "snd ` set (bt_remove nx m) \<subseteq> snd ` set m"
      using set_bt_remove [of nx m] by force+
    show ?thesis
    proof (cases "commit con (bc_offsets c)")
      case (Pair u con1)
      show ?thesis
      proof (cases u)
        case (Err e)
        with 1(2) Some Pair have "lg = []" "m' = bt_remove nx m" "nx' = nx"
          by (auto simp: commit_loop.simps [of commit con] Let_def)
        moreover have "mset others + mset (map snd (bt_remove nx m)) \<subseteq># mset (drop n iss)"
          using 1(7) mset_bt_remove [OF Some] by (metis mset_subset_eq_insertD subset_mset.less_imp_le union_mset_add_mset_right)
        ultimately show ?thesis using 1(4,5,6) vals keyed_remove by auto
      next
        case (Ok v)
        obtain lg1 where l: "commit_loop commit con1 (bt_remove nx m) (nx + 1)
            (cnt\<lparr>commits := commits cnt + 1\<rparr>) (ev + bc_events c) (bt + of_nat (bc_bytes c)) =
            (r, con', m', nx', cnt', lg1)" "lg = c # lg1"
          using 1(2) Some Pair Ok by (auto simp: commit_loop.simps [of commit con] Let_def split: prod.splits)
        have "nx + 1 = of_nat (Suc n)" using 1(5) by simp
        from 1(1) [OF Some refl Pair [unfolded Ok, symmetric] refl l(1) 1(3) keyed_remove [OF 1(4)] this _ rem]
        have IH: "keyed m' \<and> nx' = of_nat (Suc n + length lg1) \<and> Suc n + length lg1 \<le> length iss \<and>
          lg1 = take (length lg1) (drop (Suc n) iss) \<and> set lg1 \<union> snd ` set m' \<subseteq> snd ` set (bt_remove nx m) \<and>
          mset others + mset (map snd m') \<subseteq># mset (drop (Suc n + length lg1) iss)" using c by simp
        then have "set lg1 \<union> snd ` set m' \<subseteq> snd ` set (bt_remove nx m)" by (elim conjE)
        then have "set lg1 \<union> snd ` set m' \<subseteq> snd ` set m" using vals(2) by (rule order_trans)
        then have "set lg \<union> snd ` set m' \<subseteq> snd ` set m" using l(2) vals(1) by simp
        moreover have "take (length lg) (drop n iss) = c # take (length lg1) (drop (Suc n) iss)"
          using c l(2) by (metis Cons_nth_drop_Suc length_Cons take_Suc_Cons)
        ultimately show ?thesis using IH l(2) by simp
      qed
    qed
  qed
qed

section \<open>Invariants of the source\<close>

fun oks :: "('a, 'e) result list \<Rightarrow> 'a list" where
  "oks [] = []"
| "oks (Ok a # rs) = a # oks rs"
| "oks (Err e # rs) = oks rs"

lemma oks_append [simp]: "oks (xs @ ys) = oks xs @ oks ys"
  by (induction xs rule: oks.induct) auto

lemma mset_oks_remove:
  assumes "k < length rs"
  shows "mset (oks rs) = mset (oks [rs ! k]) + mset (oks (remove_nth k rs))"
  by (subst id_take_nth_drop [OF assms]) (cases "rs ! k"; simp add: remove_nth_def)

lemma mset_remove_nth: "i < length xs \<Longrightarrow> mset xs = add_mset (xs ! i) (mset (remove_nth i xs))"
  by (subst id_take_nth_drop [of i xs]) (simp_all add: remove_nth_def)

text \<open>The completion the \<open>n\<close>-th dispatched batch produces when all its sinks accept it.\<close>

definition completion_of :: "('l, 'x, 'm, 'c) source_env \<Rightarrow> nat \<Rightarrow> event list \<Rightarrow> 'l batch_completion" where
  "completion_of E n es = \<lparr>bc_sequence = of_nat n,
     bc_offsets = (case offsets_for (se_tpl E) es of Ok l \<Rightarrow> l | Err _ \<Rightarrow> tpl_new (se_tpl E)),
     bc_events = of_nat (length es), bc_bytes = batch_bytes (EventBatch_new (se_size_of E) es)\<rparr>"

definition issued :: "('l, 'x, 'm, 'c) source_env \<Rightarrow> event list list \<Rightarrow> 'l batch_completion list" where
  "issued E bs = map (\<lambda>i. completion_of E i (bs ! i)) [0..<length bs]"

lemma length_issued [simp]: "length (issued E bs) = length bs"
  by (simp add: issued_def)

lemma issued_snoc: "issued E (bs @ [b]) = issued E bs @ [completion_of E (length bs) b]"
  by (simp add: issued_def nth_append)

lemma issued_nth: "i < length bs \<Longrightarrow> issued E bs ! i = completion_of E i (bs ! i)"
  by (simp add: issued_def)

lemma numbered_issued: "length bs < 2 ^ 64 \<Longrightarrow> numbered (issued E bs)"
  by (simp add: numbered_def issued_nth) (simp add: completion_of_def)

definition live :: "('l, 'x, 'm, 'c) source_task \<Rightarrow> 'l batch_completion multiset" where
  "live s = mset (sending s) + mset (oks (joinable s)) + mset (map snd (completed s))"

text \<open>
  Commits are in dispatch order: what was committed is a prefix of what was dispatched, what is
  alive is a sub-multiset of the rest, and everything past the send was acknowledged.
\<close>

definition in_order :: "('l, 'x, 'm, 'c) source_env \<Rightarrow> ('l, 'x, 'm, 'c) source_task \<Rightarrow> bool" where
  "in_order E s \<longleftrightarrow>
     sequence s = of_nat (length (batches s)) \<and>
     next_commit_sequence s = of_nat (length (commit_log s)) \<and>
     length (commit_log s) \<le> length (batches s) \<and>
     commit_log s = take (length (commit_log s)) (issued E (batches s)) \<and>
     live s \<subseteq># mset (drop (length (commit_log s)) (issued E (batches s))) \<and>
     keyed (completed s) \<and>
     set (oks (joinable s)) \<union> snd ` set (completed s) \<union> set (commit_log s) \<subseteq> set (acked s)"

definition ordered :: "('l, 'x, 'm, 'c) source_env \<Rightarrow> ('l, 'x, 'm, 'c) source_task \<Rightarrow> bool" where
  "ordered E s \<longleftrightarrow> (length (batches s) < 2 ^ 64 \<longrightarrow> in_order E s)"

lemma dispatch_cases:
  obtains (err) e where "offsets_for (se_tpl E) (pending s) = Err e"
    "dispatch E s = s\<lparr>pending := [], src_result := Some (Err e)\<rparr>"
  | (ok) m where "is_ok (offsets_for (se_tpl E) (pending s))"
    "dispatch E s = s\<lparr>pending := [],
       src_in_flight_bytes := saturating_add (src_in_flight_bytes s)
         (batch_bytes (EventBatch_new (se_size_of E) (pending s))),
       src_counters := m, sequence := sequence s + 1,
       sending := sending s @ [completion_of E 0 (pending s)\<lparr>bc_sequence := sequence s\<rparr>],
       batches := batches s @ [pending s]\<rparr>"
proof (cases "offsets_for (se_tpl E) (pending s)")
  case (Ok l)
  let ?b = "batch_bytes (EventBatch_new (se_size_of E) (pending s))"
  have "dispatch E s = s\<lparr>pending := [],
       src_in_flight_bytes := saturating_add (src_in_flight_bytes s) ?b,
       src_counters := (src_counters s)\<lparr>batches_in := batches_in (src_counters s) + 1,
                 in_flight_bytes := of_nat (saturating_add (src_in_flight_bytes s) ?b),
                 in_flight_batches := of_nat (in_flight_len s) + 1\<rparr>, sequence := sequence s + 1,
       sending := sending s @ [completion_of E 0 (pending s)\<lparr>bc_sequence := sequence s\<rparr>],
       batches := batches s @ [pending s]\<rparr>"
    by (simp add: dispatch_def Let_def completion_of_def Ok)
  with Ok show ?thesis by (intro ok) simp_all
next
  case (Err e)
  then show ?thesis by (intro err [of e]) (simp_all add: dispatch_def)
qed

lemma dispatch_ordered:
  assumes "ordered E s"
  shows "ordered E (dispatch E s)"
proof (cases rule: dispatch_cases [of E s])
  case err
  with assms show ?thesis by (simp add: ordered_def in_order_def live_def)
next
  case (ok m)
  have c: "completion_of E (length (batches s)) b = completion_of E 0 b\<lparr>bc_sequence := of_nat (length (batches s))\<rparr>" for b
    by (simp add: completion_of_def)
  show ?thesis unfolding ordered_def
  proof
    assume "length (batches (dispatch E s)) < 2 ^ 64"
    then have "in_order E s" using assms ok by (simp add: ordered_def)
    then show "in_order E (dispatch E s)"
      using ok(2) by (simp add: in_order_def live_def issued_snoc c drop_append algebra_simps)
  qed
qed

lemma on_completion_fields:
  assumes "commit_contiguous (se_commit E) (src_consumer s) (completed s) (next_commit_sequence s) c
      ((src_counters s)\<lparr>in_flight_bytes := of_nat (src_in_flight_bytes s - bc_bytes c),
         in_flight_batches := of_nat (in_flight_len s)\<rparr>) = (r, con, m', nx, cnt, lg)"
  shows "batches (on_completion E now c s) = batches s" "sequence (on_completion E now c s) = sequence s"
    "sending (on_completion E now c s) = sending s" "joinable (on_completion E now c s) = joinable s"
    "acked (on_completion E now c s) = acked s" "pending (on_completion E now c s) = pending s"
    "consumed (on_completion E now c s) = consumed s" "src_decoder (on_completion E now c s) = src_decoder s"
    "src_in_flight_bytes (on_completion E now c s) = src_in_flight_bytes s - bc_bytes c"
    "completed (on_completion E now c s) = m'" "next_commit_sequence (on_completion E now c s) = nx"
    "commit_log (on_completion E now c s) = commit_log s @ lg"
    "src_result s = None \<Longrightarrow> src_result (on_completion E now c s) = None \<longleftrightarrow> is_ok r"
  using assms by (auto simp: on_completion_def Let_def split: result.splits prod.splits)

lemma fresh_key:
  assumes iss: "numbered iss" and m: "keyed m" "add_mset c (mset (map snd m)) \<subseteq># mset (drop n iss)"
  shows "bc_sequence c \<notin> fst ` set m"
proof
  assume "bc_sequence c \<in> fst ` set m"
  then obtain c' where c': "(bc_sequence c, c') \<in> set m" by force
  then have seq: "bc_sequence c' = bc_sequence c" and "c' \<in># mset (map snd m)"
    using m(1) by (force simp: keyed_def)+
  have "set_mset (add_mset c (mset (map snd m))) \<subseteq> set (drop n iss)"
    using set_mset_mono [OF m(2)] by simp
  then have "c \<in> set iss" "c' \<in> set iss"
    using \<open>c' \<in># mset (map snd m)\<close> by (auto dest: in_set_dropD)
  then obtain i j where ij: "i < length iss" "iss ! i = c" "j < length iss" "iss ! j = c'"
    by (auto simp: in_set_conv_nth)
  then have "i = j" using numbered_inj [OF iss] seq by simp
  with ij have "c' = c" by simp
  with \<open>c' \<in># mset (map snd m)\<close> have "2 \<le> count (add_mset c (mset (map snd m))) c"
    by (simp add: Suc_le_eq)
  also have "\<dots> \<le> count (mset (drop n iss)) c" using m(2) by (rule mset_subset_eq_count)
  finally show False
    using numbered_distinct [OF iss] distinct_count_atmost_1 [of "drop n iss"] by (auto split: if_splits)
qed

lemma on_joined_ordered:
  assumes "in_order E s" "k < length (joinable s)" "length (batches s) < 2 ^ 64"
  shows "in_order E (on_joined E now k s)"
proof (cases "joinable s ! k")
  case (Err e)
  with assms(1) mset_oks_remove [OF assms(2)] show ?thesis
    by (auto simp: on_joined_def in_order_def live_def dest: mset_eq_setD)
next
  case (Ok c)
  let ?s = "s\<lparr>joinable := remove_nth k (joinable s)\<rparr>"
  let ?n = "length (commit_log s)" and ?iss = "issued E (batches s)"
  let ?others = "sending s @ oks (remove_nth k (joinable s))"
  have iss: "numbered ?iss" using assms(3) by (rule numbered_issued)
  have oks: "mset (oks (joinable s)) = add_mset c (mset (oks (remove_nth k (joinable s))))"
    using mset_oks_remove [OF assms(2)] Ok by simp
  obtain r con m' nx cnt lg where cc: "commit_contiguous (se_commit E) (src_consumer ?s) (completed ?s)
      (next_commit_sequence ?s) c ((src_counters ?s)\<lparr>in_flight_bytes := of_nat (src_in_flight_bytes ?s - bc_bytes c),
         in_flight_batches := of_nat (in_flight_len ?s)\<rparr>) = (r, con, m', nx, cnt, lg)"
    by (metis prod.exhaust)
  have sub: "mset ?others + add_mset c (mset (map snd (completed s))) \<subseteq># mset (drop ?n ?iss)"
    using assms(1) oks by (simp add: in_order_def live_def)
  then have "add_mset c (mset (map snd (completed s))) \<subseteq># mset (drop ?n ?iss)"
    by (meson mset_subset_eq_add_right subset_mset.order_trans)
  from fresh_key [OF iss _ this] assms(1) have fresh: "bc_sequence c \<notin> fst ` set (completed s)"
    by (simp add: in_order_def)
  have loop: "commit_loop (se_commit E) (src_consumer ?s) (bt_insert (bc_sequence c) c (completed s))
      (next_commit_sequence s) ((src_counters ?s)\<lparr>in_flight_bytes := of_nat (src_in_flight_bytes ?s - bc_bytes c),
         in_flight_batches := of_nat (in_flight_len ?s)\<rparr>) 0 0 = (r, con, m', nx, cnt, lg)"
    using cc by (simp add: commit_contiguous_def)
  have new: "keyed m' \<and> nx = of_nat (?n + length lg) \<and> ?n + length lg \<le> length ?iss \<and>
    lg = take (length lg) (drop ?n ?iss) \<and>
    set lg \<union> snd ` set m' \<subseteq> snd ` set (bt_insert (bc_sequence c) c (completed s)) \<and>
    mset ?others + mset (map snd m') \<subseteq># mset (drop (?n + length lg) ?iss)"
    using assms(1) sub mset_bt_insert [OF fresh, of c]
    by (intro commit_loop_in_order [OF loop iss]) (simp_all add: in_order_def keyed_insert)
  have "set (oks (remove_nth k (joinable s))) \<subseteq> set (acked s)" "c \<in> set (acked s)"
    "snd ` set (completed s) \<subseteq> set (acked s)" "set (commit_log s) \<subseteq> set (acked s)"
    using assms(1) mset_eq_setD [OF oks [folded mset.simps(2)]] by (auto simp: in_order_def)
  moreover from this set_bt_insert [of "bc_sequence c" c "completed s"]
  have "snd ` set (bt_insert (bc_sequence c) c (completed s)) \<subseteq> set (acked s)" by force
  with new have "set lg \<union> snd ` set m' \<subseteq> set (acked s)" by (elim conjE) (rule order_trans)
  ultimately have acks: "set (oks (remove_nth k (joinable s))) \<union> snd ` set m' \<union> set (commit_log s @ lg) \<subseteq> set (acked s)"
    by simp
  have take: "commit_log s @ lg = take (length (commit_log s @ lg)) ?iss"
    using assms(1) new by (simp add: in_order_def take_add)
  have acks': "set (take (length (commit_log s) + length lg) ?iss) \<subseteq> set (acked s)"
    using acks take by (metis le_sup_iff length_append)
  have "on_joined E now k s = on_completion E now c ?s" by (simp add: on_joined_def Ok)
  note fields = this on_completion_fields [OF cc, of now]
  show ?thesis
    unfolding in_order_def live_def fields
    using assms(1) new acks acks' take by (simp add: in_order_def add.assoc)
qed

lemma on_joined_batches [simp]: "batches (on_joined E now k s) = batches s"
  by (auto simp: on_joined_def on_completion_def Let_def split: result.splits prod.splits)

lemma on_recv_ordered:
  assumes "ordered E s"
  shows "ordered E (on_recv E r s)"
proof (cases r)
  case (Ok m)
  obtain e d where d: "to_event (se_bytes E) (se_id E) (src_decoder s) m = (e, d)" by fastforce
  let ?s = "s\<lparr>src_deadline := (if pending s = [] then False else src_deadline s),
    pending := pending s @ [e], src_decoder := d, consumed := consumed s @ [m]\<rparr>"
  have "ordered E ?s" using assms by (simp add: ordered_def in_order_def live_def)
  from dispatch_ordered [OF this] this d Ok show ?thesis
    by (simp add: on_recv_def on_message_def Let_def)
qed (use assms in \<open>simp add: on_recv_def ordered_def in_order_def live_def\<close>)

lemma send_done_ordered:
  assumes "in_order E s" "i < length (sending s)"
  shows "in_order E (s\<lparr>sending := remove_nth i (sending s),
      joinable := joinable s @ [bind_result r (\<lambda>_. Ok (sending s ! i))],
      acked := acked s @ (if is_ok r then [sending s ! i] else [])\<rparr>)"
proof -
  have "mset (sending s) = add_mset (sending s ! i) (mset (remove_nth i (sending s)))"
    using mset_remove_nth [OF assms(2)] .
  then have live: "add_mset (sending s ! i) (mset (remove_nth i (sending s)) + mset (oks (joinable s)) +
      mset (map snd (completed s))) \<subseteq># mset (drop (length (commit_log s)) (issued E (batches s)))"
    using assms(1) by (simp add: in_order_def live_def)
  from mset_subset_eq_insertD [OF this] live show ?thesis using assms(1)
    by (cases r) (auto simp: in_order_def live_def subset_mset.less_imp_le)
qed

lemma source_poll_cases:
  assumes "source_step E s (SrcPoll k now) = Some t"
  obtains (cancel) "t = s\<lparr>src_result := Some (Ok ())\<rparr>" "src_cancelled s"
  | (joined) "k < length (joinable s)" "t = on_joined E now k s"
  | (linger) "admits_batch E s" "pending s \<noteq> []" "t = dispatch E s"
  | (recv) r rest where "arrivals s = r # rest" "admits_batch E s"
      "length (pending s) < ks_batch_size (se_config E)" "t = on_recv E r (s\<lparr>arrivals := rest\<rparr>)"
  using assms by (simp add: source_step_def split: if_split_asm list.split_asm)

lemma ordered_frame [simp]:
  "ordered E (s\<lparr>src_counters := cnt\<rparr>) = ordered E s"
  "ordered E (s\<lparr>src_cancelled := x\<rparr>) = ordered E s" "ordered E (s\<lparr>src_deadline := x\<rparr>) = ordered E s"
  "ordered E (s\<lparr>arrivals := rs\<rparr>) = ordered E s" "ordered E (s\<lparr>src_result := r\<rparr>) = ordered E s"
  by (simp_all add: ordered_def in_order_def live_def)

lemma ordered_step:
  assumes "ordered E s" "source_step E s ev = Some t"
  shows "ordered E t"
proof (cases ev)
  case (SendDone i r)
  with assms send_done_ordered [of E s i r] show ?thesis
    by (auto simp: source_step_def ordered_def split: if_splits)
next
  case (SrcPoll k now)
  from assms(2) [unfolded SrcPoll] show ?thesis
  proof (cases rule: source_poll_cases)
    case cancel
    with assms(1) show ?thesis by simp
  next
    case joined
    with assms(1) on_joined_ordered [OF _ joined(1)] show ?thesis by (simp add: ordered_def)
  next
    case linger
    with assms(1) dispatch_ordered show ?thesis by simp
  next
    case (recv r rest)
    have "ordered E (s\<lparr>arrivals := rest\<rparr>)" using assms(1) by simp
    from on_recv_ordered [OF this] recv(4) show ?thesis by simp
  qed
qed (use assms in \<open>auto simp: source_step_def split: if_splits\<close>)

lemma source_start_ordered: "ordered E (source_start E now con m)"
  by (simp add: ordered_def in_order_def live_def source_start_def keyed_def bt_inv_def)

text \<open>
  The event stream: the events of the messages consumed, in order, are cut into batches and
  the pending batch; each batch is non-empty, at most \<open>batch_size\<close> long and has offsets.
\<close>

definition stream :: "('l, 'x, 'm, 'c) source_env \<Rightarrow> ('l, 'x, 'm, 'c) source_task \<Rightarrow> bool" where
  "stream E s \<longleftrightarrow>
     decoder_ok (se_bytes E) (src_decoder s) \<and>
     (\<exists>rest. map (event_of (se_id E)) (consumed s) = concat (batches s) @ pending s @ rest \<and>
        (src_result s = None \<longrightarrow> rest = [])) \<and>
     (src_result s = None \<longrightarrow> length (pending s) < ks_batch_size (se_config E)) \<and>
     (\<forall>b \<in> set (batches s). b \<noteq> [] \<and> length b \<le> ks_batch_size (se_config E) \<and>
        is_ok (offsets_for (se_tpl E) b))"

lemma dispatch_stream:
  assumes "decoder_ok (se_bytes E) (src_decoder s)" "src_result s = None"
    "map (event_of (se_id E)) (consumed s) = concat (batches s) @ pending s"
    "pending s \<noteq> []" "length (pending s) \<le> ks_batch_size (se_config E)"
    "\<forall>b \<in> set (batches s). b \<noteq> [] \<and> length b \<le> ks_batch_size (se_config E) \<and> is_ok (offsets_for (se_tpl E) b)"
  shows "stream E (dispatch E s)"
proof (cases rule: dispatch_cases [of E s])
  case (err e)
  with assms show ?thesis by (simp add: stream_def)
next
  case (ok m)
  have "0 < ks_batch_size (se_config E)" using assms(4,5) by (cases "pending s") auto
  with ok assms show ?thesis by (auto simp: stream_def)
qed

lemma on_joined_stream: "stream E s \<Longrightarrow> src_result s = None \<Longrightarrow> stream E (on_joined E now k s)"
  by (auto simp: on_joined_def on_completion_def Let_def stream_def split: result.splits prod.splits)

lemma stream_frame [simp]:
  "stream E (s\<lparr>src_counters := cnt\<rparr>) = stream E s"
  "stream E (s\<lparr>src_cancelled := x\<rparr>) = stream E s" "stream E (s\<lparr>src_deadline := x\<rparr>) = stream E s"
  "stream E (s\<lparr>arrivals := rs\<rparr>) = stream E s"
  "stream E (s\<lparr>sending := cs, joinable := js, acked := as\<rparr>) = stream E s"
  "stream E (s\<lparr>sending := cs, joinable := js\<rparr>) = stream E s"
  by (simp_all add: stream_def)

lemma stream_stopped: "stream E s \<Longrightarrow> src_result s = None \<Longrightarrow> stream E (s\<lparr>src_result := Some r\<rparr>)"
  by (auto simp: stream_def)

lemma stream_step:
  assumes laws: "bytes_mut_laws (se_bytes E)" and inv: "stream E s" and step: "source_step E s ev = Some t"
  shows "stream E t"
proof (cases ev)
  case (SrcPoll k now)
  have run: "src_result s = None" using step by (simp add: source_step_def split: if_splits)
  from inv run have st: "decoder_ok (se_bytes E) (src_decoder s)"
    "map (event_of (se_id E)) (consumed s) = concat (batches s) @ pending s"
    "length (pending s) < ks_batch_size (se_config E)"
    "\<forall>b \<in> set (batches s). b \<noteq> [] \<and> length b \<le> ks_batch_size (se_config E) \<and> is_ok (offsets_for (se_tpl E) b)"
    by (auto simp: stream_def)
  from step [unfolded SrcPoll] show ?thesis
  proof (cases rule: source_poll_cases)
    case linger
    with st run show ?thesis by (auto intro: dispatch_stream)
  next
    case (recv r rest)
    show ?thesis
    proof (cases r)
      case (Ok m)
      obtain e d where d: "to_event (se_bytes E) (se_id E) (src_decoder s) m = (e, d)" by fastforce
      note e = to_event_correct [OF laws st(1) d]
      let ?s = "s\<lparr>arrivals := rest, src_deadline := (if pending s = [] then False else src_deadline s),
        pending := pending s @ [e], src_decoder := d, consumed := consumed s @ [m]\<rparr>"
      have t: "t = (if ks_batch_size (se_config E) \<le> length (pending ?s) then dispatch E ?s else ?s)"
        using recv(4) Ok d by (simp add: on_recv_def on_message_def Let_def)
      show ?thesis
      proof (cases "ks_batch_size (se_config E) \<le> length (pending ?s)")
        case True
        have "stream E (dispatch E ?s)" using st e run by (intro dispatch_stream) auto
        with t True show ?thesis by simp
      next
        case False
        have "stream E ?s" using st e run False by (auto simp: stream_def)
        with t False show ?thesis by simp
      qed
    next
      case (Err e)
      have "stream E (s\<lparr>arrivals := rest\<rparr>)" using inv by simp
      from stream_stopped [OF this] run recv(4) Err show ?thesis by (simp add: on_recv_def)
    qed
  next
    case joined
    with on_joined_stream [OF inv run] show ?thesis by simp
  next
    case cancel
    with stream_stopped [OF inv run] show ?thesis by simp
  qed
qed (use inv step in \<open>auto simp: source_step_def split: if_splits\<close>)

lemma source_start_stream:
  assumes "bytes_mut_laws (se_bytes E)" "0 < ks_batch_size (se_config E)"
  shows "stream E (source_start E now con m)"
  using assms by (simp add: stream_def source_start_def decoder_start_ok)

text \<open>
  The in-flight window: at most \<open>max_in_flight_batches\<close> sends, and the byte budget counts
  every outstanding batch as long as the counter does not saturate.
\<close>

definition outstanding :: "('l, 'x, 'm, 'c) source_task \<Rightarrow> usize" where
  "outstanding s = sum_list (map bc_bytes (sending s)) + sum_list (map bc_bytes (oks (joinable s)))"

definition batches_within :: "('l, 'x, 'm, 'c) source_env \<Rightarrow> usize \<Rightarrow> ('l, 'x, 'm, 'c) source_task \<Rightarrow> bool" where
  "batches_within E B s \<longleftrightarrow>
     (\<forall>b \<in> set (batches s). batch_bytes (EventBatch_new (se_size_of E) b) \<le> B)"

definition window ::
  "('l, 'x, 'm, 'c) source_env \<Rightarrow> usize \<Rightarrow> ('l, 'x, 'm, 'c) source_task \<Rightarrow> bool" where
  "window E B s \<longleftrightarrow>
     in_flight_len s \<le> ks_max_in_flight_batches (se_config E) \<and>
     (batches_within E B s \<longrightarrow> outstanding s \<le> src_in_flight_bytes s \<and>
        src_in_flight_bytes s < ks_max_in_flight_bytes (se_config E) + B)"

lemma sum_remove_nth:
  "i < length xs \<Longrightarrow> sum_list (map f xs) = f (xs ! i) + sum_list (map f (remove_nth i xs))"
  for f :: "_ \<Rightarrow> nat"
  by (subst id_take_nth_drop [of i xs]) (simp_all add: remove_nth_def)

lemma sum_oks_remove:
  assumes "k < length rs"
  shows "sum_list (map f (oks rs)) = sum_list (map f (oks [rs ! k])) + sum_list (map (f :: _ \<Rightarrow> nat) (oks (remove_nth k rs)))"
  by (subst id_take_nth_drop [OF assms]) (cases "rs ! k"; simp add: remove_nth_def)

lemma dispatch_window:
  assumes fits: "ks_max_in_flight_bytes (se_config E) + B \<le> usize_MAX"
    and w: "window E B s" and a: "admits_batch E s"
  shows "window E B (dispatch E s)"
proof (cases rule: dispatch_cases [of E s])
  case (err e)
  with w show ?thesis by (simp add: window_def in_flight_len_def outstanding_def batches_within_def)
next
  case (ok m)
  let ?b = "batch_bytes (EventBatch_new (se_size_of E) (pending s))"
  have "saturating_add (src_in_flight_bytes s) ?b = src_in_flight_bytes s + ?b" if "?b \<le> B"
    using that a fits by (intro saturating_add_exact) (simp add: admits_batch_def)
  with ok a w show ?thesis
    by (auto simp: window_def in_flight_len_def outstanding_def batches_within_def admits_batch_def completion_of_def)
qed

lemma on_joined_window:
  assumes w: "window E B s" and k: "k < length (joinable s)"
  shows "window E B (on_joined E now k s)"
proof (cases "joinable s ! k")
  case (Err e)
  with w k sum_oks_remove [OF k, of bc_bytes] show ?thesis
    by (auto simp: on_joined_def window_def in_flight_len_def outstanding_def batches_within_def)
next
  case (Ok c)
  let ?s = "s\<lparr>joinable := remove_nth k (joinable s)\<rparr>"
  obtain r con m' nx cnt lg where cc: "commit_contiguous (se_commit E) (src_consumer ?s) (completed ?s)
      (next_commit_sequence ?s) c ((src_counters ?s)\<lparr>in_flight_bytes := of_nat (src_in_flight_bytes ?s - bc_bytes c),
         in_flight_batches := of_nat (in_flight_len ?s)\<rparr>) = (r, con, m', nx, cnt, lg)"
    by (metis prod.exhaust)
  have "on_joined E now k s = on_completion E now c ?s" by (simp add: on_joined_def Ok)
  with w k Ok sum_oks_remove [OF k, of bc_bytes] on_completion_fields [OF cc, of now] show ?thesis
    by (auto simp: window_def in_flight_len_def outstanding_def batches_within_def)
qed

lemma window_frame [simp]:
  "window E B (s\<lparr>src_counters := cnt\<rparr>) = window E B s"
  "window E B (s\<lparr>src_cancelled := x\<rparr>) = window E B s" "window E B (s\<lparr>src_deadline := x\<rparr>) = window E B s"
  "window E B (s\<lparr>arrivals := rs\<rparr>) = window E B s" "window E B (s\<lparr>src_result := r\<rparr>) = window E B s"
  by (simp_all add: window_def in_flight_len_def outstanding_def batches_within_def)

lemma on_recv_window:
  assumes fits: "ks_max_in_flight_bytes (se_config E) + B \<le> usize_MAX"
    and w: "window E B s" and a: "admits_batch E s"
  shows "window E B (on_recv E r s)"
proof (cases r)
  case (Ok m)
  obtain e d where d: "to_event (se_bytes E) (se_id E) (src_decoder s) m = (e, d)" by fastforce
  let ?s = "s\<lparr>src_deadline := (if pending s = [] then False else src_deadline s),
    pending := pending s @ [e], src_decoder := d, consumed := consumed s @ [m]\<rparr>"
  have "window E B ?s" "admits_batch E ?s"
    using w a by (simp_all add: window_def in_flight_len_def outstanding_def batches_within_def admits_batch_def)
  from dispatch_window [OF fits this] this d Ok show ?thesis
    by (simp add: on_recv_def on_message_def Let_def)
qed (use w in \<open>simp add: on_recv_def\<close>)

lemma window_step:
  assumes fits: "ks_max_in_flight_bytes (se_config E) + B \<le> usize_MAX"
    and w: "window E B s" and step: "source_step E s ev = Some t"
  shows "window E B t"
proof (cases ev)
  case (SendDone i r)
  then have i: "i < length (sending s)" using step by (simp add: source_step_def split: if_splits)
  with SendDone step w sum_remove_nth [OF i, of bc_bytes] show ?thesis
    by (cases r) (auto simp: source_step_def window_def in_flight_len_def outstanding_def batches_within_def
      split: if_splits)
next
  case (SrcPoll k now)
  from step [unfolded SrcPoll] show ?thesis
  proof (cases rule: source_poll_cases)
    case (recv r rest)
    have "window E B (s\<lparr>arrivals := rest\<rparr>)" "admits_batch E (s\<lparr>arrivals := rest\<rparr>)"
      using w recv(2) by (simp_all add: admits_batch_def in_flight_len_def)
    from on_recv_window [OF fits this] recv(4) show ?thesis by simp
  qed (use w on_joined_window dispatch_window [OF fits] in auto)
qed (use w step in \<open>auto simp: source_step_def split: if_splits\<close>)

text \<open>
  The counters: one commit per entry of the commit log, and the events and bytes of those entries,
  or of the first of them when a later commit of the same run failed.
\<close>

definition commit_failed :: "('l, 'x, 'm, 'c) source_task \<Rightarrow> bool" where
  "commit_failed s \<longleftrightarrow> (\<exists>x. src_result s = Some (Err (Context ''cannot commit Kafka batch'' (Foreign x))))"

definition metered :: "source_metrics \<Rightarrow> ('l, 'x, 'm, 'c) source_task \<Rightarrow> bool" where
  "metered m0 s \<longleftrightarrow>
     batches_in (src_counters s) = batches_in m0 + of_nat (length (batches s)) \<and>
     commits (src_counters s) = commits m0 + of_nat (length (commit_log s)) \<and>
     (\<exists>k \<le> length (commit_log s). (k = length (commit_log s) \<or> commit_failed s) \<and>
        events_in (src_counters s) = events_in m0 + sum_list (map bc_events (take k (commit_log s))) \<and>
        bytes_in (src_counters s) = bytes_in m0 + of_nat (sum_list (map bc_bytes (take k (commit_log s)))) \<and>
        processed s = sum_list (map bc_events (take k (commit_log s))))"

lemma metered_running:
  "src_result s = None \<Longrightarrow> metered m0 s \<longleftrightarrow>
     batches_in (src_counters s) = batches_in m0 + of_nat (length (batches s)) \<and>
     commits (src_counters s) = commits m0 + of_nat (length (commit_log s)) \<and>
     events_in (src_counters s) = events_in m0 + sum_list (map bc_events (commit_log s)) \<and>
     bytes_in (src_counters s) = bytes_in m0 + of_nat (sum_list (map bc_bytes (commit_log s))) \<and>
     processed s = sum_list (map bc_events (commit_log s))"
  by (auto simp: metered_def commit_failed_def)

lemma commit_loop_counts:
  assumes "commit_loop commit con m nx cnt ev bt = (r, con', m', nx', cnt', lg)"
  shows "cnt' = cnt\<lparr>commits := commits cnt + of_nat (length lg)\<rparr> \<and>
    (\<forall>n b. r = Ok (n, b) \<longrightarrow> n = ev + sum_list (map bc_events lg) \<and> b = bt + of_nat (sum_list (map bc_bytes lg))) \<and>
    (\<forall>e. r = Err e \<longrightarrow> (\<exists>x. e = Context ''cannot commit Kafka batch'' (Foreign x)))"
  using assms
proof (induction commit con m nx cnt ev bt arbitrary: lg rule: commit_loop.induct)
  case (1 commit con m nx cnt ev bt)
  show ?case
  proof (cases "bt_get m nx")
    case None
    with 1(2) show ?thesis by (auto simp: commit_loop.simps [of commit con])
  next
    case (Some c)
    obtain u con1 where u: "commit con (bc_offsets c) = (u, con1)" by fastforce
    show ?thesis
    proof (cases u)
      case (Err e)
      with 1(2) Some u show ?thesis by (auto simp: commit_loop.simps [of commit con] Let_def)
    next
      case (Ok v)
      obtain lg1 where l: "commit_loop commit con1 (bt_remove nx m) (nx + 1)
          (cnt\<lparr>commits := commits cnt + 1\<rparr>) (ev + bc_events c) (bt + of_nat (bc_bytes c)) =
          (r, con', m', nx', cnt', lg1)" "lg = c # lg1"
        using 1(2) Some u Ok by (auto simp: commit_loop.simps [of commit con] Let_def split: prod.splits)
      from 1(1) [OF Some refl u [unfolded Ok, symmetric] refl l(1)] l(2) show ?thesis
        by (simp add: add.assoc)
    qed
  qed
qed

text \<open>The counters as they stand when an error other than a failed commit ends the run are exact.\<close>

lemma metered_exact:
  assumes "batches_in (src_counters s) = batches_in m0 + of_nat (length (batches s))"
    "commits (src_counters s) = commits m0 + of_nat (length (commit_log s))"
    "events_in (src_counters s) = events_in m0 + sum_list (map bc_events (commit_log s))"
    "bytes_in (src_counters s) = bytes_in m0 + of_nat (sum_list (map bc_bytes (commit_log s)))"
    "processed s = sum_list (map bc_events (commit_log s))"
  shows "metered m0 s"
  unfolding metered_def using assms by (intro conjI exI [of _ "length (commit_log s)"]) simp_all

lemma dispatch_metered:
  assumes "metered m0 s" "src_result s = None"
  shows "metered m0 (dispatch E s)"
  using assms by (intro metered_exact)
    (auto simp: metered_running dispatch_def Let_def split: result.splits)

lemma on_completion_metered:
  assumes "metered m0 s" "src_result s = None"
  shows "metered m0 (on_completion E now c s)"
proof -
  let ?m = "(src_counters s)\<lparr>in_flight_bytes := of_nat (src_in_flight_bytes s - bc_bytes c),
    in_flight_batches := of_nat (in_flight_len s)\<rparr>"
  obtain r con m' nx cnt lg where cc: "commit_contiguous (se_commit E) (src_consumer s) (completed s)
      (next_commit_sequence s) c ?m = (r, con, m', nx, cnt, lg)" by (metis prod.exhaust)
  note counts = commit_loop_counts [OF cc [unfolded commit_contiguous_def]]
  show ?thesis
  proof (cases r)
    case (Ok nb)
    with cc counts assms show ?thesis
      by (cases nb) (simp add: on_completion_def Let_def metered_running add.assoc)
  next
    case (Err e)
    from counts Err obtain x where "e = Context ''cannot commit Kafka batch'' (Foreign x)" by blast
    with Err cc counts assms show ?thesis
      unfolding metered_def commit_failed_def
      by (intro conjI exI [of _ "length (commit_log s)"])
        (simp_all add: on_completion_def Let_def metered_running add.assoc)
  qed
qed

lemma metered_frame [simp]:
  "metered m0 (s\<lparr>src_counters := post_rebalance a (src_counters s)\<rparr>) = metered m0 s"
  "metered m0 (s\<lparr>src_cancelled := x\<rparr>) = metered m0 s" "metered m0 (s\<lparr>src_deadline := x\<rparr>) = metered m0 s"
  "metered m0 (s\<lparr>arrivals := rs\<rparr>) = metered m0 s"
  "metered m0 (s\<lparr>sending := cs, joinable := js, acked := as\<rparr>) = metered m0 s"
  "metered m0 (s\<lparr>sending := cs, joinable := js\<rparr>) = metered m0 s"
  "metered m0 (s\<lparr>joinable := js\<rparr>) = metered m0 s" "metered m0 (s\<lparr>sending := cs\<rparr>) = metered m0 s"
  "metered m0 (s\<lparr>src_deadline := x, pending := ps, src_decoder := d, consumed := ms\<rparr>) = metered m0 s"
  by (simp_all add: metered_def commit_failed_def)

lemma metered_stopped: "metered m0 s \<Longrightarrow> src_result s = None \<Longrightarrow> metered m0 (s\<lparr>src_result := Some r\<rparr>)"
  by (intro metered_exact) (simp_all add: metered_running)

lemma on_recv_metered:
  assumes "metered m0 s" "src_result s = None"
  shows "metered m0 (on_recv E r s)"
proof (cases r)
  case (Ok m)
  obtain e d where d: "to_event (se_bytes E) (se_id E) (src_decoder s) m = (e, d)" by fastforce
  have "metered m0 (s\<lparr>src_deadline := (if pending s = [] then False else src_deadline s),
      pending := pending s @ [e], src_decoder := d, consumed := consumed s @ [m]\<rparr>)" using assms by simp
  from dispatch_metered [OF this, of E] this assms(2) d Ok show ?thesis
    by (simp add: on_recv_def on_message_def Let_def)
qed (use metered_stopped [OF assms] in \<open>simp add: on_recv_def\<close>)

lemma metered_step:
  assumes inv: "metered m0 s" and step: "source_step E s ev = Some t"
  shows "metered m0 t"
proof (cases ev)
  case (SrcPoll k now)
  have run: "src_result s = None" using step by (simp add: source_step_def split: if_splits)
  from step [unfolded SrcPoll] show ?thesis
  proof (cases rule: source_poll_cases)
    case joined
    have "metered m0 (s\<lparr>joinable := remove_nth k (joinable s)\<rparr>)" using inv by simp
    from on_completion_metered [OF this, of E now] metered_stopped [OF this] run joined(2) show ?thesis
      by (cases "joinable s ! k") (auto simp: on_joined_def)
  next
    case (recv r rest)
    have "metered m0 (s\<lparr>arrivals := rest\<rparr>)" using inv by simp
    from on_recv_metered [OF this] run recv(4) show ?thesis by simp
  qed (use inv run metered_stopped dispatch_metered in auto)
qed (use inv step in \<open>auto simp: source_step_def split: if_splits\<close>)

section \<open>Reachable states\<close>

definition source_inv ::
  "('l, 'x, 'm, 'c) source_env \<Rightarrow> usize \<Rightarrow> source_metrics \<Rightarrow> ('l, 'x, 'm, 'c) source_task \<Rightarrow> bool" where
  "source_inv E B m0 s \<longleftrightarrow> ordered E s \<and> metered m0 s \<and>
     (bytes_mut_laws (se_bytes E) \<and> 0 < ks_batch_size (se_config E) \<longrightarrow> stream E s) \<and>
     (ks_max_in_flight_bytes (se_config E) + B \<le> usize_MAX \<and> 0 < ks_max_in_flight_bytes (se_config E) \<longrightarrow>
        window E B s)"

interpretation source_run: step_invariant "source_step E" "source_inv E B m0" for E B m0
  by unfold_locales (auto simp: source_inv_def intro: ordered_step metered_step stream_step window_step)

lemma source_start_inv: "source_inv E B m0 (source_start E now con m0)"
  using source_start_ordered source_start_stream
  by (auto simp: source_inv_def window_def in_flight_len_def outstanding_def batches_within_def metered_def
    source_start_def)

lemmas source_reachable = source_run.run_keeps [OF source_start_inv]

lemma sum_word_of_nat: "(\<Sum>x\<leftarrow>xs. of_nat (f x)) = (of_nat (\<Sum>x\<leftarrow>xs. f x) :: 'a::len word)"
  by (induction xs) simp_all

text \<open>The committed batches are the first dispatched ones, with their event counts and footprints.\<close>

lemma committed_contents:
  assumes "in_order E s" "k \<le> length (commit_log s)"
  shows "map bc_events (take k (commit_log s)) = map (\<lambda>b. of_nat (length b)) (take k (batches s))"
    and "map bc_bytes (take k (commit_log s)) =
      map (\<lambda>b. wrap_usize (footprint (se_size_of E) b)) (take k (batches s))"
proof -
  let ?n = "length (commit_log s)"
  have log: "commit_log s = take ?n (issued E (batches s))" and le: "?n \<le> length (batches s)"
    using assms(1) by (simp_all add: in_order_def)
  have "take k (commit_log s) = take k (issued E (batches s))"
    by (subst log) (simp add: min_absorb1 assms(2))
  moreover have "k \<le> length (batches s)" using assms(2) le by simp
  ultimately show "map bc_events (take k (commit_log s)) = map (\<lambda>b. of_nat (length b)) (take k (batches s))"
      "map bc_bytes (take k (commit_log s)) =
        map (\<lambda>b. wrap_usize (footprint (se_size_of E) b)) (take k (batches s))"
    by (auto intro!: nth_equalityI simp: issued_nth completion_of_def sum_estimated_sizes)
qed

section \<open>What a committed offset covers\<close>

definition partition_ordered :: "message list \<Rightarrow> bool" where
  "partition_ordered ms \<longleftrightarrow> (\<forall>j < length ms. \<forall>i < j.
     msg_topic (ms ! i) = msg_topic (ms ! j) \<and> msg_partition (ms ! i) = msg_partition (ms ! j) \<longrightarrow>
     msg_offset (ms ! i) < msg_offset (ms ! j))"

lemma same_partition_event_of [simp]:
  "same_partition t p (event_of c m) \<longleftrightarrow> msg_topic m = t \<and> msg_partition m = p"
  by (simp add: same_partition_def event_of_def)

lemma offset_event_of [simp]: "offset (source (event_of c m)) = msg_offset m"
  by (simp add: event_of_def)

lemma commit_offset_SomeD:
  assumes "commit_offset es t p = Some n"
  obtains e where "e \<in> set es" "same_partition t p e" "n = wrap_i64 (offset (source e) + 1)"
proof -
  let ?f = "\<lambda>e. wrap_i64 (offset (source e) + 1)"
  from assms obtain x xs where f: "filter (same_partition t p) es = x # xs" "n = Max (set (map ?f (x # xs)))"
    by (auto simp: commit_offset_def split: list.splits)
  have "n \<in> set (map ?f (x # xs))" unfolding f(2) by (rule Max_in) simp_all
  then obtain e where "e \<in> set (filter (same_partition t p) es)" "n = ?f e" unfolding f(1) by auto
  then show thesis using that [of e] by simp
qed

lemma nth_prefix: "xs = ps @ rest \<Longrightarrow> i < length ps \<Longrightarrow> xs ! i = ps ! i"
  by (simp add: nth_append)

text \<open>
  With each partition consumed in offset order, a message below an offset taken from a batch
  was dispatched in that batch or an earlier one.
\<close>

lemma offset_covers_prefix:
  assumes stream: "map (event_of cid) ms = concat bs @ rest" and ord: "partition_ordered ms"
    and rng: "\<forall>m \<in> set ms. is_i64 (msg_offset m + 1)" and i: "i < length bs"
    and off: "commit_offset (bs ! i) t p = Some n"
    and m: "m \<in> set ms" "msg_topic m = t" "msg_partition m = p" "msg_offset m < n"
  shows "\<exists>j \<le> i. event_of cid m \<in> set (bs ! j)"
proof -
  let ?pre = "concat (take (Suc i) bs)"
  have split: "map (event_of cid) ms = ?pre @ concat (drop (Suc i) bs) @ rest"
    using stream by (metis append_assoc append_take_drop_id concat_append)
  from off obtain e where e: "e \<in> set (bs ! i)" "same_partition t p e" "n = wrap_i64 (offset (source e) + 1)"
    by (rule commit_offset_SomeD)
  have "e \<in> set ?pre" using e(1) i by (auto simp: take_Suc_conv_app_nth)
  then obtain b where b: "b < length ?pre" "?pre ! b = e" unfolding in_set_conv_nth by blast
  from arg_cong [OF split, of length] have len: "length ?pre \<le> length ms" by simp
  have eb: "e = event_of cid (ms ! b)" using nth_prefix [OF split b(1)] b len by simp
  from m(1) obtain a where a: "a < length ms" "ms ! a = m" by (auto simp: in_set_conv_nth)
  have "ms ! b \<in> set ms" using b len by simp
  with rng e(3) eb have n: "n = msg_offset (ms ! b) + 1" by simp
  have "\<not> b < a"
  proof
    assume "b < a"
    with ord a m e(2) eb have "msg_offset (ms ! b) < msg_offset m" by (auto simp: partition_ordered_def)
    with n m(4) show False by simp
  qed
  then have ap: "a < length ?pre" using b by simp
  then have "event_of cid m = ?pre ! a" using nth_prefix [OF split ap] a by simp
  with ap have "event_of cid m \<in> set ?pre" using nth_mem by metis
  then obtain b' where "b' \<in> set (take (Suc i) bs)" "event_of cid m \<in> set b'" by auto
  then obtain j where "j < length (take (Suc i) bs)" "event_of cid m \<in> set (take (Suc i) bs ! j)"
    by (metis in_set_conv_nth)
  then show ?thesis by (intro exI [of _ j]) auto
qed

lemma committed_offset_covers:
  assumes run: "run (source_step E) (source_start E now con m0) ls = Some s"
    and laws: "bytes_mut_laws (se_bytes E)" "tpl_laws (se_tpl E)" "0 < ks_batch_size (se_config E)"
    and order: "partition_ordered (consumed s)" "\<forall>m \<in> set (consumed s). is_i64 (msg_offset m + 1)"
    and bound: "length (batches s) < 2 ^ 64"
    and c: "c \<in> set (commit_log s)" "tpl_find (se_tpl E) (bc_offsets c) t p = Some n"
    and m: "m \<in> set (consumed s)" "msg_topic m = t" "msg_partition m = p" "msg_offset m < n"
  shows "\<exists>i < length (commit_log s). event_of (se_id E) m \<in> set (batches s ! i) \<and>
    commit_log s ! i = completion_of E i (batches s ! i) \<and> commit_log s ! i \<in> set (acked s)"
proof -
  let ?C = "length (commit_log s)"
  from source_reachable [OF run, of 0] bound laws have ord: "in_order E s" and str: "stream E s"
    by (simp_all add: source_inv_def ordered_def)
  from ord have C: "?C \<le> length (batches s)" "commit_log s = take ?C (issued E (batches s))"
    "set (commit_log s) \<subseteq> set (acked s)" by (simp_all add: in_order_def)
  have nth: "commit_log s ! i = completion_of E i (batches s ! i)" if "i < ?C" for i
    using that C by (metis issued_nth less_le_trans nth_take)
  from c(1) obtain i where i: "i < ?C" "commit_log s ! i = c" by (auto simp: in_set_conv_nth)
  with C(1) have "batches s ! i \<in> set (batches s)" by simp
  with str obtain l where l: "offsets_for (se_tpl E) (batches s ! i) = Ok l"
    by (auto simp: stream_def is_ok_iff)
  with nth [OF i(1)] i(2) have "bc_offsets c = l" by (simp add: completion_of_def)
  with c(2) offsets_for_correct [OF laws(2) l] have off: "commit_offset (batches s ! i) t p = Some n" by simp
  from str obtain rest where "map (event_of (se_id E)) (consumed s) = concat (batches s) @ rest"
    by (auto simp: stream_def)
  from offset_covers_prefix [OF this order _ off m] i(1) C(1) obtain j where
    "j \<le> i" "event_of (se_id E) m \<in> set (batches s ! j)" by auto
  moreover from this i(1) have "j < ?C" "commit_log s ! j \<in> set (acked s)"
    using C(3) nth_mem [of j "commit_log s"] by auto
  ultimately show ?thesis using nth [of j] by blast
qed

section \<open>Reports\<close>

text \<open>The reports of a sequence of commits of so many events at such times.\<close>

fun report_all :: "reporter \<Rightarrow> u64 \<Rightarrow> (duration \<times> u64) list \<Rightarrow> reporter \<times> report_line list" where
  "report_all r tot [] = (r, [])"
| "report_all r tot ((now, n) # es) =
     (let (r1, line) = record_events now n (tot + n) r; (r2, ls) = report_all r1 (tot + n) es
      in (r2, (case line of None \<Rightarrow> [] | Some l \<Rightarrow> [l]) @ ls))"

lemma record_events_window:
  assumes "record_events now n tot r = (r', line)"
  shows "(case line of None \<Rightarrow> 0 | Some l \<Rightarrow> line_window_events l) + rep_window_events r' =
    rep_window_events r + n"
  using assms by (auto simp: record_events_def Let_def split: if_splits)

lemma report_all_windows:
  assumes "report_all r tot es = (r', ls)"
  shows "sum_list (map line_window_events ls) + rep_window_events r' =
    rep_window_events r + sum_list (map snd es)"
  using assms
proof (induction r tot es arbitrary: ls rule: report_all.induct)
  case (2 r tot now n es)
  obtain r1 line where 1: "record_events now n (tot + n) r = (r1, line)" by fastforce
  obtain r2 ls2 where 3: "report_all r1 (tot + n) es = (r2, ls2)" by fastforce
  from 2(2) 1 3 have r: "r' = r2" "ls = (case line of None \<Rightarrow> [] | Some l \<Rightarrow> [l]) @ ls2" by auto
  from 2(1) [OF 1 [symmetric] refl 3 [folded r(1)]] record_events_window [OF 1]
  show ?case unfolding r by (cases line) (simp_all add: algebra_simps)
qed simp

section \<open>A small instance\<close>

text \<open>
  A source of batches of one message over a consumer that records what it is asked to
  commit. Two batches are acknowledged in the opposite order of their dispatch.
\<close>

definition demo_env ::
  "(next_offset list, string, bytes \<times> usize, next_offset list list) source_env" where
  "demo_env = \<lparr>se_tpl = list_tpl, se_bytes = list_bytes_mut,
     se_commit = (\<lambda>log l. (Ok (), log @ [l])), se_size_of = 1, se_id = ''in'',
     se_config = (kafka_source_required ''b'' ''g'' [''t''])\<lparr>ks_batch_size := 1\<rparr>\<rparr>"

definition demo_message :: "i64 \<Rightarrow> message" where
  "demo_message n = \<lparr>msg_key = None, msg_payload = Some ''x'', msg_timestamp = None,
     msg_topic = ''t'', msg_partition = 0, msg_offset = n\<rparr>"

definition demo_run :: "string source_event list" where
  "demo_run = [Arrive (Ok (demo_message 7)), SrcPoll 0 0, Arrive (Ok (demo_message 8)), SrcPoll 0 0,
     SendDone 1 (Ok ()), SrcPoll 0 0, SendDone 0 (Ok ()), SrcPoll 0 0]"

lemma commit_loop_step:
  "bt_get m nx = None \<Longrightarrow> commit_loop commit con m nx cnt ev bt = (Ok (ev, bt), con, m, nx, cnt, [])"
  "bt_get m nx = Some c \<Longrightarrow> commit con (bc_offsets c) = (Ok (), con') \<Longrightarrow>
   commit_loop commit con m nx cnt ev bt =
     (let (r, con'', m'', nx', cnt', lg) = commit_loop commit con' (bt_remove nx m) (nx + 1)
        (cnt\<lparr>commits := commits cnt + 1\<rparr>) (ev + bc_events c) (bt + of_nat (bc_bytes c))
      in (r, con'', m'', nx', cnt', c # lg))"
  by (simp_all add: commit_loop.simps [of commit con])

lemmas source_exec = source_step_def source_start_def decoder_start_def TopicCache_default_def
  BatchBuffer_default_def with_chunk_def DEFAULT_CHUNK_BYTES_def on_recv_def on_message_def to_event_def
  copy_opt_def copy_def room_for_def needs_chunk_def list_bytes_mut_def intern_def unwrap_or_def
  dispatch_def offsets_for_def next_offsets_def list_tpl_def in_flight_len_def admits_batch_def
  on_joined_def on_completion_def commit_contiguous_def commit_loop_step bt_get_def remove_nth_def
  record_events_def Reporter_new_def REPORT_EVERY_def saturating_add_def usize_MAX_def
  kafka_source_required_def default_defs wrap_i64_def EventBatch_new_def estimated_size_def batch_len_def

lemma demo_exec:
  obtains s where
    "run (source_step demo_env) (source_start demo_env 0 [] SourceMetrics_default) demo_run = Some s"
    "length (batches s) = 2" "consumed s = [demo_message 7, demo_message 8]"
    "src_consumer s = [[(''t'', 0, 8)], [(''t'', 0, 9)]]"
    "map bc_offsets (commit_log s) = [[(''t'', 0, 8)], [(''t'', 0, 9)]]" "src_result s = None"
  unfolding demo_run_def
  by (simp add: source_exec demo_env_def demo_message_def SourceMetrics_default_def Let_def)

lemma demo_env_laws:
  "bytes_mut_laws (se_bytes demo_env)" "tpl_laws (se_tpl demo_env)" "0 < ks_batch_size (se_config demo_env)"
  by (simp_all add: demo_env_def list_bytes_mut_laws list_tpl_laws)

lemma demo_messages_ordered:
  "partition_ordered [demo_message 7, demo_message 8]"
  "\<forall>m \<in> set [demo_message 7, demo_message 8]. is_i64 (msg_offset m + 1)"
  by (auto simp: partition_ordered_def demo_message_def less_Suc_eq is_i64_def)

section \<open>Properties\<close>

text \<open>
  C4: commits follow dispatch order and acknowledgement: whatever order the fan-out sends
  finish in, the batches whose offsets were committed are exactly the first ones
  dispatched, in order and each once, and every one of them was acknowledged by its send.
\<close>

theorem commits_are_acknowledged_prefix:
  assumes "run (source_step E) (source_start E now con m0) ls = Some s" and "length (batches s) < 2 ^ 64"
  shows "commit_log s = take (length (commit_log s)) (issued E (batches s)) \<and>
    set (commit_log s) \<subseteq> set (acked s)"
  using source_reachable [OF assms(1), of 0] assms(2)
  by (simp add: source_inv_def ordered_def in_order_def)

theorem commits_are_acknowledged_prefix_witness:
  "\<exists>s. run (source_step demo_env) (source_start demo_env 0 [] SourceMetrics_default) demo_run = Some s \<and>
     length (commit_log s) = 2 \<and> commit_log s = issued demo_env (batches s) \<and> set (commit_log s) \<subseteq> set (acked s)"
proof -
  obtain s where s: "run (source_step demo_env) (source_start demo_env 0 [] SourceMetrics_default) demo_run = Some s"
    "length (batches s) = 2" "map bc_offsets (commit_log s) = [[(''t'', 0, 8)], [(''t'', 0, 9)]]"
    by (rule demo_exec)
  from s(3) have "length (commit_log s) = 2" by (metis length_map length_Cons list.size(3) numeral_2_eq_2)
  with s commits_are_acknowledged_prefix [OF s(1)] show ?thesis by (intro exI [of _ s]) auto
qed

text \<open>
  C3: at-least-once at the source: when the consumer yields each partition in offset order, an
  offset is committed only if every message of that partition below it that was consumed
  was put into a batch that all its sinks acknowledged and whose own offsets are committed.
\<close>

theorem committed_offsets_cover_acknowledged_messages:
  assumes run: "run (source_step E) (source_start E now con m0) ls = Some s"
    and laws: "bytes_mut_laws (se_bytes E)" "tpl_laws (se_tpl E)" "0 < ks_batch_size (se_config E)"
    and order: "partition_ordered (consumed s)" "\<forall>m \<in> set (consumed s). is_i64 (msg_offset m + 1)"
    and bound: "length (batches s) < 2 ^ 64"
    and c: "c \<in> set (commit_log s)" "tpl_find (se_tpl E) (bc_offsets c) t p = Some n"
    and m: "m \<in> set (consumed s)" "msg_topic m = t" "msg_partition m = p" "msg_offset m < n"
  shows "\<exists>i < length (commit_log s). event_of (se_id E) m \<in> set (batches s ! i) \<and>
    commit_log s ! i = completion_of E i (batches s ! i) \<and> commit_log s ! i \<in> set (acked s)"
  by (rule committed_offset_covers [OF assms])

theorem committed_offsets_cover_acknowledged_messages_witness:
  "\<exists>s i. run (source_step demo_env) (source_start demo_env 0 [] SourceMetrics_default) demo_run = Some s \<and>
     i < length (commit_log s) \<and> event_of ''in'' (demo_message 7) \<in> set (batches s ! i) \<and>
     commit_log s ! i \<in> set (acked s)"
proof -
  obtain s where s: "run (source_step demo_env) (source_start demo_env 0 [] SourceMetrics_default) demo_run = Some s"
    "length (batches s) = 2" "consumed s = [demo_message 7, demo_message 8]"
    "map bc_offsets (commit_log s) = [[(''t'', 0, 8)], [(''t'', 0, 9)]]"
    by (rule demo_exec)
  from s(4) obtain c d where c: "commit_log s = [d, c]" "bc_offsets c = [(''t'', 0, 9)]"
    by (auto simp: map_eq_Cons_conv)
  have "\<exists>i < length (commit_log s). event_of (se_id demo_env) (demo_message 7) \<in> set (batches s ! i) \<and>
    commit_log s ! i = completion_of demo_env i (batches s ! i) \<and> commit_log s ! i \<in> set (acked s)"
    using s(2,3) c demo_messages_ordered
    by (intro committed_offsets_cover_acknowledged_messages [OF s(1) demo_env_laws, where c = c and t = "''t''" and p = 0 and n = 9])
      (simp_all add: demo_env_def list_tpl_def demo_message_def)
  with s(1) show ?thesis by (auto simp: demo_env_def)
qed

text \<open>
  C25: no event is lost, duplicated or reordered on the way to the fan-out: while the source
  runs, the dispatched batches followed by the pending one are exactly the messages
  consumed, decoded byte for byte, in order; every batch is non-empty, within \<open>batch_size\<close>
  and has offsets to commit.
\<close>

theorem batches_partition_the_stream:
  assumes "run (source_step E) (source_start E now con m0) ls = Some s"
    and "bytes_mut_laws (se_bytes E)" "0 < ks_batch_size (se_config E)" "src_result s = None"
  shows "map (event_of (se_id E)) (consumed s) = concat (batches s) @ pending s \<and>
    length (pending s) < ks_batch_size (se_config E) \<and>
    (\<forall>b \<in> set (batches s). b \<noteq> [] \<and> length b \<le> ks_batch_size (se_config E) \<and> is_ok (offsets_for (se_tpl E) b))"
  using source_reachable [OF assms(1), of 0] assms(2-) by (auto simp: source_inv_def stream_def)

theorem batches_partition_the_stream_witness:
  "\<exists>s. run (source_step demo_env) (source_start demo_env 0 [] SourceMetrics_default) demo_run = Some s \<and>
     map (event_of ''in'') [demo_message 7, demo_message 8] = concat (batches s) @ pending s"
proof -
  obtain s where s: "run (source_step demo_env) (source_start demo_env 0 [] SourceMetrics_default) demo_run = Some s"
    "consumed s = [demo_message 7, demo_message 8]" "src_result s = None" by (rule demo_exec)
  from batches_partition_the_stream [OF s(1) demo_env_laws(1,3) s(3)] s show ?thesis
    by (intro exI [of _ s]) (simp add: demo_env_def)
qed

text \<open>
  C27: the in-flight window holds: never more than \<open>max_in_flight_batches\<close> sends outstanding, and,
  when no batch exceeds \<open>B\<close> bytes, fewer than \<open>max_in_flight_bytes + B\<close> bytes in them: the
  budget can be overshot by one batch and no more.
\<close>

theorem in_flight_window_respected:
  assumes "run (source_step E) (source_start E now con m0) ls = Some s"
    and "ks_max_in_flight_bytes (se_config E) + B \<le> usize_MAX" "0 < ks_max_in_flight_bytes (se_config E)"
    and "batches_within E B s"
  shows "in_flight_len s \<le> ks_max_in_flight_batches (se_config E) \<and>
    outstanding s < ks_max_in_flight_bytes (se_config E) + B"
  using source_reachable [OF assms(1), of B] assms(2-)
  by (auto simp: source_inv_def window_def)

theorem in_flight_window_respected_witness:
  "\<exists>s. run (source_step demo_env) (source_start demo_env 0 [] SourceMetrics_default)
       [Arrive (Ok (demo_message 7)), SrcPoll 0 0] = Some s \<and> in_flight_len s = 1 \<and>
     outstanding s < ks_max_in_flight_bytes (se_config demo_env) + 2"
proof -
  obtain s where s: "run (source_step demo_env) (source_start demo_env 0 [] SourceMetrics_default)
       [Arrive (Ok (demo_message 7)), SrcPoll 0 0] = Some s" "in_flight_len s = 1" "batches_within demo_env 2 s"
    by (simp add: source_exec demo_env_def demo_message_def SourceMetrics_default_def Let_def batches_within_def)
  have "ks_max_in_flight_bytes (se_config demo_env) + 2 \<le> usize_MAX" "0 < ks_max_in_flight_bytes (se_config demo_env)"
    by (simp_all add: demo_env_def kafka_source_required_def default_defs usize_MAX_def)
  from in_flight_window_respected [OF s(1) this s(3)] s show ?thesis by blast
qed

text \<open>
  C28: what the source's counters count, modulo \<open>2 ^ 64\<close>: \<open>batches_in\<close> has grown by the batches
  dispatched and \<open>commits\<close> by the batches committed, however the source ended; \<open>events_in\<close> and
  \<open>bytes_in\<close> have grown by the events and by the footprint (struct, key and payload) of exactly the
  committed batches, except that after a failed commit they may cover only a prefix of those.
  They never count a batch that was not committed.
\<close>

theorem counters_report_commits:
  assumes "run (source_step E) (source_start E now con m0) ls = Some s"
    and "length (batches s) < 2 ^ 64"
  shows "batches_in (src_counters s) = batches_in m0 + of_nat (length (batches s)) \<and>
    commits (src_counters s) = commits m0 + of_nat (length (commit_log s)) \<and>
    (\<exists>k \<le> length (commit_log s).
       (k = length (commit_log s) \<or>
        (\<exists>x. src_result s = Some (Err (Context ''cannot commit Kafka batch'' (Foreign x))))) \<and>
       events_in (src_counters s) = events_in m0 + of_nat (\<Sum>b\<leftarrow>take k (batches s). length b) \<and>
       bytes_in (src_counters s) =
         bytes_in m0 + of_nat (\<Sum>b\<leftarrow>take k (batches s). wrap_usize (footprint (se_size_of E) b)))"
proof -
  from source_reachable [OF assms(1), of 0] assms(2) have ord: "in_order E s" and met: "metered m0 s"
    by (simp_all add: source_inv_def ordered_def)
  have log: "map bc_events (take k (commit_log s)) = map (\<lambda>b. of_nat (length b)) (take k (batches s))"
      "map bc_bytes (take k (commit_log s)) = map (\<lambda>b. wrap_usize (footprint (se_size_of E) b)) (take k (batches s))"
    if "k \<le> length (commit_log s)" for k
    using committed_contents [OF ord that] .
  from met obtain k where k: "k \<le> length (commit_log s)" "k = length (commit_log s) \<or> commit_failed s"
    "events_in (src_counters s) = events_in m0 + sum_list (map bc_events (take k (commit_log s)))"
    "bytes_in (src_counters s) = bytes_in m0 + of_nat (sum_list (map bc_bytes (take k (commit_log s))))"
    unfolding metered_def by blast
  from met show ?thesis unfolding commit_failed_def [symmetric]
    by (intro conjI exI [of _ k] k(1,2))
      (simp_all add: metered_def k(3,4) log [OF k(1)] sum_word_of_nat comp_def)
qed

theorem counters_report_commits_witness:
  "\<exists>s. run (source_step demo_env) (source_start demo_env 0 [] SourceMetrics_default) demo_run = Some s \<and>
     commits (src_counters s) = 2 \<and> batches_in (src_counters s) = 2 \<and>
     events_in (src_counters s) = of_nat (\<Sum>b\<leftarrow>batches s. length b)"
proof -
  obtain s where s: "run (source_step demo_env) (source_start demo_env 0 [] SourceMetrics_default) demo_run = Some s"
    "length (batches s) = 2" "map bc_offsets (commit_log s) = [[(''t'', 0, 8)], [(''t'', 0, 9)]]"
    "src_result s = None" by (rule demo_exec)
  from s(3) have "length (commit_log s) = 2" by (metis length_map length_Cons list.size(3) numeral_2_eq_2)
  with counters_report_commits [OF s(1)] s show ?thesis
    by (intro exI [of _ s]) (auto simp: SourceMetrics_default_def)
qed

text \<open>
  C29: the offsets recorded for a batch hold, for every topic and partition with an event in
  it, one past the highest offset consumed there, and nothing for any other partition,
  whatever order the events come in.
\<close>

theorem offsets_for_is_next_offset:
  assumes "tpl_laws T" "offsets_for T es = Ok l"
  shows "tpl_find T l t p = commit_offset es t p"
  using offsets_for_correct [OF assms] .

theorem offsets_for_is_next_offset_witness:
  "tpl_find list_tpl [(''b'', 1, 4), (''a'', 0, 13)] ''a'' 0 =
     commit_offset [event_of ''s'' (demo_message 12\<lparr>msg_topic := ''a''\<rparr>),
       event_of ''s'' (demo_message 3\<lparr>msg_topic := ''b'', msg_partition := 1\<rparr>),
       event_of ''s'' (demo_message 4\<lparr>msg_topic := ''a''\<rparr>)] ''a'' 0"
  by (rule offsets_for_is_next_offset [OF list_tpl_laws])
    (simp add: offsets_for_def next_offsets_def list_tpl_def event_of_def demo_message_def wrap_i64_def)

text \<open>
  \<open>commit_contiguous\<close> commits exactly the completions whose sequence numbers follow on
  without a gap from the next one due, in that order, keeps all others, and returns the sum
  of their events and bytes.
\<close>

theorem commit_contiguous_commits_the_run:
  assumes "commit_contiguous commit con waiting nx c cnt = (Ok (ev, b), con', waiting', nx', cnt', lg)"
    and "bt_inv waiting"
  shows "nx' = nx + of_nat (length lg) \<and>
    (\<forall>i < length lg. bt_get (bt_insert (bc_sequence c) c waiting) (nx + of_nat i) = Some (lg ! i)) \<and>
    bt_get waiting' nx' = None \<and>
    mset (map snd (bt_insert (bc_sequence c) c waiting)) = mset lg + mset (map snd waiting') \<and>
    ev = sum_list (map bc_events lg) \<and> b = of_nat (sum_list (map bc_bytes lg)) \<and>
    commits cnt' = commits cnt + of_nat (length lg)"
  using commit_loop_run [OF assms(1) [unfolded commit_contiguous_def] bt_inv_insert [OF assms(2)]] by auto

theorem commit_contiguous_commits_the_run_witness:
  "\<exists>con' completed' nx' cnt' lg.
     commit_contiguous (\<lambda>n (l :: unit). (Ok (), Suc n)) 0
       [(5, \<lparr>bc_sequence = 5, bc_offsets = (), bc_events = 2, bc_bytes = 20\<rparr>),
        (7, \<lparr>bc_sequence = 7, bc_offsets = (), bc_events = 9, bc_bytes = 90\<rparr>)] 4
       \<lparr>bc_sequence = 4, bc_offsets = (), bc_events = 1, bc_bytes = 10\<rparr> SourceMetrics_default =
       (Ok (3, 30) :: (u64 \<times> u64, unit error) result, con', completed', nx', cnt', lg) \<and>
     nx' = 4 + of_nat (length lg) \<and> 3 = sum_list (map bc_events lg)"
proof -
  let ?m = "[(5, \<lparr>bc_sequence = 5, bc_offsets = (), bc_events = 2, bc_bytes = 20\<rparr>),
        (7, \<lparr>bc_sequence = 7, bc_offsets = (), bc_events = 9, bc_bytes = 90\<rparr>)] :: (u64, unit batch_completion) btree"
  let ?c = "\<lparr>bc_sequence = 4, bc_offsets = (), bc_events = 1, bc_bytes = 10\<rparr>"
  obtain con' completed' nx' cnt' lg where r:
    "commit_contiguous (\<lambda>n (l :: unit). (Ok (), Suc n)) 0 ?m 4 ?c SourceMetrics_default =
       (Ok (3, 30) :: (u64 \<times> u64, unit error) result, con', completed', nx', cnt', lg)"
    by (simp add: commit_contiguous_def commit_loop_step bt_get_def)
  have "bt_inv ?m" by (simp add: bt_inv_def)
  from commit_contiguous_commits_the_run [OF r this] r show ?thesis by blast
qed

text \<open>
  Interning topics one after the other yields, for each, an Arc with that text; two
  results are the same Arc exactly when the topics are equal, and there are exactly as many
  allocations as distinct topics.
\<close>

theorem interning_shares_topics:
  assumes "intern_all ts (0, TopicCache_default) = (as, n, cache)"
  shows "map arc_text as = ts \<and> n = card (set ts) \<and>
    (\<forall>i < length ts. \<forall>j < length ts. arc_addr (as ! i) = arc_addr (as ! j) \<longleftrightarrow> ts ! i = ts ! j)"
proof -
  from intern_all_correct [OF cache_ok_default assms] have ok: "cache_ok (n, cache)"
    and as: "map Some as = map (interned cache) ts" and dom: "dom (interned cache) = set ts"
    by (auto simp: TopicCache_default_def)
  have len: "length as = length ts" using arg_cong [OF as, of length] by simp
  have nth: "interned cache (ts ! i) = Some (as ! i)" if "i < length ts" for i
    using that len arg_cong [OF as, of "\<lambda>xs. xs ! i"] by simp
  have "arc_text (as ! i) = ts ! i" if "i < length ts" for i
    using nth [OF that] ok by (simp add: cache_ok_def)
  moreover have "arc_addr (as ! i) = arc_addr (as ! j) \<longleftrightarrow> ts ! i = ts ! j"
    if "i < length ts" "j < length ts" for i j
  proof
    assume "arc_addr (as ! i) = arc_addr (as ! j)"
    moreover have "inj_on (\<lambda>t. map_option arc_addr (interned cache t)) (set ts)"
      using ok dom by (simp add: cache_ok_def)
    ultimately show "ts ! i = ts ! j" using nth that by (auto simp: inj_on_def)
  next
    assume "ts ! i = ts ! j"
    with nth [OF that(1)] nth [OF that(2)] show "arc_addr (as ! i) = arc_addr (as ! j)" by simp
  qed
  moreover have "n = card (set ts)" using ok dom by (simp add: cache_ok_def)
  ultimately show ?thesis using len by (auto intro!: nth_equalityI)
qed

theorem interning_shares_topics_witness:
  "map arc_text (fst (intern_all [''a'', ''a'', ''b'', ''a''] (0, TopicCache_default))) = [''a'', ''a'', ''b'', ''a'']"
  using interning_shares_topics [of "[''a'', ''a'', ''b'', ''a'']"]
  by (cases "intern_all [''a'', ''a'', ''b'', ''a''] (0, TopicCache_default)") auto

text \<open>
  Throughput reports cover disjoint windows: the events of all reports together with those
  of the window still open are all events recorded, none counted twice.
\<close>

theorem throughput_windows_partition_events:
  "case report_all (Reporter_new start every) 0 es of (r, ls) \<Rightarrow>
     sum_list (map line_window_events ls) + rep_window_events r = sum_list (map snd es)"
  using report_all_windows [of "Reporter_new start every" 0 es]
  by (cases "report_all (Reporter_new start every) 0 es") (simp add: Reporter_new_def)

text \<open>
  Offsets are committed by the router alone unless the operator overrides it: automatic
  commit and automatic offset store are off for every configuration whose \<open>client_config\<close>
  does not name them. The configured \<open>max_poll_interval_ms\<close> never reaches the client.
\<close>

theorem client_never_auto_commits:
  assumes "k \<in> {''enable.auto.commit'', ''enable.auto.offset.store''}"
    and "k \<notin> fst ` set (ks_client_config c)"
  shows "setting (source_client_settings c) k = Some ''false'' \<and>
    source_client_settings (c\<lparr>ks_max_poll_interval_ms := x\<rparr>) = source_client_settings c"
proof -
  have "map_of (rev (ks_client_config c)) k = None"
    using assms(2) by (simp add: map_of_eq_None_iff)
  with assms(1) show ?thesis
    by (auto simp: setting_def source_client_settings_def map_add_def)
qed

theorem client_never_auto_commits_witness:
  "setting (source_client_settings (kafka_source_required ''b'' ''g'' [''t''])) ''enable.auto.commit'' = Some ''false''"
  using client_never_auto_commits [of "''enable.auto.commit''" "kafka_source_required ''b'' ''g'' [''t'']"]
  by (simp add: kafka_source_required_def)

end
