(* ===== verification/Sink_Runtime.thy ===== *)
theory Sink_Runtime
  imports Event Config Metrics "HOL-Library.Multiset"
begin

text \<open>
  \<open>src/sink/mod.rs\<close>: the part of the program every sink shares. \<open>write_with_retry\<close> is a
  function over the state of the destination; \<open>run\<close> (accept, coalesce, wait for a write
  slot, spawn, drain) is a labelled step system whose labels are the events its environment
  produces: envelopes pushed into the bounded channel, the channel closed, cancellation,
  the linger timer, a write attempt ending, a backoff sleep ending, and a poll of the task
  itself, which evaluates the \<open>biased\<close> \<open>select!\<close> deterministically in source order.
  \<open>write_batches\<close> of the sink is a parameter; the interface \<open>sink_contract\<close> states what
  the runtime's accounting needs of it.
\<close>

section \<open>Outcomes and settings\<close>

record write_outcome =
  written :: u64
  dropped :: u64

definition WriteOutcome_default :: write_outcome where
  "WriteOutcome_default = \<lparr>written = 0, dropped = 0\<rparr>"

definition WriteOutcome_written :: "u64 \<Rightarrow> write_outcome" where
  "WriteOutcome_written n = \<lparr>written = n, dropped = 0\<rparr>"

record batch_settings =
  max_events :: usize
  max_bytes :: usize
  linger :: duration

section \<open>Retrying one write\<close>

text \<open>
  One iteration of the loop after \<open>write_batches\<close> returned: the value to return, if the loop
  ends here, and the counters. The comparison is between \<open>u32\<close> attempt numbers.
\<close>

definition after_attempt ::
  "delivery_settings \<Rightarrow> nat \<Rightarrow> (write_outcome, 'e) result \<Rightarrow> sink_metrics \<Rightarrow>
   (write_outcome, 'e) result option \<times> sink_metrics" where
  "after_attempt settings attempt r m =
     (case r of
        Ok outcome \<Rightarrow> (Some (Ok outcome), m)
      | Err e \<Rightarrow>
          if attempt < unat (retry_max_attempts settings)
          then (None, m\<lparr>retries := retries m + 1\<rparr>)
          else (Some (Err e), m\<lparr>write_errors := write_errors m + 1\<rparr>))"

definition next_backoff :: "delivery_settings \<Rightarrow> duration \<Rightarrow> duration" where
  "next_backoff settings backoff = min (backoff * 2) (retry_max_backoff settings)"

text \<open>
  The \<open>for attempt in 1..=retry_max_attempts\<close> loop. \<open>wb\<close> is \<open>write_batches\<close> on the group at
  hand: it reads and changes the state \<open>w\<close> of the destination. The result carries the
  counters, the destination and the sleeps in order; \<open>None\<close> is the \<open>unreachable!\<close> panic.
\<close>

function retry_loop ::
  "delivery_settings \<Rightarrow> ('w \<Rightarrow> (write_outcome, 'e) result \<times> 'w) \<Rightarrow> nat \<Rightarrow> duration \<Rightarrow>
   sink_metrics \<Rightarrow> 'w \<Rightarrow> ((write_outcome, 'e) result \<times> sink_metrics \<times> 'w \<times> duration list) option" where
  "retry_loop settings wb attempt backoff m w =
     (if unat (retry_max_attempts settings) < attempt then None
      else
        let (r, w') = wb w in
        case after_attempt settings attempt r m of
          (Some r', m') \<Rightarrow> Some (r', m', w', [])
        | (None, m') \<Rightarrow>
            map_option (\<lambda>(r', m'', w'', sleeps). (r', m'', w'', backoff # sleeps))
              (retry_loop settings wb (Suc attempt) (next_backoff settings backoff) m' w'))"
  by pat_completeness auto
termination
  by (relation "measure (\<lambda>(settings, _, attempt, _). Suc (unat (retry_max_attempts settings)) - attempt)")
    auto

declare retry_loop.simps [simp del]

definition write_with_retry ::
  "('w \<Rightarrow> (write_outcome, 'e) result \<times> 'w) \<Rightarrow> delivery_settings \<Rightarrow> sink_metrics \<Rightarrow> 'w \<Rightarrow>
   ((write_outcome, 'e) result \<times> sink_metrics \<times> 'w \<times> duration list) option" where
  "write_with_retry wb settings m w =
     retry_loop settings wb 1 (retry_initial_backoff settings) m w"

text \<open>The \<open>n\<close>-th call of \<open>write_batches\<close> (from 0) when all earlier ones are made in sequence.\<close>

fun nth_write :: "('w \<Rightarrow> ('r \<times> 'w)) \<Rightarrow> nat \<Rightarrow> 'w \<Rightarrow> 'r \<times> 'w" where
  "nth_write wb 0 w = wb w"
| "nth_write wb (Suc n) w = nth_write wb n (snd (wb w))"

text \<open>The sleeps of \<open>n\<close> retries starting from a given backoff.\<close>

fun backoffs :: "delivery_settings \<Rightarrow> duration \<Rightarrow> nat \<Rightarrow> duration list" where
  "backoffs settings b 0 = []"
| "backoffs settings b (Suc n) = b # backoffs settings (next_backoff settings b) n"

lemma min_min_mult:
  fixes p :: nat
  assumes "1 \<le> p"
  shows "min (min x m * p) m = min (x * p) m"
proof (cases "x \<le> m")
  case False
  have "m \<le> m * p" "x \<le> x * p" using assms by simp_all
  with False have "min x m = m" "min (m * p) m = m" "min (x * p) m = m" by linarith+
  then show ?thesis by simp
qed (simp add: min_def)

lemma backoffs_closed_form:
  assumes "b \<le> retry_max_backoff s"
  shows "backoffs s b n = map (\<lambda>i. min (b * 2 ^ i) (retry_max_backoff s)) [0..<n]"
  using assms
proof (induction n arbitrary: b)
  case (Suc n)
  have "min (next_backoff s b * 2 ^ i) (retry_max_backoff s) = min (b * 2 ^ Suc i) (retry_max_backoff s)" for i
    using min_min_mult [of "2 ^ i" "b * 2" "retry_max_backoff s"]
    by (simp add: next_backoff_def mult.assoc)
  moreover have "next_backoff s b \<le> retry_max_backoff s" by (simp add: next_backoff_def)
  ultimately have "backoffs s (next_backoff s b) n =
      map (\<lambda>i. min (b * 2 ^ Suc i) (retry_max_backoff s)) [0..<n]"
    using Suc.IH by simp
  then show ?case using Suc.prems
    by (simp add: upt_conv_Cons map_Suc_upt [symmetric] comp_def del: upt_Suc)
qed simp

text \<open>The loop makes attempts until the first success, or the last attempt allowed.\<close>

lemma retry_loop_stops:
  assumes "a + k \<le> unat (retry_max_attempts s)" "\<forall>i < k. \<not> is_ok (fst (nth_write wb i w))"
    "is_ok (fst (nth_write wb k w)) \<or> a + k = unat (retry_max_attempts s)"
  shows "retry_loop s wb a b m w =
    (let (r, w') = nth_write wb k w in
       Some (r, m\<lparr>retries := retries m + of_nat k,
                  write_errors := write_errors m + (if is_ok r then 0 else 1)\<rparr>, w', backoffs s b k))"
  using assms
proof (induction k arbitrary: a b m w)
  case 0
  obtain r w' where "wb w = (r, w')" by fastforce
  with 0 show ?case
    by (subst retry_loop.simps) (cases r; simp add: after_attempt_def)
next
  case (Suc k)
  obtain r w' where w: "wb w = (r, w')" by fastforce
  from Suc.prems(2) have "\<not> is_ok r" using w by (auto dest: spec [of _ 0])
  then obtain e where e: "r = Err e" by (cases r) auto
  have "\<forall>i < k. \<not> is_ok (fst (nth_write wb i w'))"
    using Suc.prems(2) w by (metis Suc_less_eq nth_write.simps(2) snd_conv)
  with Suc.IH [of "Suc a" w' "next_backoff s b" "m\<lparr>retries := retries m + 1\<rparr>"] Suc.prems w e
  show ?case
    by (subst retry_loop.simps) (simp add: after_attempt_def Let_def split_beta add.assoc)
qed

lemma retry_stop_exists:
  assumes "0 < n"
  shows "\<exists>k < n. (\<forall>i < k. \<not> P i) \<and> (P k \<or> Suc k = (n :: nat))"
  using assms
proof (induction n)
  case (Suc n)
  show ?case
  proof (cases "\<exists>k < n. (\<forall>i < k. \<not> P i) \<and> P k")
    case True
    then show ?thesis by (meson less_SucI)
  next
    case False
    have "\<not> P i" if "i < n" for i
      using that False by (induction i rule: less_induct) (meson less_trans)
    then show ?thesis by blast
  qed
qed simp

lemma length_backoffs [simp]: "length (backoffs s b n) = n"
  by (induction n arbitrary: b) auto

lemma backoffs_bounded:
  "d \<in> set (backoffs s b n) \<Longrightarrow> d \<le> max b (retry_max_backoff s)"
  by (induction n arbitrary: b) (fastforce simp: next_backoff_def)+

lemma from_millis_bound: "from_millis ms < 2 ^ 64 * 1000000"
  using unsigned_less [of ms, where ?'a = nat] by (simp add: from_millis_def)

lemma runtime_backoff_bound:
  "max (retry_initial_backoff (runtime_settings c)) (retry_max_backoff (runtime_settings c)) < 2 ^ 64 * 1000000"
  using from_millis_bound by (cases c) simp_all

section \<open>The sink task\<close>

text \<open>
  An envelope is what the channel carries: a shared batch and the right to complete one
  branch of its acknowledgement. \<open>env_id\<close> tells two envelopes of equal batches apart.
\<close>

record envelope =
  env_id :: nat
  env_batch :: event_batch

text \<open>
  A spawned write: its group of envelopes, the attempt it is making (or has just failed,
  while it sleeps) and the backoff of its next sleep.
\<close>

record write_task =
  task_envelopes :: "envelope list"
  task_attempt :: nat
  task_backoff :: duration
  task_sleeping :: bool

datatype 'e run_phase =
    Accepting
  | Coalescing "envelope list" usize usize
  | Dispatching "envelope list"
  | Draining "(unit, 'e) result"
  | Returned "(unit, 'e) result"

text \<open>
  \<open>input\<close> is the bounded channel, \<open>running\<close> and \<open>finished\<close> are the \<open>JoinSet\<close> (tasks still
  executing, and results not yet joined). \<open>acks\<close> logs every completion of an envelope with
  its verdict, in order. \<open>received\<close> and \<open>dispatched\<close> are history: the envelopes pushed
  into the channel and the groups handed to writes.
\<close>

record 'e sink_task =
  phase :: "'e run_phase"
  input :: "envelope list"
  closed :: bool
  cancelled :: bool
  deadline :: bool
  running :: "write_task list"
  finished :: "(unit, 'e) result list"
  counters :: sink_metrics
  acks :: "(envelope \<times> bool) list"
  received :: "envelope list"
  dispatched :: "envelope list list"

definition run_start :: "'e sink_task" where
  "run_start = \<lparr>phase = Accepting, input = [], closed = False, cancelled = False, deadline = False,
     running = [], finished = [], counters = SinkMetrics_default, acks = [], received = [], dispatched = []\<rparr>"

definition writes_len :: "'e sink_task \<Rightarrow> usize" where
  "writes_len s = length (running s) + length (finished s)"

fun held :: "'e run_phase \<Rightarrow> envelope list" where
  "held (Coalescing es _ _) = es"
| "held (Dispatching es) = es"
| "held _ = []"

definition complete_all :: "bool \<Rightarrow> envelope list \<Rightarrow> 'e sink_task \<Rightarrow> 'e sink_task" where
  "complete_all d es s = s\<lparr>acks := acks s @ map (\<lambda>e. (e, d)) es\<rparr>"

text \<open>
  Leaving \<open>run\<close>: the envelopes in hand and those still in the channel are dropped, which
  completes them as failed. The \<open>JoinSet\<close> is dropped as well: its results are lost, and
  its tasks are told to abort, which each does when it next yields.
\<close>

definition return_with :: "(unit, 'e) result \<Rightarrow> 'e sink_task \<Rightarrow> 'e sink_task" where
  "return_with r s =
     (complete_all False (held (phase s) @ input s) s)\<lparr>phase := Returned r, input := [], finished := []\<rparr>"

text \<open>\<open>reap(...)?\<close>: one finished write, whose failure ends \<open>run\<close>.\<close>

definition reap :: "nat \<Rightarrow> 'e sink_task \<Rightarrow> 'e sink_task option" where
  "reap k s =
     (if k < length (finished s) then
        let s' = s\<lparr>finished := remove_nth k (finished s)\<rparr> in
        case finished s ! k of
          Ok _ \<Rightarrow> Some s'
        | Err e \<Rightarrow> Some (return_with (Err e) s')
      else None)"

definition spawn :: "delivery_settings \<Rightarrow> envelope list \<Rightarrow> 'e sink_task \<Rightarrow> 'e sink_task" where
  "spawn settings es s = s\<lparr>
     phase := Accepting,
     counters := (counters s)\<lparr>queue_depth := of_nat (length (input s))\<rparr>,
     running := running s @ [\<lparr>task_envelopes = es, task_attempt = 1,
       task_backoff = retry_initial_backoff settings, task_sleeping = False\<rparr>],
     dispatched := dispatched s @ [es]\<rparr>"

text \<open>The drain after the accept loop: joins one write, remembering the first error.\<close>

definition drain_one :: "nat \<Rightarrow> (unit, 'e) result \<Rightarrow> 'e sink_task \<Rightarrow> 'e sink_task option" where
  "drain_one k outcome s =
     (if k < length (finished s) then
        let r = finished s ! k in
        Some (s\<lparr>finished := remove_nth k (finished s),
          phase := Draining (if \<not> is_ok r \<and> is_ok outcome then r else outcome)\<rparr>)
      else None)"

text \<open>
  One poll of the task; \<open>k\<close> is the finished write that \<open>join_next\<close> yields if it is called.
  \<open>None\<close> means that nothing is ready.
\<close>

definition poll :: "batch_settings \<Rightarrow> delivery_settings \<Rightarrow> nat \<Rightarrow> 'e sink_task \<Rightarrow> 'e sink_task option" where
  "poll batching settings k s = (case phase s of
     Accepting \<Rightarrow>
       if cancelled s then Some (s\<lparr>phase := Draining (Ok ())\<rparr>)
       else if finished s \<noteq> [] then reap k s
       else (case input s of
          e # es \<Rightarrow> Some (s\<lparr>input := es, deadline := False,
            phase := Coalescing [e] (batch_len (env_batch e)) (batch_bytes (env_batch e))\<rparr>)
        | [] \<Rightarrow> if closed s then Some (s\<lparr>phase := Draining (Ok ())\<rparr>) else None)
   | Coalescing es event_count byte_count \<Rightarrow>
       if event_count < max_events batching \<and> byte_count < max_bytes batching then
         if finished s \<noteq> [] then reap k s
         else if deadline s then Some (s\<lparr>phase := Dispatching es\<rparr>)
         else (case input s of
            e # rest \<Rightarrow> Some (s\<lparr>input := rest,
              phase := Coalescing (es @ [e]) (event_count + batch_len (env_batch e))
                (byte_count + batch_bytes (env_batch e))\<rparr>)
          | [] \<Rightarrow> if closed s then Some (s\<lparr>phase := Dispatching es\<rparr>) else None)
       else Some (s\<lparr>phase := Dispatching es\<rparr>)
   | Dispatching es \<Rightarrow>
       if max_concurrent_writes settings \<le> writes_len s then reap k s
       else Some (spawn settings es s)
   | Draining outcome \<Rightarrow>
       if writes_len s = 0 then Some (return_with outcome s) else drain_one k outcome s
   | Returned _ \<Rightarrow> None)"

text \<open>The end of one attempt of the \<open>i\<close>-th running write.\<close>

definition attempt_done ::
  "delivery_settings \<Rightarrow> nat \<Rightarrow> (write_outcome, 'e) result \<Rightarrow> 'e sink_task \<Rightarrow> 'e sink_task" where
  "attempt_done settings i r s =
     (let t = running s ! i; (verdict, m) = after_attempt settings (task_attempt t) r (counters s) in
      case verdict of
        None \<Rightarrow> s\<lparr>counters := m, running := (running s)[i := t\<lparr>task_sleeping := True\<rparr>]\<rparr>
      | Some (Ok outcome) \<Rightarrow>
          complete_all True (task_envelopes t)
            (s\<lparr>counters := m\<lparr>events_out := events_out m + written outcome,
                events_dropped := events_dropped m + dropped outcome,
                batches_written := batches_written m + 1\<rparr>,
              running := remove_nth i (running s), finished := finished s @ [Ok ()]\<rparr>)
      | Some (Err e) \<Rightarrow>
          complete_all False (task_envelopes t)
            (s\<lparr>counters := m, running := remove_nth i (running s), finished := finished s @ [Err e]\<rparr>))"

definition wake :: "delivery_settings \<Rightarrow> nat \<Rightarrow> 'e sink_task \<Rightarrow> 'e sink_task" where
  "wake settings i s =
     (let t = running s ! i in
      s\<lparr>running := (running s)[i := t\<lparr>task_attempt := Suc (task_attempt t),
          task_backoff := next_backoff settings (task_backoff t), task_sleeping := False\<rparr>]\<rparr>)"

definition returned :: "'e sink_task \<Rightarrow> bool" where
  "returned s \<longleftrightarrow> (case phase s of Returned _ \<Rightarrow> True | _ \<Rightarrow> False)"

text \<open>Once \<open>run\<close> has returned, there is no \<open>JoinSet\<close> left to keep the task's result.\<close>

definition attempt_end ::
  "delivery_settings \<Rightarrow> nat \<Rightarrow> (write_outcome, 'e) result \<Rightarrow> 'e sink_task \<Rightarrow> 'e sink_task" where
  "attempt_end settings i r s =
     (if returned s then (attempt_done settings i r s)\<lparr>finished := []\<rparr> else attempt_done settings i r s)"

datatype 'x run_event =
    Push envelope
  | Close
  | Cancel
  | LingerElapsed
  | Attempt nat 'x
  | Wake nat
  | Aborted nat
  | Poll nat

text \<open>
  \<open>wb x batches\<close> is what \<open>write_batches\<close> returns when the destination behaves as \<open>x\<close> says;
  \<open>None\<close> while it has not returned. After \<open>run\<close> has returned, a task that was told to abort
  may still finish the attempt it is executing, and otherwise drops its envelopes.
\<close>

definition run_step ::
  "('x \<Rightarrow> event_batch list \<Rightarrow> (write_outcome, 'e) result option) \<Rightarrow> batch_settings \<Rightarrow>
   delivery_settings \<Rightarrow> usize \<Rightarrow> 'e sink_task \<Rightarrow> 'x run_event \<Rightarrow> 'e sink_task option" where
  "run_step wb batching settings capacity s ev = (case ev of
     Push e \<Rightarrow>
       if \<not> returned s \<and> \<not> closed s \<and> length (input s) < capacity
       then Some (s\<lparr>input := input s @ [e], received := received s @ [e]\<rparr>) else None
   | Close \<Rightarrow> Some (s\<lparr>closed := True\<rparr>)
   | Cancel \<Rightarrow> Some (s\<lparr>cancelled := True\<rparr>)
   | LingerElapsed \<Rightarrow> Some (s\<lparr>deadline := True\<rparr>)
   | Attempt i x \<Rightarrow>
       if i < length (running s) \<and> \<not> task_sleeping (running s ! i) then
         map_option (\<lambda>r. attempt_end settings i r s)
           (wb x (map env_batch (task_envelopes (running s ! i))))
       else None
   | Wake i \<Rightarrow>
       if i < length (running s) \<and> task_sleeping (running s ! i) \<and> \<not> returned s
       then Some (wake settings i s) else None
   | Aborted i \<Rightarrow>
       if i < length (running s) \<and> returned s
       then Some ((complete_all False (task_envelopes (running s ! i)) s)
         \<lparr>running := remove_nth i (running s)\<rparr>) else None
   | Poll k \<Rightarrow> poll batching settings k s)"

section \<open>Deliveries in the trace\<close>

lemma poll_acks:
  assumes "poll batching settings k s = Some t"
  shows "\<exists>es. acks t = acks s @ map (\<lambda>e. (e, False)) es"
proof -
  have reap: "\<exists>es. acks t = acks s @ map (\<lambda>e. (e, False)) es" if "reap k s = Some t"
    using that by (auto simp: reap_def return_with_def complete_all_def Let_def simp del: map_append split: if_splits result.splits)
  show ?thesis
  proof (cases "phase s")
    case Accepting
    with assms reap show ?thesis by (auto simp: poll_def split: if_splits list.splits)
  next
    case (Coalescing es n b)
    with assms reap show ?thesis by (auto simp: poll_def split: if_splits list.splits)
  next
    case (Dispatching es)
    with assms reap show ?thesis by (auto simp: poll_def spawn_def split: if_splits)
  next
    case (Draining q)
    with assms show ?thesis
      by (auto simp: poll_def drain_one_def return_with_def complete_all_def Let_def split: if_splits)
  next
    case (Returned q)
    with assms show ?thesis by (simp add: poll_def)
  qed
qed

lemma attempt_end_acks:
  "acks (attempt_end settings i r s) = acks s @ (case r of
     Ok _ \<Rightarrow> map (\<lambda>e. (e, True)) (task_envelopes (running s ! i))
   | Err _ \<Rightarrow> if task_attempt (running s ! i) < unat (retry_max_attempts settings) then []
       else map (\<lambda>e. (e, False)) (task_envelopes (running s ! i)))"
  by (cases r) (simp_all add: attempt_end_def attempt_done_def after_attempt_def complete_all_def Let_def)

text \<open>The only step that acknowledges an envelope as delivered is a write of its group that returns \<open>Ok\<close>.\<close>

lemma new_delivery:
  assumes "run_step wb batching settings capacity s ev = Some t"
    and "(e, True) \<in> set (acks t)" "(e, True) \<notin> set (acks s)"
  shows "\<exists>i x out. ev = Attempt i x \<and> i < length (running s) \<and> e \<in> set (task_envelopes (running s ! i)) \<and>
    wb x (map env_batch (task_envelopes (running s ! i))) = Some (Ok out)"
proof (cases ev)
  case (Attempt i x)
  with assms(1) obtain r where r: "i < length (running s)" "t = attempt_end settings i r s"
    "wb x (map env_batch (task_envelopes (running s ! i))) = Some r"
    by (auto simp: run_step_def split: if_splits)
  with assms(2,3) Attempt show ?thesis by (cases r) (auto simp: attempt_end_acks split: if_splits)
next
  case (Poll k)
  with assms poll_acks [of batching settings k s t] show ?thesis by (auto simp: run_step_def)
qed (use assms in \<open>auto simp: run_step_def wake_def complete_all_def Let_def split: if_splits\<close>)

lemma delivery_traced:
  assumes "run (run_step wb batching settings capacity) s0 ls = Some s"
    and "(e, True) \<in> set (acks s)" "(e, True) \<notin> set (acks s0)"
  shows "\<exists>ls1 i x ls2 s1 out. ls = ls1 @ Attempt i x # ls2 \<and>
    run (run_step wb batching settings capacity) s0 ls1 = Some s1 \<and> i < length (running s1) \<and>
    e \<in> set (task_envelopes (running s1 ! i)) \<and>
    wb x (map env_batch (task_envelopes (running s1 ! i))) = Some (Ok out)"
  using assms
proof (induction ls arbitrary: s0)
  case (Cons ev ls)
  then obtain s' where s': "run_step wb batching settings capacity s0 ev = Some s'"
    "run (run_step wb batching settings capacity) s' ls = Some s" by (auto split: option.splits)
  show ?case
  proof (cases "(e, True) \<in> set (acks s')")
    case True
    from new_delivery [OF s'(1) True Cons.prems(3)] show ?thesis
      by (elim exE) (rule exI [of _ "[]"], auto)
  next
    case False
    from Cons.IH [OF s'(2) Cons.prems(2) False] obtain ls1 i x ls2 s1 out where
      "ls = ls1 @ Attempt i x # ls2" "run (run_step wb batching settings capacity) s' ls1 = Some s1"
      "i < length (running s1)" "e \<in> set (task_envelopes (running s1 ! i))"
      "wb x (map env_batch (task_envelopes (running s1 ! i))) = Some (Ok out)" by blast
    with s'(1) show ?thesis by (intro exI [of _ "ev # ls1"]) auto
  qed
qed simp

section \<open>The moves of the task\<close>

text \<open>
  The same steps seen from the invariants: one rule per kind of change to the state, with
  the guards that matter. \<open>run_step_move\<close> shows that \<open>run_step\<close> makes no other change.
\<close>

fun active :: "'e run_phase \<Rightarrow> bool" where
  "active Accepting = True"
| "active (Coalescing _ _ _) = True"
| "active (Dispatching _) = True"
| "active _ = False"

definition finish_write :: "bool \<Rightarrow> (unit, 'e) result \<Rightarrow> nat \<Rightarrow> sink_metrics \<Rightarrow> 'e sink_task \<Rightarrow> 'e sink_task" where
  "finish_write d r i m s = s\<lparr>counters := m, running := remove_nth i (running s),
     finished := (if returned s then [] else finished s @ [r]),
     acks := acks s @ map (\<lambda>e. (e, d)) (task_envelopes (running s ! i))\<rparr>"

inductive run_move ::
  "('x \<Rightarrow> event_batch list \<Rightarrow> (write_outcome, 'e) result option) \<Rightarrow> batch_settings \<Rightarrow>
   delivery_settings \<Rightarrow> 'e sink_task \<Rightarrow> 'e sink_task \<Rightarrow> bool"
  for wb batching settings
where
  push: "\<not> returned s \<Longrightarrow> \<not> closed s \<Longrightarrow>
    run_move wb batching settings s (s\<lparr>input := input s @ [e], received := received s @ [e]\<rparr>)"
| signal: "(closed s \<longrightarrow> c) \<Longrightarrow> (cancelled s \<longrightarrow> x) \<Longrightarrow>
    run_move wb batching settings s (s\<lparr>closed := c, cancelled := x, deadline := d\<rparr>)"
| retry: "i < length (running s) \<Longrightarrow> task_attempt (running s ! i) < unat (retry_max_attempts settings) \<Longrightarrow>
    run_move wb batching settings s
      (s\<lparr>counters := (counters s)\<lparr>retries := retries (counters s) + 1\<rparr>,
         running := (running s)[i := (running s ! i)\<lparr>task_sleeping := True\<rparr>],
         finished := (if returned s then [] else finished s)\<rparr>)"
| success: "i < length (running s) \<Longrightarrow>
    wb x (map env_batch (task_envelopes (running s ! i))) = Some (Ok out) \<Longrightarrow>
    run_move wb batching settings s
      (finish_write True (Ok ()) i
        ((counters s)\<lparr>events_out := events_out (counters s) + written out,
          events_dropped := events_dropped (counters s) + dropped out,
          batches_written := batches_written (counters s) + 1\<rparr>) s)"
| failure: "i < length (running s) \<Longrightarrow>
    wb x (map env_batch (task_envelopes (running s ! i))) = Some (Err e) \<Longrightarrow>
    unat (retry_max_attempts settings) \<le> task_attempt (running s ! i) \<Longrightarrow>
    run_move wb batching settings s
      (finish_write False (Err e) i ((counters s)\<lparr>write_errors := write_errors (counters s) + 1\<rparr>) s)"
| awake: "i < length (running s) \<Longrightarrow> task_sleeping (running s ! i) \<Longrightarrow> \<not> returned s \<Longrightarrow>
    run_move wb batching settings s (wake settings i s)"
| abort: "i < length (running s) \<Longrightarrow> returned s \<Longrightarrow>
    run_move wb batching settings s
      (s\<lparr>acks := acks s @ map (\<lambda>e. (e, False)) (task_envelopes (running s ! i)),
         running := remove_nth i (running s)\<rparr>)"
| stop_accepting: "phase s = Accepting \<Longrightarrow> cancelled s \<or> closed s \<and> input s = [] \<Longrightarrow>
    run_move wb batching settings s (s\<lparr>phase := Draining (Ok ())\<rparr>)"
| reap_ok: "active (phase s) \<Longrightarrow> k < length (finished s) \<Longrightarrow> finished s ! k = Ok () \<Longrightarrow>
    run_move wb batching settings s (s\<lparr>finished := remove_nth k (finished s)\<rparr>)"
| reap_err: "active (phase s) \<Longrightarrow> k < length (finished s) \<Longrightarrow> finished s ! k = Err e \<Longrightarrow>
    run_move wb batching settings s
      (s\<lparr>acks := acks s @ map (\<lambda>e. (e, False)) (held (phase s) @ input s),
         phase := Returned (Err e), input := [], finished := []\<rparr>)"
| first: "phase s = Accepting \<Longrightarrow> input s = e # es \<Longrightarrow>
    run_move wb batching settings s (s\<lparr>input := es, deadline := False,
      phase := Coalescing [e] (batch_len (env_batch e)) (batch_bytes (env_batch e))\<rparr>)"
| more: "phase s = Coalescing es n b \<Longrightarrow> n < max_events batching \<Longrightarrow> b < max_bytes batching \<Longrightarrow>
    input s = e # rest \<Longrightarrow>
    run_move wb batching settings s (s\<lparr>input := rest,
      phase := Coalescing (es @ [e]) (n + batch_len (env_batch e)) (b + batch_bytes (env_batch e))\<rparr>)"
| full: "phase s = Coalescing es n b \<Longrightarrow>
    run_move wb batching settings s (s\<lparr>phase := Dispatching es\<rparr>)"
| dispatch: "phase s = Dispatching es \<Longrightarrow> writes_len s < max_concurrent_writes settings \<Longrightarrow>
    run_move wb batching settings s (spawn settings es s)"
| drain: "phase s = Draining outcome \<Longrightarrow> k < length (finished s) \<Longrightarrow>
    run_move wb batching settings s (s\<lparr>finished := remove_nth k (finished s),
      phase := Draining (if \<not> is_ok (finished s ! k) \<and> is_ok outcome then finished s ! k else outcome)\<rparr>)"
| finish: "phase s = Draining outcome \<Longrightarrow> running s = [] \<Longrightarrow> finished s = [] \<Longrightarrow>
    run_move wb batching settings s
      (s\<lparr>acks := acks s @ map (\<lambda>e. (e, False)) (input s), phase := Returned outcome, input := [],
         finished := []\<rparr>)"

lemma reap_move:
  assumes "reap k s = Some t" "active (phase s)"
  shows "run_move wb batching settings s t"
proof (cases "finished s ! k")
  case (Ok u)
  with assms run_move.reap_ok [of s k] show ?thesis by (auto simp: reap_def split: if_splits)
next
  case (Err e)
  with assms run_move.reap_err [of s k] show ?thesis
    by (auto simp: reap_def return_with_def complete_all_def split: if_splits)
qed

lemma poll_move:
  assumes "poll batching settings k s = Some t"
  shows "run_move wb batching settings s t"
proof (cases "phase s")
  case Accepting
  with assms show ?thesis
    by (auto simp: poll_def reap_move intro: run_move.first run_move.stop_accepting
      split: if_splits list.splits)
next
  case (Coalescing es n b)
  with assms show ?thesis
    by (auto simp: poll_def reap_move intro: run_move.more run_move.full split: if_splits list.splits)
next
  case (Dispatching es)
  with assms show ?thesis
    by (auto simp: poll_def reap_move intro: run_move.dispatch split: if_splits)
next
  case (Draining outcome)
  show ?thesis
  proof (cases "writes_len s = 0")
    case True
    with Draining assms run_move.finish [OF Draining] show ?thesis
      by (auto simp: poll_def return_with_def complete_all_def writes_len_def)
  next
    case False
    with Draining assms have "drain_one k outcome s = Some t" by (simp add: poll_def)
    then have k: "k < length (finished s)" and "t = the (drain_one k outcome s)"
      by (auto simp: drain_one_def split: if_splits)
    with run_move.drain [OF Draining k, of wb batching settings] show ?thesis
      by (simp add: drain_one_def Let_def)
  qed
qed (use assms in \<open>simp add: poll_def\<close>)

lemma attempt_move:
  assumes i: "i < length (running s)"
    and w: "wb x (map env_batch (task_envelopes (running s ! i))) = Some r"
  shows "run_move wb batching settings s (attempt_end settings i r s)"
proof (cases r)
  case (Ok out)
  have "attempt_end settings i r s =
      finish_write True (Ok ()) i ((counters s)\<lparr>events_out := events_out (counters s) + written out,
          events_dropped := events_dropped (counters s) + dropped out,
          batches_written := batches_written (counters s) + 1\<rparr>) s"
    by (rule sink_task.equality)
      (simp_all add: attempt_end_def attempt_done_def after_attempt_def complete_all_def finish_write_def Ok)
  with run_move.success [where wb = wb, OF i] w Ok show ?thesis by simp
next
  case (Err e)
  show ?thesis
  proof (cases "task_attempt (running s ! i) < unat (retry_max_attempts settings)")
    case True
    with Err run_move.retry [OF i True] show ?thesis
      by (cases "returned s") (simp_all add: attempt_end_def attempt_done_def after_attempt_def)
  next
    case False
    have "attempt_end settings i r s =
        finish_write False (Err e) i ((counters s)\<lparr>write_errors := write_errors (counters s) + 1\<rparr>) s"
      by (rule sink_task.equality)
        (simp_all add: attempt_end_def attempt_done_def after_attempt_def complete_all_def finish_write_def Err False)
    with run_move.failure [where wb = wb, OF i] w Err False show ?thesis by simp
  qed
qed

lemma run_step_move:
  assumes "run_step wb batching settings capacity s ev = Some t"
  shows "run_move wb batching settings s t"
proof (cases ev)
  case (Push e)
  with assms show ?thesis by (auto simp: run_step_def intro: run_move.push split: if_splits)
next
  case Close
  with assms run_move.signal [of s True "cancelled s" wb batching settings "deadline s"] show ?thesis
    by (auto simp: run_step_def)
next
  case Cancel
  with assms run_move.signal [of s "closed s" True wb batching settings "deadline s"] show ?thesis
    by (auto simp: run_step_def)
next
  case LingerElapsed
  with assms run_move.signal [of s "closed s" "cancelled s" wb batching settings True] show ?thesis
    by (auto simp: run_step_def)
next
  case (Attempt i x)
  with assms show ?thesis by (auto simp: run_step_def attempt_move split: if_splits)
next
  case (Wake i)
  with assms show ?thesis by (auto simp: run_step_def intro: run_move.awake split: if_splits)
next
  case (Aborted i)
  with assms run_move.abort [of i s] show ?thesis
    by (auto simp: run_step_def complete_all_def split: if_splits)
next
  case (Poll k)
  with assms show ?thesis by (auto simp: run_step_def poll_move)
qed

section \<open>Invariants of the task\<close>

named_theorems move_simps \<open>what the compound updates of a move do to each field\<close>

lemma finish_write_fields [move_simps]:
  "phase (finish_write d r i m s) = phase s" "input (finish_write d r i m s) = input s"
  "closed (finish_write d r i m s) = closed s" "cancelled (finish_write d r i m s) = cancelled s"
  "running (finish_write d r i m s) = remove_nth i (running s)" "counters (finish_write d r i m s) = m"
  "finished (finish_write d r i m s) = (if returned s then [] else finished s @ [r])"
  "acks (finish_write d r i m s) = acks s @ map (\<lambda>e. (e, d)) (task_envelopes (running s ! i))"
  "received (finish_write d r i m s) = received s" "dispatched (finish_write d r i m s) = dispatched s"
  by (simp_all add: finish_write_def)

lemma wake_fields [move_simps]:
  "phase (wake c i s) = phase s" "input (wake c i s) = input s" "closed (wake c i s) = closed s"
  "cancelled (wake c i s) = cancelled s" "finished (wake c i s) = finished s"
  "counters (wake c i s) = counters s" "acks (wake c i s) = acks s"
  "received (wake c i s) = received s" "dispatched (wake c i s) = dispatched s"
  "running (wake c i s) = (running s)[i := (running s ! i)\<lparr>task_attempt := Suc (task_attempt (running s ! i)),
     task_backoff := next_backoff c (task_backoff (running s ! i)), task_sleeping := False\<rparr>]"
  by (simp_all add: wake_def Let_def)

lemma spawn_fields [move_simps]:
  "phase (spawn c es s) = Accepting" "input (spawn c es s) = input s" "closed (spawn c es s) = closed s"
  "cancelled (spawn c es s) = cancelled s" "finished (spawn c es s) = finished s"
  "acks (spawn c es s) = acks s" "received (spawn c es s) = received s"
  "dispatched (spawn c es s) = dispatched s @ [es]"
  "counters (spawn c es s) = (counters s)\<lparr>queue_depth := of_nat (length (input s))\<rparr>"
  "running (spawn c es s) = running s @ [\<lparr>task_envelopes = es, task_attempt = 1,
     task_backoff = retry_initial_backoff c, task_sleeping = False\<rparr>]"
  by (simp_all add: spawn_def)

lemma returned_fields [move_simps]:
  "returned (finish_write d r i m s) = returned s" "returned (wake c i s) = returned s"
  "\<not> returned (spawn c es s)"
  by (simp_all add: returned_def move_simps)

lemma returned_iff: "returned s \<longleftrightarrow> (\<exists>r. phase s = Returned r)"
  by (auto simp: returned_def split: run_phase.splits)

definition in_writes :: "write_task list \<Rightarrow> envelope list" where
  "in_writes ts = concat (map task_envelopes ts)"

lemma in_writes_simps [simp]:
  "in_writes [] = []" "in_writes (ts @ us) = in_writes ts @ in_writes us"
  "in_writes (t # ts) = task_envelopes t @ in_writes ts"
  by (simp_all add: in_writes_def)

lemma in_writes_remove:
  "i < length ts \<Longrightarrow> mset (in_writes ts) = mset (task_envelopes (ts ! i)) + mset (in_writes (remove_nth i ts))"
  by (subst id_take_nth_drop [of i ts]) (simp_all add: remove_nth_def)

lemma in_writes_update:
  "i < length ts \<Longrightarrow> task_envelopes t = task_envelopes (ts ! i) \<Longrightarrow> in_writes (ts[i := t]) = in_writes ts"
  unfolding in_writes_def by (metis list_update_id map_update)

text \<open>No envelope is lost or completed twice.\<close>

definition conserved :: "'e sink_task \<Rightarrow> bool" where
  "conserved s \<longleftrightarrow> mset (received s) =
     mset (map fst (acks s)) + mset (held (phase s)) + mset (input s) + mset (in_writes (running s))"

lemma conserved_move:
  "run_move wb batching settings s t \<Longrightarrow> conserved s \<Longrightarrow> conserved t"
  by (induction rule: run_move.induct)
    (simp_all add: conserved_def move_simps in_writes_remove in_writes_update comp_def)

text \<open>At most \<open>max_concurrent_writes\<close> writes exist at any time.\<close>

definition within_slots :: "delivery_settings \<Rightarrow> 'e sink_task \<Rightarrow> bool" where
  "within_slots settings s \<longleftrightarrow> writes_len s \<le> max_concurrent_writes settings"

lemma within_slots_move:
  "run_move wb batching settings s t \<Longrightarrow> within_slots settings s \<Longrightarrow> within_slots settings t"
  by (induction rule: run_move.induct) (auto simp: within_slots_def writes_len_def move_simps)

text \<open>Groups are dispatched in the order the envelopes arrived.\<close>

definition fifo :: "'e sink_task \<Rightarrow> bool" where
  "fifo s \<longleftrightarrow> (\<exists>rest. received s = concat (dispatched s) @ held (phase s) @ input s @ rest \<and>
     (returned s \<or> rest = []))"

lemma fifo_move: "run_move wb batching settings s t \<Longrightarrow> fifo s \<Longrightarrow> fifo t"
  by (induction rule: run_move.induct) (auto simp: fifo_def move_simps returned_iff)

text \<open>A group stops growing as soon as it reaches one of the batch limits.\<close>

definition group_events :: "envelope list \<Rightarrow> usize" where
  "group_events g = sum_list (map (batch_len \<circ> env_batch) g)"

definition group_bytes :: "envelope list \<Rightarrow> usize" where
  "group_bytes g = sum_list (map (batch_bytes \<circ> env_batch) g)"

definition fits :: "batch_settings \<Rightarrow> envelope list \<Rightarrow> bool" where
  "fits batching g \<longleftrightarrow> g \<noteq> [] \<and> (butlast g = [] \<or>
     group_events (butlast g) < max_events batching \<and> group_bytes (butlast g) < max_bytes batching)"

fun phase_fits :: "batch_settings \<Rightarrow> 'e run_phase \<Rightarrow> bool" where
  "phase_fits batching (Coalescing g n b) \<longleftrightarrow> fits batching g \<and> n = group_events g \<and> b = group_bytes g"
| "phase_fits batching (Dispatching g) \<longleftrightarrow> fits batching g"
| "phase_fits batching _ \<longleftrightarrow> True"

definition grouped :: "batch_settings \<Rightarrow> 'e sink_task \<Rightarrow> bool" where
  "grouped batching s \<longleftrightarrow> list_all (fits batching) (dispatched s) \<and> phase_fits batching (phase s)"

lemma grouped_move: "run_move wb batching settings s t \<Longrightarrow> grouped batching s \<Longrightarrow> grouped batching t"
  by (induction rule: run_move.induct)
    (auto simp: grouped_def move_simps fits_def group_events_def group_bytes_def)

text \<open>Every running write is within its attempts, so the retry loop cannot fall through.\<close>

definition task_ok :: "delivery_settings \<Rightarrow> write_task \<Rightarrow> bool" where
  "task_ok settings t \<longleftrightarrow> 1 \<le> task_attempt t \<and> task_attempt t \<le> unat (retry_max_attempts settings) \<and>
     (task_sleeping t \<longrightarrow> task_attempt t < unat (retry_max_attempts settings)) \<and>
     task_backoff t \<le> max (retry_initial_backoff settings) (retry_max_backoff settings)"

definition tasks_ok :: "delivery_settings \<Rightarrow> 'e sink_task \<Rightarrow> bool" where
  "tasks_ok settings s \<longleftrightarrow> 1 \<le> unat (retry_max_attempts settings) \<longrightarrow> list_all (task_ok settings) (running s)"

lemma task_ok_changes:
  "1 \<le> unat (retry_max_attempts c) \<Longrightarrow>
     task_ok c \<lparr>task_envelopes = es, task_attempt = 1, task_backoff = retry_initial_backoff c, task_sleeping = False\<rparr>"
  "task_ok c t \<Longrightarrow> task_attempt t < unat (retry_max_attempts c) \<Longrightarrow> task_ok c (t\<lparr>task_sleeping := True\<rparr>)"
  "task_ok c t \<Longrightarrow> task_sleeping t \<Longrightarrow> task_ok c (t\<lparr>task_attempt := Suc (task_attempt t),
     task_backoff := next_backoff c (task_backoff t), task_sleeping := False\<rparr>)"
  by (auto simp: task_ok_def next_backoff_def)

lemma tasks_ok_move: "run_move wb batching settings s t \<Longrightarrow> tasks_ok settings s \<Longrightarrow> tasks_ok settings t"
  by (induction rule: run_move.induct)
    (auto simp: tasks_ok_def move_simps list_all_length [THEN iffD1]
      intro!: list_all_update list_all_remove_nth task_ok_changes [simplified])

text \<open>Every write works on a group that was dispatched.\<close>

definition writes_dispatched :: "'e sink_task \<Rightarrow> bool" where
  "writes_dispatched s \<longleftrightarrow> task_envelopes ` set (running s) \<subseteq> set (dispatched s)"

lemma writes_dispatched_move:
  "run_move wb batching settings s t \<Longrightarrow> writes_dispatched s \<Longrightarrow> writes_dispatched t"
proof (induction rule: run_move.induct)
  case (success i s x out)
  then show ?case
    using set_remove_nth [of i "running s"] unfolding writes_dispatched_def by (auto simp: move_simps)
next
  case (failure i s x e)
  then show ?case
    using set_remove_nth [of i "running s"] unfolding writes_dispatched_def by (auto simp: move_simps)
next
  case (abort i s)
  then show ?case
    using set_remove_nth [of i "running s"] unfolding writes_dispatched_def by auto
next
  case (retry i s)
  then show ?case
    unfolding writes_dispatched_def by (auto simp: image_subset_iff dest: set_update_subset_insert [THEN subsetD])
next
  case (awake i s)
  then show ?case unfolding writes_dispatched_def
    by (auto simp: move_simps image_subset_iff dest: set_update_subset_insert [THEN subsetD])
qed (auto simp: writes_dispatched_def move_simps)

text \<open>A failed write is never forgotten: until \<open>run\<close> returns the error it is on its way there.\<close>

definition failure_seen :: "'e sink_task \<Rightarrow> bool" where
  "failure_seen s \<longleftrightarrow> (\<exists>e. Err e \<in> set (finished s) \<or> phase s = Draining (Err e) \<or> phase s = Returned (Err e))"

definition delivered_of :: "(envelope \<times> bool) list \<Rightarrow> envelope list" where
  "delivered_of as = map fst (filter snd as)"

lemma delivered_of_simps [simp]:
  "delivered_of [] = []" "delivered_of (as @ bs) = delivered_of as @ delivered_of bs"
  "delivered_of (map (\<lambda>e. (e, True)) es) = es" "delivered_of (map (\<lambda>e. (e, False)) es) = []"
  by (induction es) (auto simp: delivered_of_def)

definition accountable :: "'e sink_task \<Rightarrow> bool" where
  "accountable s \<longleftrightarrow>
     (failure_seen s \<or> mset (concat (dispatched s)) =
        mset (delivered_of (acks s)) + mset (in_writes (running s))) \<and>
     ((\<exists>r. phase s = Draining r) \<longrightarrow> cancelled s \<or> closed s \<and> input s = []) \<and>
     (returned s \<longrightarrow> finished s = [] \<and> input s = []) \<and>
     (phase s = Returned (Ok ()) \<longrightarrow> running s = [] \<and> (cancelled s \<or> received s = concat (dispatched s)))"

lemma accountable_returned_ok:
  assumes "accountable s" "phase s = Returned (Ok ())"
  shows "mset (concat (dispatched s)) = mset (delivered_of (acks s))"
    and "running s = []" and "cancelled s \<or> received s = concat (dispatched s)"
  using assms by (auto simp: accountable_def failure_seen_def returned_iff)

lemma accountable_aborting:
  assumes "accountable s" "returned s" "i < length (running s)"
  obtains e where "phase s = Returned (Err e)"
proof -
  from assms(2) obtain r where "phase s = Returned r" by (auto simp: returned_iff)
  with assms that show thesis by (cases r) (auto simp: accountable_def)
qed

lemma drain_keeps_failure:
  assumes "phase s = Draining outcome" "k < length (finished s)"
  shows "failure_seen (s\<lparr>finished := remove_nth k (finished s),
      phase := Draining (if \<not> is_ok (finished s ! k) \<and> is_ok outcome then finished s ! k else outcome)\<rparr>)
    \<longleftrightarrow> failure_seen s"
  using assms mem_remove_nth [OF assms(2)] set_remove_nth [of k "finished s"] nth_mem [OF assms(2)]
  by (cases outcome; cases "finished s ! k") (auto simp: failure_seen_def)

lemma accountable_move:
  "run_move wb batching settings s t \<Longrightarrow> fifo s \<Longrightarrow> accountable s \<Longrightarrow> accountable t"
proof (induction rule: run_move.induct)
  case (success i s x out)
  have "failure_seen s \<Longrightarrow> failure_seen (finish_write True (Ok ()) i m s)" for m
  proof (cases "returned s")
    case True
    from accountable_aborting [OF success.prems(2) True success.hyps(1)] obtain e where
      "phase s = Returned (Err e)" .
    then show ?thesis by (auto simp: failure_seen_def move_simps)
  qed (auto simp: failure_seen_def move_simps)
  with success in_writes_remove [OF success.hyps(1)] show ?case
    by (auto simp: accountable_def move_simps)
next
  case (failure i s x e)
  show ?case
  proof (cases "returned s")
    case True
    from accountable_aborting [OF failure.prems(2) True failure.hyps(1)] obtain e' where
      "phase s = Returned (Err e')" .
    then show ?thesis using failure.prems by (auto simp: accountable_def failure_seen_def move_simps)
  next
    case False
    with failure.prems show ?thesis
      by (simp add: accountable_def failure_seen_def move_simps returned_iff) blast
  qed
next
  case (abort i s)
  from accountable_aborting [OF abort.prems(2) abort.hyps(2,1)] obtain e where
    "phase s = Returned (Err e)" .
  with abort.prems show ?case by (simp add: accountable_def failure_seen_def returned_iff)
next
  case (drain s outcome k)
  from drain_keeps_failure [OF drain.hyps] drain show ?case by (simp add: accountable_def returned_iff)
next
  case (reap_ok s k)
  then show ?case
    using mem_remove_nth [of k "finished s"] set_remove_nth [of k "finished s"]
    by (auto simp: accountable_def failure_seen_def returned_iff)
next
  case (finish s outcome)
  then show ?case by (auto simp: accountable_def failure_seen_def fifo_def returned_iff)
qed (auto simp: accountable_def failure_seen_def move_simps in_writes_update returned_iff)

text \<open>The invariants hold of every state the step system reaches.\<close>

definition run_inv :: "batch_settings \<Rightarrow> delivery_settings \<Rightarrow> 'e sink_task \<Rightarrow> bool" where
  "run_inv batching settings s \<longleftrightarrow>
     conserved s \<and> within_slots settings s \<and> fifo s \<and> grouped batching s \<and> tasks_ok settings s \<and>
     writes_dispatched s \<and> accountable s"

lemma run_inv_move:
  "run_move wb batching settings s t \<Longrightarrow> run_inv batching settings s \<Longrightarrow> run_inv batching settings t"
  unfolding run_inv_def
  using conserved_move within_slots_move fifo_move grouped_move tasks_ok_move writes_dispatched_move
    accountable_move by metis

interpretation sink_run: step_invariant
  "run_step wb batching settings capacity" "run_inv batching settings"
  for wb batching settings capacity
  by unfold_locales (drule run_step_move, erule (1) run_inv_move)

lemma run_start_inv: "run_inv batching settings run_start"
  by (simp add: run_inv_def run_start_def conserved_def within_slots_def writes_len_def fifo_def
    grouped_def tasks_ok_def writes_dispatched_def accountable_def)

lemmas run_reachable = sink_run.run_keeps [OF run_start_inv]

section \<open>Accounting through the sink interface\<close>

text \<open>
  What the runtime's counters rely on of a \<open>Sink\<close>: a successful \<open>write_batches\<close> accounts for
  every event of the group, as written or as dropped.
\<close>

locale sink_contract =
  fixes wb :: "'x \<Rightarrow> event_batch list \<Rightarrow> (write_outcome, 'e) result option"
  assumes accounts: "wb x bs = Some (Ok out) \<Longrightarrow>
    written out + dropped out = of_nat (length (flat_events bs))"
begin

definition counted :: "'e sink_task \<Rightarrow> bool" where
  "counted s \<longleftrightarrow> events_out (counters s) + events_dropped (counters s) =
     of_nat (group_events (delivered_of (acks s)))"

lemma group_events_length: "group_events g = length (flat_events (map env_batch g))"
  by (simp add: group_events_def length_flat_events comp_def)

lemma counted_move: "run_move wb batching settings s t \<Longrightarrow> counted s \<Longrightarrow> counted t"
proof (induction rule: run_move.induct)
  case (success i s x out)
  from accounts [OF success.hyps(2)] success.prems show ?case
    by (simp add: counted_def move_simps group_events_length [symmetric] group_events_def algebra_simps)
qed (simp_all add: counted_def move_simps)

sublocale counting: step_invariant "run_step wb batching settings capacity" counted
  for batching settings capacity
  by unfold_locales (blast intro: counted_move run_step_move)

lemma run_counts:
  assumes "run (run_step wb batching settings capacity) run_start ls = Some s"
  shows "events_out (counters s) + events_dropped (counters s) =
    of_nat (group_events (delivered_of (acks s)))"
proof -
  have "counted run_start"
    by (simp add: counted_def run_start_def SinkMetrics_default_def group_events_def)
  from counting.run_keeps [OF this assms] show ?thesis by (simp add: counted_def)
qed

text \<open>
  When the task returns without error, the counters account for every event that was
  dispatched, and for every event received if the sink was not cancelled.
\<close>

lemma run_counts_everything:
  assumes "run (run_step wb batching settings capacity) run_start ls = Some s"
    and "phase s = Returned (Ok ())" "\<not> cancelled s"
  shows "events_out (counters s) + events_dropped (counters s) = of_nat (group_events (received s))"
proof -
  from run_reachable [OF assms(1)] have "accountable s" by (simp add: run_inv_def)
  from accountable_returned_ok [OF this assms(2)] assms(3)
  have "mset (delivered_of (acks s)) = mset (received s)" by simp
  then have "group_events (delivered_of (acks s)) = group_events (received s)"
    unfolding group_events_def by (metis mset_map sum_mset_sum_list)
  with run_counts [OF assms(1)] show ?thesis by simp
qed

end

section \<open>Shutdown makes progress\<close>

definition task_rank :: "delivery_settings \<Rightarrow> write_task \<Rightarrow> nat" where
  "task_rank settings t = 2 * (unat (retry_max_attempts settings) - task_attempt t) +
     (if task_sleeping t then 2 else 3)"

definition new_task_rank :: "delivery_settings \<Rightarrow> nat" where
  "new_task_rank settings = 2 * (unat (retry_max_attempts settings) - 1) + 3"

fun phase_rank :: "delivery_settings \<Rightarrow> bool \<Rightarrow> 'e run_phase \<Rightarrow> nat" where
  "phase_rank settings d (Returned _) = 0"
| "phase_rank settings d (Draining _) = 1"
| "phase_rank settings d Accepting = 2"
| "phase_rank settings d (Dispatching _) = new_task_rank settings + 3"
| "phase_rank settings d (Coalescing _ _ _) = new_task_rank settings + (if d then 4 else 5)"

definition run_rank :: "delivery_settings \<Rightarrow> 'e sink_task \<Rightarrow> nat" where
  "run_rank settings s = sum_list (map (task_rank settings) (running s)) + length (finished s) +
     phase_rank settings (deadline s) (phase s)"

lemma task_rank_pos: "2 \<le> task_rank settings t"
  by (simp add: task_rank_def)

lemma ranks_remove:
  "i < length ts \<Longrightarrow> sum_list (map f ts) = f (ts ! i) + sum_list (map f (remove_nth i ts))"
  for f :: "_ \<Rightarrow> nat"
  by (subst id_take_nth_drop [of i ts]) (simp_all add: remove_nth_def)

lemma ranks_update:
  assumes "i < length ts" "f t < f (ts ! i)"
  shows "sum_list (map f (ts[i := t])) < sum_list (map (f :: _ \<Rightarrow> nat) ts)"
  using assms by (simp add: upd_conv_take_nth_drop, subst (2) id_take_nth_drop [of i ts]) simp_all

lemma attempt_progress:
  assumes "i < length (running s)" "task_ok settings (running s ! i)" "\<not> task_sleeping (running s ! i)"
  shows "run_rank settings (attempt_end settings i r s) < run_rank settings s"
proof -
  let ?t = "running s ! i"
  note removed = ranks_remove [OF assms(1), of "task_rank settings"] task_rank_pos [of settings ?t]
  show ?thesis
  proof (cases "after_attempt settings (task_attempt ?t) r (counters s)")
    case (Pair verdict m)
    show ?thesis
    proof (cases verdict)
      case None
      have "task_rank settings (?t\<lparr>task_sleeping := True\<rparr>) < task_rank settings ?t"
        using assms(3) by (simp add: task_rank_def)
      from ranks_update [OF assms(1) this] None Pair show ?thesis
        by (simp add: attempt_end_def attempt_done_def run_rank_def)
    next
      case (Some r')
      with Pair removed show ?thesis
        by (cases r') (simp_all add: attempt_end_def attempt_done_def complete_all_def run_rank_def)
    qed
  qed
qed

lemma wake_progress:
  assumes "i < length (running s)" "task_ok settings (running s ! i)" "task_sleeping (running s ! i)"
  shows "run_rank settings (wake settings i s) < run_rank settings s"
proof -
  let ?t = "running s ! i"
  have "task_rank settings (?t\<lparr>task_attempt := Suc (task_attempt ?t),
      task_backoff := next_backoff settings (task_backoff ?t), task_sleeping := False\<rparr>) < task_rank settings ?t"
    using assms(2,3) by (simp add: task_rank_def task_ok_def) linarith
  from ranks_update [OF assms(1) this] show ?thesis
    by (simp add: wake_def run_rank_def Let_def)
qed

lemma task_progress:
  assumes inv: "run_inv batching settings s" and max: "1 \<le> unat (retry_max_attempts settings)"
    and answers: "\<And>bs. \<exists>x r. wb x bs = Some r" and "running s \<noteq> []"
  shows "\<exists>ev t. run_step wb batching settings capacity s ev = Some t \<and>
    run_rank settings t < run_rank settings s \<and> cancelled t = cancelled s"
proof -
  let ?t = "running s ! 0"
  have i: "0 < length (running s)" using assms(4) by simp
  have ok: "task_ok settings ?t"
    using inv max i by (simp add: run_inv_def tasks_ok_def list_all_length)
  consider "returned s" | "\<not> returned s" "task_sleeping ?t" | "\<not> returned s" "\<not> task_sleeping ?t" by blast
  then show ?thesis
  proof cases
    case 1
    with i ranks_remove [OF i, of "task_rank settings"] task_rank_pos [of settings ?t] show ?thesis
      by (intro exI [of _ "Aborted 0"]) (simp add: run_step_def complete_all_def run_rank_def)
  next
    case 2
    with i wake_progress [OF i ok] show ?thesis
      by (intro exI [of _ "Wake 0"]) (simp add: run_step_def move_simps)
  next
    case 3
    from answers obtain x r where "wb x (map env_batch (task_envelopes ?t)) = Some r" by blast
    moreover have "cancelled (attempt_end settings 0 r s) = cancelled s"
      by (auto simp: attempt_end_def attempt_done_def complete_all_def Let_def
        split: prod.splits option.splits result.splits)
    ultimately show ?thesis using 3 i attempt_progress [OF i ok] assms(4)
      by (intro exI [of _ "Attempt 0 x"]) (simp add: run_step_def)
  qed
qed

lemma reap_progress:
  assumes "finished s \<noteq> []" "active (phase s)"
  shows "\<exists>t. reap 0 s = Some t \<and> run_rank settings t < run_rank settings s \<and> cancelled t = cancelled s"
proof (cases "finished s ! 0")
  case (Ok u)
  with assms show ?thesis by (auto simp: reap_def run_rank_def)
next
  case (Err e)
  with assms show ?thesis
    by (auto simp: reap_def run_rank_def return_with_def complete_all_def)
qed

lemma poll_progress:
  assumes "cancelled s" "phase s = Accepting \<or> finished s \<noteq> [] \<and> \<not> returned s \<or>
    (\<exists>es n b. phase s = Coalescing es n b) \<and> deadline s \<or>
    (\<exists>es. phase s = Dispatching es) \<and> writes_len s < max_concurrent_writes settings \<or>
    (\<exists>r. phase s = Draining r) \<and> writes_len s = 0"
  shows "\<exists>t. poll batching settings 0 s = Some t \<and> run_rank settings t < run_rank settings s \<and> cancelled t"
proof (cases "phase s")
  case Accepting
  with assms show ?thesis by (simp add: poll_def run_rank_def)
next
  case (Coalescing es n b)
  show ?thesis
  proof (cases "n < max_events batching \<and> b < max_bytes batching")
    case True
    show ?thesis
    proof (cases "finished s = []")
      case False
      with Coalescing True reap_progress [OF False, of settings] assms(1) show ?thesis
        by (simp add: poll_def)
    next
      case empty: True
      then have "deadline s" using assms Coalescing by simp
      with empty Coalescing True assms(1) show ?thesis by (simp add: poll_def run_rank_def)
    qed
  next
    case False
    then have "poll batching settings 0 s = Some (s\<lparr>phase := Dispatching es\<rparr>)"
      using Coalescing by (auto simp: poll_def)
    with Coalescing assms(1) show ?thesis by (simp add: run_rank_def)
  qed
next
  case (Dispatching es)
  show ?thesis
  proof (cases "writes_len s < max_concurrent_writes settings")
    case True
    with Dispatching assms(1) show ?thesis
      by (simp add: poll_def run_rank_def spawn_def task_rank_def new_task_rank_def)
  next
    case False
    with Dispatching assms reap_progress [of s settings] show ?thesis by (simp add: poll_def)
  qed
next
  case (Draining r)
  with assms show ?thesis
    by (auto simp: poll_def run_rank_def return_with_def complete_all_def drain_one_def Let_def
      writes_len_def)
qed (use assms in \<open>simp add: returned_iff\<close>)

lemma shutdown_progress:
  assumes inv: "run_inv batching settings s" and s: "cancelled s" "\<not> (returned s \<and> running s = [])"
    and min: "1 \<le> unat (retry_max_attempts settings)" "1 \<le> max_concurrent_writes settings"
    and answers: "\<And>bs. \<exists>x r. wb x bs = Some r"
  shows "\<exists>ev t. run_step wb batching settings capacity s ev = Some t \<and>
    run_rank settings t < run_rank settings s \<and> cancelled t"
proof -
  have polls: ?thesis if "\<exists>t. poll batching settings 0 s = Some t \<and> run_rank settings t < run_rank settings s \<and> cancelled t"
    using that by (intro exI [of _ "Poll 0"]) (simp add: run_step_def)
  consider (writes) "running s \<noteq> []" | (reap) "running s = []" "finished s \<noteq> []" "\<not> returned s"
    | (timer) "running s = []" "\<exists>es n b. phase s = Coalescing es n b" "\<not> deadline s"
    | (idle) "running s = []" "finished s = []" "\<not> returned s" "(\<exists>es n b. phase s = Coalescing es n b) \<longrightarrow> deadline s"
    using s(2) by (cases "phase s") (auto simp: returned_iff)
  then show ?thesis
  proof cases
    case writes
    from task_progress [where wb = wb, OF inv min(1) answers this] s(1) show ?thesis by metis
  next
    case timer
    then show ?thesis using s(1)
      by (intro exI [of _ LingerElapsed]) (auto simp: run_step_def run_rank_def)
  next
    case reap
    with s(1) show ?thesis by (intro polls poll_progress) simp_all
  next
    case idle
    with s min(2) show ?thesis
      by (intro polls poll_progress, simp, cases "phase s") (auto simp: writes_len_def returned_iff)
  qed
qed

lemma shutdown_finishes:
  assumes "run_inv batching settings s" "cancelled s"
    and "1 \<le> unat (retry_max_attempts settings)" "1 \<le> max_concurrent_writes settings"
    and "\<And>bs. \<exists>x r. wb x bs = Some r"
  shows "\<exists>ls t. length ls \<le> run_rank settings s \<and>
    run (run_step wb batching settings capacity) s ls = Some t \<and> returned t \<and> running t = []"
  using assms(1,2)
proof (induction "run_rank settings s" arbitrary: s rule: less_induct)
  case less
  show ?case
  proof (cases "returned s \<and> running s = []")
    case True
    then show ?thesis by (intro exI [of _ "[]"] exI [of _ s]) simp
  next
    case False
    from shutdown_progress [where wb = wb and capacity = capacity, OF less.prems False assms(3-5)] obtain ev u where
      u: "run_step wb batching settings capacity s ev = Some u" "run_rank settings u < run_rank settings s"
        "cancelled u" by blast
    from less.hyps [OF u(2) sink_run.step_keeps [OF less.prems(1) u(1)] u(3)] obtain ls t where
      "length ls \<le> run_rank settings u" "run (run_step wb batching settings capacity) u ls = Some t"
      "returned t" "running t = []" by blast
    with u show ?thesis by (intro exI [of _ "ev # ls"] exI [of _ t]) simp
  qed
qed

lemmas run_exec = run_step_def poll_def reap_def spawn_def attempt_end_def attempt_done_def
  after_attempt_def complete_all_def return_with_def drain_one_def returned_def writes_len_def
  remove_nth_def run_start_def batch_len_def

section \<open>Properties\<close>

text \<open>
  C20: \<open>write_with_retry\<close> returns the result of the first attempt that succeeds, or of the last
  attempt allowed: with \<open>k\<close> the number of failed attempts before it, \<open>retries\<close> grows by \<open>k\<close>,
  \<open>write_errors\<close> by one only if the final result is an error, and the sleeps are the
  initial backoff doubled each time and capped.
\<close>

theorem write_with_retry_outcome:
  assumes "k < unat (retry_max_attempts s)" "\<forall>i < k. \<not> is_ok (fst (nth_write wb i w))"
    and "is_ok (fst (nth_write wb k w)) \<or> Suc k = unat (retry_max_attempts s)"
    and "retry_initial_backoff s \<le> retry_max_backoff s"
  shows "write_with_retry wb s m w =
    (let (r, w') = nth_write wb k w in
       Some (r, m\<lparr>retries := retries m + of_nat k,
                  write_errors := write_errors m + (if is_ok r then 0 else 1)\<rparr>, w',
             map (\<lambda>i. min (retry_initial_backoff s * 2 ^ i) (retry_max_backoff s)) [0..<k]))"
  using retry_loop_stops [of 1 k s wb w] assms backoffs_closed_form [OF assms(4)]
  by (simp add: write_with_retry_def)

theorem write_with_retry_outcome_witness:
  "write_with_retry (\<lambda>n. (if n = (2 :: nat) then Ok (WriteOutcome_written 7) else Err ''down'', Suc n))
     \<lparr>max_concurrent_writes = 1, retry_max_attempts = 5, retry_initial_backoff = 100, retry_max_backoff = 150\<rparr>
     SinkMetrics_default 0 =
   Some (Ok (WriteOutcome_written 7), SinkMetrics_default\<lparr>retries := 2\<rparr>, 3, [100, 150])"
proof -
  let ?wb = "\<lambda>n. (if n = (2 :: nat) then Ok (WriteOutcome_written 7) else Err ''down'', Suc n)"
  have w: "nth_write ?wb 0 0 = (Err ''down'', 1)" "nth_write ?wb 1 0 = (Err ''down'', 2)"
    "nth_write ?wb 2 0 = (Ok (WriteOutcome_written 7), 3)"
    by (simp_all add: numeral_2_eq_2 numeral_3_eq_3)
  have "\<forall>i < 2. \<not> is_ok (fst (nth_write ?wb i 0))"
    using w by (simp add: numeral_2_eq_2 less_Suc_eq)
  with write_with_retry_outcome [of 2 "\<lparr>max_concurrent_writes = 1, retry_max_attempts = 5,
      retry_initial_backoff = 100, retry_max_backoff = 150\<rparr>" ?wb 0 SinkMetrics_default] w
  show ?thesis by (simp add: SinkMetrics_default_def upt_rec)
qed

text \<open>
  C21: with the settings \<open>runtime_settings\<close> derives from any configuration, \<open>write_with_retry\<close>
  always returns: the \<open>unreachable!\<close> after the loop is unreachable, fewer sleeps than
  attempts are made, and no backoff is large enough for its doubling to overflow a \<open>Duration\<close>
  (\<open>2 ^ 64\<close> seconds).
\<close>

theorem write_with_retry_total:
  "\<exists>r m' w' sleeps. write_with_retry wb (runtime_settings c) m w = Some (r, m', w', sleeps) \<and>
     length sleeps < unat (retry_max_attempts (runtime_settings c)) \<and>
     (\<forall>d \<in> set sleeps. d * 2 < 2 ^ 64 * 1000000000)"
proof -
  let ?s = "runtime_settings c"
  have "0 < unat (retry_max_attempts ?s)" using runtime_settings_min(2) [of c] by simp
  from retry_stop_exists [OF this, of "\<lambda>i. is_ok (fst (nth_write wb i w))"] obtain k where
    k: "k < unat (retry_max_attempts ?s)" "\<forall>i < k. \<not> is_ok (fst (nth_write wb i w))"
      "is_ok (fst (nth_write wb k w)) \<or> Suc k = unat (retry_max_attempts ?s)" by blast
  have "d * 2 < 2 ^ 64 * 1000000000" if "d \<in> set (backoffs ?s (retry_initial_backoff ?s) k)" for d
    using backoffs_bounded [OF that] runtime_backoff_bound [of c] by linarith
  with k retry_loop_stops [of 1 k ?s wb w "retry_initial_backoff ?s" m] show ?thesis
    by (simp add: write_with_retry_def split_beta Let_def)
qed

theorem write_with_retry_total_witness:
  "\<exists>r m' w' sleeps. write_with_retry (\<lambda>n. (Err ''down'', Suc n))
       (runtime_settings (SinkKafka (kafka_sink_required [''in''] ''b'' ''t''))) SinkMetrics_default 0 =
       Some (r, m', w', sleeps) \<and>
     length sleeps < unat (retry_max_attempts (runtime_settings (SinkKafka (kafka_sink_required [''in''] ''b'' ''t'')))) \<and>
     (\<forall>d \<in> set sleeps. d * 2 < 2 ^ 64 * 1000000000)"
  by (rule write_with_retry_total)

text \<open>
  C6: a sink task never loses an envelope and never completes one twice: in every reachable
  state, the envelopes it was sent are exactly those already completed, in hand, queued, or
  held by a write, as multisets. So when it has returned and its writes are gone, every
  envelope it took has been acknowledged exactly once, one way or the other.
\<close>

theorem sink_task_conserves_envelopes:
  assumes "run (run_step wb batching settings capacity) run_start ls = Some s"
  shows "mset (received s) = mset (map fst (acks s)) + mset (held (phase s)) + mset (input s) +
    mset (in_writes (running s))"
  using run_reachable [OF assms] by (simp add: run_inv_def conserved_def)

theorem sink_task_conserves_envelopes_witness:
  "\<exists>s. run (run_step (\<lambda>r bs. Some r) \<lparr>max_events = 1, max_bytes = 1, linger = 0\<rparr>
      \<lparr>max_concurrent_writes = 1, retry_max_attempts = 1, retry_initial_backoff = 0, retry_max_backoff = 0\<rparr> 2)
      run_start
      [Push \<lparr>env_id = 0, env_batch = \<lparr>batch_events = [], batch_bytes = 9\<rparr>\<rparr>,
       Push \<lparr>env_id = 1, env_batch = \<lparr>batch_events = [], batch_bytes = 0\<rparr>\<rparr>,
       Poll 0, Poll 0, Poll 0, Attempt 0 (Err ''down''), Poll 0] = Some s \<and>
    phase s = Returned (Err ''down'') \<and> received s \<noteq> [] \<and> mset (received s) = mset (map fst (acks s))"
proof -
  let ?b = "\<lparr>max_events = 1, max_bytes = 1, linger = 0\<rparr>"
  let ?c = "\<lparr>max_concurrent_writes = 1, retry_max_attempts = 1, retry_initial_backoff = 0, retry_max_backoff = 0\<rparr>"
  let ?e = "\<lparr>env_id = 0, env_batch = \<lparr>batch_events = [], batch_bytes = 9\<rparr>\<rparr>"
  let ?f = "\<lparr>env_id = 1, env_batch = \<lparr>batch_events = [], batch_bytes = 0\<rparr>\<rparr>"
  obtain s where s: "run (run_step (\<lambda>r bs. Some r) ?b ?c 2) run_start
      [Push ?e, Push ?f, Poll 0, Poll 0, Poll 0, Attempt 0 (Err ''down''), Poll 0] = Some s"
    "phase s = Returned (Err ''down'')" "received s \<noteq> []" "running s = []" "input s = []"
    by (simp add: run_exec)
  from sink_task_conserves_envelopes [OF s(1)] s show ?thesis by auto
qed

text \<open>
  C8: an envelope is acknowledged as delivered only by a write that succeeded: if it has been, some
  earlier step of the run was an attempt of a write, on a dispatched group containing the
  envelope, whose \<open>write_batches\<close> returned \<open>Ok\<close>.
\<close>

theorem delivered_implies_successful_write:
  assumes "run (run_step wb batching settings capacity) run_start ls = Some s"
    and "(e, True) \<in> set (acks s)"
  shows "\<exists>ls1 i x ls2 s1 out. ls = ls1 @ Attempt i x # ls2 \<and>
    run (run_step wb batching settings capacity) run_start ls1 = Some s1 \<and> i < length (running s1) \<and>
    (let g = task_envelopes (running s1 ! i) in
       g \<in> set (dispatched s1) \<and> e \<in> set g \<and> wb x (map env_batch g) = Some (Ok out))"
proof -
  from delivery_traced [OF assms] obtain ls1 i x ls2 s1 out where
    d: "ls = ls1 @ Attempt i x # ls2" "run (run_step wb batching settings capacity) run_start ls1 = Some s1"
      "i < length (running s1)" "e \<in> set (task_envelopes (running s1 ! i))"
      "wb x (map env_batch (task_envelopes (running s1 ! i))) = Some (Ok out)"
    by (auto simp: run_start_def)
  from run_reachable [OF d(2)] have "writes_dispatched s1" by (simp add: run_inv_def)
  with d(3) have "task_envelopes (running s1 ! i) \<in> set (dispatched s1)"
    by (auto simp: writes_dispatched_def)
  with d show ?thesis unfolding Let_def by blast
qed

theorem delivered_implies_successful_write_witness:
  "\<exists>ls1 i x ls2. [Push \<lparr>env_id = 0, env_batch = \<lparr>batch_events = [], batch_bytes = 9\<rparr>\<rparr>, Poll 0, Poll 0, Poll 0,
     Attempt 0 (Ok WriteOutcome_default)] = ls1 @ Attempt i (x :: (write_outcome, string) result) # ls2"
proof -
  let ?e = "\<lparr>env_id = 0, env_batch = \<lparr>batch_events = [], batch_bytes = 9\<rparr>\<rparr>"
  obtain s where s: "run (run_step (\<lambda>(r :: (write_outcome, string) result) bs. Some r)
      \<lparr>max_events = 1, max_bytes = 1, linger = 0\<rparr>
      \<lparr>max_concurrent_writes = 1, retry_max_attempts = 1, retry_initial_backoff = 0, retry_max_backoff = 0\<rparr> 2)
      run_start [Push ?e, Poll 0, Poll 0, Poll 0, Attempt 0 (Ok WriteOutcome_default)] = Some s"
    "(?e, True) \<in> set (acks s)"
    by (simp add: run_exec)
  from delivered_implies_successful_write [OF s] show ?thesis by blast
qed

text \<open>
  C7: when \<open>run\<close> returns \<open>Ok\<close>, exactly the dispatched envelopes were delivered: no write failed
  and none is left behind. If the sink stopped because its channel closed and not because
  it was cancelled, these are all the envelopes it ever received, in order.
\<close>

theorem sink_task_ok_means_delivered:
  assumes "run (run_step wb batching settings capacity) run_start ls = Some s"
    and "phase s = Returned (Ok ())"
  shows "mset (delivered_of (acks s)) = mset (concat (dispatched s)) \<and> running s = [] \<and>
    (cancelled s \<or> concat (dispatched s) = received s)"
proof -
  from run_reachable [OF assms(1)] have "accountable s" by (simp add: run_inv_def)
  from accountable_returned_ok [OF this assms(2)] show ?thesis by auto
qed

theorem sink_task_ok_means_delivered_witness:
  "\<exists>s. run (run_step (\<lambda>r bs. Some r) \<lparr>max_events = 9, max_bytes = 9, linger = 0\<rparr>
      \<lparr>max_concurrent_writes = 1, retry_max_attempts = 2, retry_initial_backoff = 0, retry_max_backoff = 0\<rparr> 2)
      run_start
      [Push \<lparr>env_id = 0, env_batch = \<lparr>batch_events = [], batch_bytes = 1\<rparr>\<rparr>, Poll 0,
       Push \<lparr>env_id = 1, env_batch = \<lparr>batch_events = [], batch_bytes = 0\<rparr>\<rparr>, Poll 0, Close,
       Poll 0, Poll 0, Poll 0, Attempt 0 (Err ''down''), Wake 0,
       Attempt 0 (Ok WriteOutcome_default), Poll 0, Poll 0] = Some s \<and>
    mset (delivered_of (acks s)) = mset (received s) \<and> length (received s) = 2"
proof -
  let ?b = "\<lparr>max_events = 9, max_bytes = 9, linger = 0\<rparr>"
  let ?c = "\<lparr>max_concurrent_writes = 1, retry_max_attempts = 2, retry_initial_backoff = 0, retry_max_backoff = 0\<rparr>"
  let ?e = "\<lparr>env_id = 0, env_batch = \<lparr>batch_events = [], batch_bytes = 1\<rparr>\<rparr>"
  let ?f = "\<lparr>env_id = 1, env_batch = \<lparr>batch_events = [], batch_bytes = 0\<rparr>\<rparr>"
  obtain s where s: "run (run_step (\<lambda>r bs. Some r) ?b ?c 2) run_start
      [Push ?e, Poll 0, Push ?f, Poll 0, Close, Poll 0, Poll 0, Poll 0, Attempt 0 (Err ''down''), Wake 0,
       Attempt 0 (Ok WriteOutcome_default), Poll 0, Poll 0] = Some s"
    "phase s = Returned (Ok ())" "length (received s) = 2" "\<not> cancelled s"
    by (simp add: run_exec wake_def)
  from sink_task_ok_means_delivered [OF s(1,2)] s show ?thesis by auto
qed

text \<open>
  C22: batching and concurrency stay within the configuration: at most
  \<open>max_concurrent_writes\<close> writes exist, no write makes more than \<open>retry_max_attempts\<close> attempts,
  groups are cut from the channel in arrival order, and a group is non-empty and was below
  both batch limits before its last envelope was added.
\<close>

theorem sink_task_respects_limits:
  assumes "run (run_step wb batching (runtime_settings c) capacity) run_start ls = Some s"
  shows "writes_len s \<le> max_concurrent_writes (runtime_settings c) \<and>
    (\<forall>t \<in> set (running s). task_attempt t \<le> unat (retry_max_attempts (runtime_settings c))) \<and>
    (\<exists>rest. received s = concat (dispatched s) @ rest) \<and>
    (\<forall>g \<in> set (dispatched s). fits batching g)"
proof -
  from run_reachable [OF assms] have inv: "within_slots (runtime_settings c) s" "fifo s"
    "grouped batching s" "tasks_ok (runtime_settings c) s" by (simp_all add: run_inv_def)
  then show ?thesis using runtime_settings_min(2) [of c]
    by (auto simp: within_slots_def fifo_def grouped_def tasks_ok_def task_ok_def list_all_iff)
qed

theorem sink_task_respects_limits_witness:
  "\<exists>s. run (run_step (\<lambda>r bs. Some r) \<lparr>max_events = 1, max_bytes = 5, linger = 0\<rparr>
      (runtime_settings (SinkKafka (kafka_sink_required [''in''] ''b'' ''t''))) 2) run_start
      [Push \<lparr>env_id = 0, env_batch = \<lparr>batch_events = [], batch_bytes = 9\<rparr>\<rparr>,
       Poll 0, Poll 0, Poll 0, Attempt 0 (Err ''down'')] = Some s \<and>
     (\<forall>g \<in> set (dispatched s). fits \<lparr>max_events = 1, max_bytes = 5, linger = 0\<rparr> g) \<and> dispatched s \<noteq> []"
proof -
  obtain s where s: "run (run_step (\<lambda>r bs. Some r) \<lparr>max_events = 1, max_bytes = 5, linger = 0\<rparr>
      (runtime_settings (SinkKafka (kafka_sink_required [''in''] ''b'' ''t''))) 2) run_start
      [Push \<lparr>env_id = 0, env_batch = \<lparr>batch_events = [], batch_bytes = 9\<rparr>\<rparr>,
       Poll 0, Poll 0, Poll 0, Attempt 0 (Err ''down'')] = Some s" "dispatched s \<noteq> []"
    by (simp add: run_exec kafka_sink_required_def default_defs)
  from sink_task_respects_limits [OF s(1)] s show ?thesis by blast
qed

text \<open>
  C23: shutdown terminates: once cancelled, the task can always be driven to its return with no
  write left, in a number of steps bounded by its rank, provided every write eventually
  returns something; no combination of full slots, sleeping retries or pending batches
  deadlocks it.
\<close>

theorem sink_task_shutdown_terminates:
  assumes "run (run_step wb batching (runtime_settings c) capacity) run_start ls = Some s"
    and "cancelled s" and "\<forall>bs. \<exists>x r. wb x bs = Some r"
  shows "\<exists>ls' t. length ls' \<le> run_rank (runtime_settings c) s \<and>
    run (run_step wb batching (runtime_settings c) capacity) s ls' = Some t \<and> returned t \<and> running t = [] \<and>
    mset (received t) = mset (map fst (acks t))"
proof -
  note inv = run_reachable [OF assms(1)]
  from shutdown_finishes [OF inv assms(2) runtime_settings_min(2,1)] assms(3) obtain ls' t where
    t: "length ls' \<le> run_rank (runtime_settings c) s"
      "run (run_step wb batching (runtime_settings c) capacity) s ls' = Some t" "returned t" "running t = []"
    by blast
  from sink_run.run_keeps [OF inv t(2)] t(3,4) have "mset (received t) = mset (map fst (acks t))"
    by (auto simp: run_inv_def conserved_def accountable_def returned_iff)
  with t show ?thesis by auto
qed

theorem sink_task_shutdown_terminates_witness:
  "\<exists>s ls' t. run (run_step (\<lambda>r bs. Some r) \<lparr>max_events = 1, max_bytes = 5, linger = 0\<rparr>
      (runtime_settings (SinkKafka (kafka_sink_required [''in''] ''b'' ''t''))) 2) run_start
      [Push \<lparr>env_id = 0, env_batch = \<lparr>batch_events = [], batch_bytes = 9\<rparr>\<rparr>,
       Poll 0, Poll 0, Poll 0, Attempt 0 (Err ''down''), Cancel] = Some s \<and>
     run (run_step (\<lambda>r bs. Some r) \<lparr>max_events = 1, max_bytes = 5, linger = 0\<rparr>
      (runtime_settings (SinkKafka (kafka_sink_required [''in''] ''b'' ''t''))) 2) s ls' = Some t \<and> returned t"
proof -
  obtain s where s: "run (run_step (\<lambda>r bs. Some r) \<lparr>max_events = 1, max_bytes = 5, linger = 0\<rparr>
      (runtime_settings (SinkKafka (kafka_sink_required [''in''] ''b'' ''t''))) 2) run_start
      [Push \<lparr>env_id = 0, env_batch = \<lparr>batch_events = [], batch_bytes = 9\<rparr>\<rparr>,
       Poll 0, Poll 0, Poll 0, Attempt 0 (Err ''down''), Cancel] = Some s" "cancelled s"
    by (simp add: run_exec kafka_sink_required_def default_defs)
  from sink_task_shutdown_terminates [OF s] s show ?thesis by blast
qed

end
