(* ===== verification/Kafka_Sink.thy ===== *)
theory Kafka_Sink
  imports Sink_Runtime
begin

text \<open>
  \<open>src/sink/kafka.rs\<close>: the \<open>BatchTracker\<close> that waits for the delivery reports of a write, the
  enqueue loop with its queue-full retries, and \<open>write_batches\<close>. The tracker is modelled
  twice: \<open>settle\<close> as one operation, used by the write, and as the sequence of atomic
  actions that delivery callbacks on several threads interleave. librdkafka's producer and
  the clock are parameters.
\<close>

section \<open>The tracker\<close>

record 'k batch_tracker =
  tr_remaining :: usize
  tr_failed :: bool
  tr_error :: "'k option"
  tr_notify :: bool

definition BatchTracker_new :: "usize \<Rightarrow> 'k batch_tracker" where
  "BatchTracker_new records = \<lparr>tr_remaining = records, tr_failed = False, tr_error = None, tr_notify = True\<rparr>"

text \<open>
  \<open>settle\<close> run to its end; the flag says whether it sent the notification. \<open>fetch_sub\<close>
  wraps; the callers settle no more than remain, so here it does not.
\<close>

definition record_error :: "'k option \<Rightarrow> 'k batch_tracker \<Rightarrow> 'k batch_tracker" where
  "record_error error s =
     (case error of
        Some e \<Rightarrow> if tr_failed s then s else s\<lparr>tr_failed := True, tr_error := Some e\<rparr>
      | None \<Rightarrow> s)"

definition settle :: "usize \<times> 'k option \<Rightarrow> 'k batch_tracker \<Rightarrow> 'k batch_tracker \<times> bool" where
  "settle = (\<lambda>(count, error) s.
     if count = 0 then (s, False)
     else
       let s1 = record_error error s; s2 = s1\<lparr>tr_remaining := fetch_sub (tr_remaining s1) count\<rparr> in
       if tr_remaining s1 = count \<and> tr_notify s2 then (s2\<lparr>tr_notify := False\<rparr>, True) else (s2, False))"

definition take_error :: "'k batch_tracker \<Rightarrow> 'k option \<times> 'k batch_tracker" where
  "take_error s = (tr_error s, s\<lparr>tr_error := None\<rparr>)"

text \<open>\<open>BatchContext::delivery\<close>: one report, with the error of the record if it has one.\<close>

definition delivery :: "'k option \<Rightarrow> 'k batch_tracker \<Rightarrow> 'k batch_tracker \<times> bool" where
  "delivery error = settle (1, error)"

fun first_error :: "bool \<times> 'k option \<Rightarrow> usize \<times> 'k option \<Rightarrow> bool \<times> 'k option" where
  "first_error (failed, e) (n, None) = (failed, e)"
| "first_error (failed, e) (n, Some k) = (if failed then (failed, e) else (True, Some k))"

interpretation tracker: latch settle tr_remaining tr_notify
  "\<lambda>s. (tr_failed s, tr_error s)" fst first_error
  by unfold_locales
    (auto simp: settle_def record_error_def Let_def split: if_splits option.splits)

section \<open>The producer\<close>

record base_record =
  rec_topic :: string
  rec_payload :: bytes
  rec_key :: "bytes option"
  rec_timestamp :: "i64 option"

datatype 'k send_result = Queued | QueueFull | Refused 'k

text \<open>
  The producer's state includes the clock. Sending offers one record; sleeping is the
  \<open>QUEUE_FULL_BACKOFF\<close> pause.
\<close>

record ('p, 'k) producer_ops =
  pr_send :: "'p \<Rightarrow> base_record \<Rightarrow> 'k send_result \<times> 'p"
  pr_now :: "'p \<Rightarrow> duration"
  pr_sleep :: "duration \<Rightarrow> 'p \<Rightarrow> 'p"

definition QUEUE_FULL_BACKOFF :: duration where
  "QUEUE_FULL_BACKOFF = 2000000"

text \<open>
  What the write relies on of the clock: sending does not turn it back, and a sleep lasts at
  least as long as asked for.
\<close>

definition clock_laws :: "('p, 'k) producer_ops \<Rightarrow> bool" where
  "clock_laws P \<longleftrightarrow> (\<forall>p r. pr_now P p \<le> pr_now P (snd (pr_send P p r))) \<and>
     (\<forall>d p. pr_now P p + d \<le> pr_now P (pr_sleep P d p))"

record kafka_sink =
  sink_id :: string
  sink_topic :: string
  enqueue_timeout :: duration
  sink_batch :: batch_settings

definition sink_client_settings :: "kafka_sink_config \<Rightarrow> (string \<times> string) list" where
  "sink_client_settings c = [
     (''bootstrap.servers'', kk_brokers c),
     (''enable.idempotence'', if kk_enable_idempotence c then ''true'' else ''false''),
     (''acks'', kk_acks c),
     (''compression.type'', kk_compression_type c),
     (''linger.ms'', u64_to_string (kk_producer_linger_ms c)),
     (''batch.num.messages'', u64_to_string (kk_producer_batch_num_messages c)),
     (''queue.buffering.max.messages'', u64_to_string (kk_queue_buffering_max_messages c)),
     (''queue.buffering.max.kbytes'', u64_to_string (kk_queue_buffering_max_kbytes c)),
     (''message.timeout.ms'', u64_to_string (kk_delivery_timeout_ms c))] @ kk_client_config c"

text \<open>\<open>create\<close> is \<open>create_with_context\<close> on the settings; it may fail.\<close>

definition KafkaSink_new ::
  "((string \<times> string) list \<Rightarrow> (unit, 'x) result) \<Rightarrow> string \<Rightarrow> kafka_sink_config \<Rightarrow> (kafka_sink, 'x error) result" where
  "KafkaSink_new create sid c =
     (case create (sink_client_settings c) of
        Err e \<Rightarrow> Err (Context (''cannot create Kafka sink '' @ debug_str sid) (Foreign e))
      | Ok _ \<Rightarrow> Ok \<lparr>sink_id = sid, sink_topic = kk_topic c,
          enqueue_timeout = from_millis (kk_delivery_timeout_ms c),
          sink_batch = \<lparr>max_events = kk_batch_max_events c, max_bytes = kk_batch_max_bytes c,
            linger = from_millis (kk_batch_linger_ms c)\<rparr>\<rparr>)"

definition KafkaSink_name :: "kafka_sink \<Rightarrow> string" where
  "KafkaSink_name k = sink_id k"

definition KafkaSink_batch_settings :: "kafka_sink \<Rightarrow> batch_settings" where
  "KafkaSink_batch_settings k = sink_batch k"

definition record_for :: "string \<Rightarrow> event \<Rightarrow> base_record" where
  "record_for t e = \<lparr>rec_topic = t, rec_payload = payload e, rec_key = key e, rec_timestamp = timestamp_ms e\<rparr>"

definition queue_full_message :: "duration \<Rightarrow> string" where
  "queue_full_message limit = ''librdkafka queue stayed full for '' @ debug_duration limit @
     ''; raise queue_buffering_max_messages/kbytes or lower batch_max_events''"

text \<open>
  The inner \<open>loop\<close>: offer the record until it is queued, refused, or the queue is still full at
  the deadline. The error, if any, and the producer; \<open>None\<close> would be a loop that never ends.
\<close>

partial_function (option) enqueue_one ::
  "('p, 'k) producer_ops \<Rightarrow> duration \<Rightarrow> duration \<Rightarrow> base_record \<Rightarrow> 'p \<Rightarrow> ('k error option \<times> 'p) option" where
  "enqueue_one P until limit r p =
     (case pr_send P p r of
        (Queued, p') \<Rightarrow> Some (None, p')
      | (QueueFull, p') \<Rightarrow>
          if until \<le> pr_now P p' then Some (Some (Bail (queue_full_message limit)), p')
          else enqueue_one P until limit r (pr_sleep P QUEUE_FULL_BACKOFF p')
      | (Refused k, p') \<Rightarrow> Some (Some (Context ''cannot enqueue Kafka record'' (Foreign k)), p'))"

declare enqueue_one.simps [code]

text \<open>The \<open>'enqueue\<close> loop: how many records were queued, and the error that stopped it.\<close>

fun enqueue_all ::
  "('p, 'k) producer_ops \<Rightarrow> duration \<Rightarrow> duration \<Rightarrow> base_record list \<Rightarrow> 'p \<Rightarrow> (usize \<times> 'k error option \<times> 'p) option" where
  "enqueue_all P until limit [] p = Some (0, None, p)"
| "enqueue_all P until limit (r # rs) p =
     (case enqueue_one P until limit r p of
        None \<Rightarrow> None
      | Some (Some e, p') \<Rightarrow> Some (0, Some e, p')
      | Some (None, p') \<Rightarrow> map_option (\<lambda>(n, e, p''). (Suc n, e, p'')) (enqueue_all P until limit rs p'))"

text \<open>
  What the environment contributes to one write: the producer, and the delivery reports that
  arrive before the enqueue loop has ended and after it.
\<close>

record ('p, 'k) write_env =
  we_producer :: 'p
  we_early :: "'k option list"
  we_late :: "'k option list"

definition settlements :: "('p, 'k) write_env \<Rightarrow> usize \<Rightarrow> usize \<Rightarrow> 'k error option \<Rightarrow> (usize \<times> 'k option) list" where
  "settlements x tot enqueued error =
     map (\<lambda>r. (1, r)) (we_early x) @ (if error \<noteq> None then [(tot - enqueued, None)] else []) @
     map (\<lambda>r. (1, r)) (we_late x)"

fun settle_seq :: "(usize \<times> 'k option) list \<Rightarrow> 'k batch_tracker \<Rightarrow> 'k batch_tracker \<times> bool" where
  "settle_seq [] s = (s, False)"
| "settle_seq (v # vs) s = (let (t, f) = settle v s; (u, g) = settle_seq vs t in (u, f \<or> g))"

text \<open>\<open>None\<close>: the write has not returned, because a delivery report is still outstanding.\<close>

definition write_batches ::
  "('p, 'k) producer_ops \<Rightarrow> kafka_sink \<Rightarrow> ('p, 'k) write_env \<Rightarrow> event_batch list \<Rightarrow>
   (write_outcome, 'k error) result option" where
  "write_batches P sink x bs =
     (let tot = sum_list (map batch_len bs) in
      if tot = 0 then Some (Ok WriteOutcome_default)
      else
        let until = pr_now P (we_producer x) + enqueue_timeout sink in
        case enqueue_all P until (enqueue_timeout sink) (map (record_for (sink_topic sink)) (flat_events bs)) (we_producer x) of
          None \<Rightarrow> None
        | Some (enqueued, error, _) \<Rightarrow>
            let (tracker, done) = settle_seq (settlements x tot enqueued error) (BatchTracker_new tot) in
            if \<not> done then None
            else (case error of
                Some e \<Rightarrow> Some (Err e)
              | None \<Rightarrow>
                  (case fst (take_error tracker) of
                     Some k \<Rightarrow> Some (Err (Context ''Kafka delivery failed'' (Foreign k)))
                   | None \<Rightarrow> Some (Ok (WriteOutcome_written (of_nat tot))))))"

section \<open>The enqueue loop ends\<close>

lemma clock_lawsD:
  assumes "clock_laws P"
  shows "pr_send P p r = (a, p') \<Longrightarrow> pr_now P p \<le> pr_now P p'"
    and "pr_now P p + d \<le> pr_now P (pr_sleep P d p)"
  using assms unfolding clock_laws_def by (metis snd_conv)+

lemma enqueue_one_returns:
  assumes "clock_laws P"
  shows "\<exists>e p'. enqueue_one P until limit r p = Some (e, p') \<and> pr_now P p \<le> pr_now P p'"
proof (induction "until - pr_now P p" arbitrary: p rule: less_induct)
  case less
  obtain a p1 where s: "pr_send P p r = (a, p1)" by fastforce
  note le = clock_lawsD(1) [OF assms s]
  show ?case
  proof (cases "a = QueueFull \<and> pr_now P p1 < until")
    case True
    let ?p = "pr_sleep P QUEUE_FULL_BACKOFF p1"
    have now: "pr_now P p1 + 2000000 \<le> pr_now P ?p"
      using clock_lawsD(2) [OF assms, of p1 QUEUE_FULL_BACKOFF] by (simp add: QUEUE_FULL_BACKOFF_def)
    with le True have "until - pr_now P ?p < until - pr_now P p" by linarith
    from less [OF this] now le s True show ?thesis
      by (subst enqueue_one.simps) (fastforce dest: le_trans)
  next
    case False
    with s le show ?thesis by (subst enqueue_one.simps) (auto split: send_result.splits)
  qed
qed

lemma enqueue_all_returns:
  assumes "clock_laws P"
  shows "\<exists>n e p'. enqueue_all P until limit rs p = Some (n, e, p')"
proof (induction rs arbitrary: p)
  case (Cons r rs)
  from enqueue_one_returns [OF assms, of until limit r p] obtain e p1 where
    "enqueue_one P until limit r p = Some (e, p1)" by blast
  with Cons.IH [of p1] show ?case by (cases e) auto
qed simp

lemma enqueue_all_count:
  "enqueue_all P until limit rs p = Some (n, e, p') \<Longrightarrow> n \<le> length rs \<and> (e = None \<longleftrightarrow> n = length rs)"
  by (induction rs arbitrary: p n) (fastforce split: option.splits prod.splits)+

section \<open>Settling a write\<close>

lemma settle_seq_settle_all:
  "tracker.settle_all vs s = (u, n) \<Longrightarrow> settle_seq vs s = (u, 0 < n)"
  by (induction vs arbitrary: s n) (auto simp: Let_def split: prod.splits if_splits)

lemma foldl_first_error:
  "foldl first_error (failed, e) vs =
    (if failed then (failed, e)
     else case filter (\<lambda>x. x \<noteq> None) (map snd vs) of [] \<Rightarrow> (False, e) | k # _ \<Rightarrow> (True, k))"
proof (induction vs arbitrary: failed e)
  case (Cons v vs)
  then show ?case by (cases v; cases "snd v") auto
qed simp

text \<open>Settling every record wakes the write, with the first error reported if there is one.\<close>

lemma settle_seq_complete:
  assumes "0 < tot" "sum_list (map fst vs) = tot" "\<forall>v \<in> set vs. 0 < fst v"
  shows "\<exists>t. settle_seq vs (BatchTracker_new tot) = (t, True) \<and>
    tr_error t = (case filter (\<lambda>x. x \<noteq> None) (map snd vs) of [] \<Rightarrow> None | k # _ \<Rightarrow> k)"
proof -
  let ?s = "BatchTracker_new tot"
  obtain u n where sa: "tracker.settle_all vs ?s = (u, n)" by fastforce
  have "n = 1 \<and> \<not> tr_notify u \<and> tr_remaining u = 0 \<and>
      (tr_failed u, tr_error u) = foldl first_error (tr_failed ?s, tr_error ?s) vs"
    using tracker.settle_all_fires_once [OF assms(3) _ _ _ sa] assms(1,2)
    by (simp add: BatchTracker_new_def)
  with settle_seq_settle_all [OF sa] show ?thesis
    by (auto simp: foldl_first_error BatchTracker_new_def split: list.splits if_splits)
qed

lemma settle_seq_incomplete:
  assumes "sum_list (map fst vs) < tot" "\<forall>v \<in> set vs. 0 < fst v"
  shows "\<not> snd (settle_seq vs (BatchTracker_new tot))"
proof -
  obtain u n where sa: "tracker.settle_all vs (BatchTracker_new tot) = (u, n)" by fastforce
  from tracker.settle_all_before_last [OF assms(2) _ _ sa] assms(1) settle_seq_settle_all [OF sa]
  show ?thesis by (simp add: BatchTracker_new_def)
qed

lemma sum_ones: "(\<Sum>r\<leftarrow>rs. Suc 0) = length rs"
  by (induction rs) auto

lemma settlements_simps:
  assumes "n \<le> tot" "e = None \<longleftrightarrow> n = tot"
  shows "sum_list (map fst (settlements x tot n e)) =
      length (we_early x @ we_late x) + (tot - n)"
    and "\<forall>v \<in> set (settlements x tot n e). 0 < fst v"
    and "filter (\<lambda>x. x \<noteq> None) (map snd (settlements x tot n e)) =
      filter (\<lambda>x. x \<noteq> None) (we_early x @ we_late x)"
  using assms by (auto simp: settlements_def sum_ones comp_def)

text \<open>What a write returns, in terms of what was enqueued and reported.\<close>

lemma write_batches_result:
  assumes tot: "0 < length (flat_events bs)"
    and q: "enqueue_all P (pr_now P (we_producer x) + enqueue_timeout sink) (enqueue_timeout sink)
      (map (record_for (sink_topic sink)) (flat_events bs)) (we_producer x) = Some (n, e, p')"
    and r: "length (we_early x @ we_late x) = n"
  shows "write_batches P sink x bs = Some (case e of
      Some e \<Rightarrow> Err e
    | None \<Rightarrow> (case filter (\<lambda>x. x \<noteq> None) (we_early x @ we_late x) of
        Some k # _ \<Rightarrow> Err (Context ''Kafka delivery failed'' (Foreign k))
      | _ \<Rightarrow> Ok (WriteOutcome_written (of_nat (length (flat_events bs))))))"
proof -
  let ?tot = "length (flat_events bs)"
  from enqueue_all_count [OF q] have c: "n \<le> ?tot" "e = None \<longleftrightarrow> n = ?tot" by auto
  note st = settlements_simps [OF c, of x]
  have "sum_list (map fst (settlements x ?tot n e)) = ?tot" using st(1) r c(1) by simp
  from settle_seq_complete [OF tot this st(2)] obtain t where
    t: "settle_seq (settlements x ?tot n e) (BatchTracker_new ?tot) = (t, True)"
      "tr_error t = (case filter (\<lambda>x. x \<noteq> None) (we_early x @ we_late x) of [] \<Rightarrow> None | k # _ \<Rightarrow> k)"
    unfolding st(3) by blast
  then show ?thesis using tot q
    by (auto simp: write_batches_def length_flat_events [symmetric] take_error_def filter_eq_Cons_iff
      split: option.splits list.splits)
qed

lemma reported_errors:
  "filter (\<lambda>x. x \<noteq> None) rs = [] \<longleftrightarrow> (\<forall>e \<in> set rs. e = None)"
  "filter (\<lambda>x. x \<noteq> None) rs \<noteq> [] \<Longrightarrow> \<exists>k ks. filter (\<lambda>x. x \<noteq> None) rs = Some k # ks"
proof -
  show "filter (\<lambda>x. x \<noteq> None) rs = [] \<longleftrightarrow> (\<forall>e \<in> set rs. e = None)"
    unfolding filter_empty_conv by simp
  show "\<exists>k ks. filter (\<lambda>x. x \<noteq> None) rs = Some k # ks" if "filter (\<lambda>x. x \<noteq> None) rs \<noteq> []"
    using that by (induction rs) (auto split: if_splits)
qed

lemma write_batches_waits:
  assumes tot: "0 < length (flat_events bs)"
    and q: "enqueue_all P (pr_now P (we_producer x) + enqueue_timeout sink) (enqueue_timeout sink)
      (map (record_for (sink_topic sink)) (flat_events bs)) (we_producer x) = Some (n, e, p')"
    and r: "length (we_early x @ we_late x) < n"
  shows "write_batches P sink x bs = None"
proof -
  let ?tot = "length (flat_events bs)"
  from enqueue_all_count [OF q] have c: "n \<le> ?tot" "e = None \<longleftrightarrow> n = ?tot" by auto
  note st = settlements_simps [OF c, of x]
  have "sum_list (map fst (settlements x ?tot n e)) < ?tot" using st(1) r c(1) by simp
  from settle_seq_incomplete [OF this st(2)] show ?thesis using tot q
    by (auto simp: write_batches_def length_flat_events [symmetric] Let_def split: prod.splits)
qed

lemma write_batches_ok_count:
  "write_batches P sink x bs = Some (Ok out) \<Longrightarrow> out = WriteOutcome_written (of_nat (length (flat_events bs)))"
  by (auto simp: write_batches_def length_flat_events [symmetric] Let_def WriteOutcome_default_def
    WriteOutcome_written_def split: if_splits option.splits prod.splits)

interpretation kafka: sink_contract "write_batches P sink" for P sink
  by unfold_locales (auto simp: WriteOutcome_written_def dest: write_batches_ok_count)

section \<open>Concurrent settlements\<close>

text \<open>
  Delivery callbacks run on librdkafka's threads, so several \<open>settle\<close> calls overlap. Each is a
  sequence of atomic actions: the swap of \<open>failed\<close>, the store of the error under its mutex,
  the \<open>fetch_sub\<close>, and taking the notifier under its mutex.
\<close>

datatype 'k settler =
    Starting usize "'k option"
  | Storing usize 'k
  | Subtracting usize "'k option"
  | Notifying "'k option"
  | Finished "'k option"

record 'k tracker_run =
  tracker :: "'k batch_tracker"
  settlers :: "'k settler list"
  notified :: nat

definition tracker_start :: "(usize \<times> 'k option) list \<Rightarrow> 'k tracker_run" where
  "tracker_start vs = \<lparr>tracker = BatchTracker_new (sum_list (map fst vs)),
     settlers = map (\<lambda>(n, e). Starting n e) vs, notified = 0\<rparr>"

text \<open>One atomic action of the \<open>i\<close>-th call. The error a call carries is kept to the end as history.\<close>

definition settler_step :: "'k tracker_run \<Rightarrow> nat \<Rightarrow> 'k tracker_run option" where
  "settler_step s i =
     (if i < length (settlers s) then
        let tr = tracker s; to = (\<lambda>c. s\<lparr>settlers := (settlers s)[i := c]\<rparr>) in
        case settlers s ! i of
          Starting n e \<Rightarrow>
            if n = 0 then Some (to (Finished None))
            else (case e of
                Some k \<Rightarrow>
                  if tr_failed tr then Some (to (Subtracting n e))
                  else Some ((to (Storing n k))\<lparr>tracker := tr\<lparr>tr_failed := True\<rparr>\<rparr>)
              | None \<Rightarrow> Some (to (Subtracting n e)))
        | Storing n k \<Rightarrow> Some ((to (Subtracting n (Some k)))\<lparr>tracker := tr\<lparr>tr_error := Some k\<rparr>\<rparr>)
        | Subtracting n e \<Rightarrow>
            Some ((to (if tr_remaining tr = n then Notifying e else Finished e))
              \<lparr>tracker := tr\<lparr>tr_remaining := fetch_sub (tr_remaining tr) n\<rparr>\<rparr>)
        | Notifying e \<Rightarrow>
            Some ((to (Finished e))\<lparr>tracker := tr\<lparr>tr_notify := False\<rparr>,
              notified := (if tr_notify tr then Suc (notified s) else notified s)\<rparr>)
        | Finished e \<Rightarrow> None
      else None)"

fun owed :: "'k settler \<Rightarrow> usize" where
  "owed (Starting n e) = n"
| "owed (Storing n k) = n"
| "owed (Subtracting n e) = n"
| "owed _ = 0"

fun carries :: "'k settler \<Rightarrow> 'k option" where
  "carries (Starting n e) = (if n = 0 then None else e)"
| "carries (Storing n k) = Some k"
| "carries (Subtracting n e) = e"
| "carries (Notifying e) = e"
| "carries (Finished e) = e"

fun past_swap :: "'k settler \<Rightarrow> bool" where
  "past_swap (Starting n e) = False"
| "past_swap _ = True"

fun is_storing :: "'k settler \<Rightarrow> bool" where
  "is_storing (Storing n k) = True"
| "is_storing _ = False"

fun is_notifying :: "'k settler \<Rightarrow> bool" where
  "is_notifying (Notifying e) = True"
| "is_notifying _ = False"

fun debt_ok :: "'k settler \<Rightarrow> bool" where
  "debt_ok (Storing n k) \<longleftrightarrow> 0 < n"
| "debt_ok (Subtracting n e) \<longleftrightarrow> 0 < n"
| "debt_ok _ \<longleftrightarrow> True"

definition tracker_inv :: "'k option list \<Rightarrow> usize \<Rightarrow> 'k tracker_run \<Rightarrow> bool" where
  "tracker_inv errors tot s \<longleftrightarrow>
     map carries (settlers s) = errors \<and> list_all debt_ok (settlers s) \<and>
     tr_remaining (tracker s) = sum_list (map owed (settlers s)) \<and>
     (tr_failed (tracker s) \<longleftrightarrow> tr_error (tracker s) \<noteq> None \<or> (\<exists>c \<in> set (settlers s). is_storing c)) \<and>
     (\<forall>c \<in> set (settlers s). past_swap c \<and> carries c \<noteq> None \<longrightarrow> tr_failed (tracker s)) \<and>
     (\<forall>k. tr_error (tracker s) = Some k \<longrightarrow> Some k \<in> set errors) \<and>
     notified s + (if tr_notify (tracker s) then 1 else 0) = 1 \<and>
     (0 < tr_remaining (tracker s) \<longrightarrow> tr_notify (tracker s) \<and> (\<forall>c \<in> set (settlers s). \<not> is_notifying c)) \<and>
     (0 < tot \<and> tr_remaining (tracker s) = 0 \<and> tr_notify (tracker s) \<longrightarrow> (\<exists>c \<in> set (settlers s). is_notifying c))"

lemma sum_update:
  "i < length xs \<Longrightarrow> sum_list (map f (xs[i := y])) + f (xs ! i) = sum_list (map f xs) + f y" for f :: "_ \<Rightarrow> nat"
proof (induction xs arbitrary: i)
  case (Cons x xs)
  then show ?case by (cases i) auto
qed simp

lemma carries_update:
  "i < length xs \<Longrightarrow> carries y = carries (xs ! i) \<Longrightarrow> map carries (xs[i := y]) = map carries xs"
  by (metis list_update_id map_update)

lemma tracker_start_inv: "tracker_inv (map (\<lambda>(n, e). if n = 0 then None else e) vs) (sum_list (map fst vs)) (tracker_start vs)"
  by (auto simp: tracker_inv_def tracker_start_def BatchTracker_new_def comp_def case_prod_beta list_all_iff
    intro!: arg_cong [of _ _ sum_list])

lemma set_update_remove:
  assumes "i < length xs"
  shows "set (xs[i := y]) = insert y (set (remove_nth i xs))" and "set xs = insert (xs ! i) (set (remove_nth i xs))"
  using assms by (simp_all add: upd_conv_take_nth_drop remove_nth_def)
    (subst id_take_nth_drop [OF assms], simp add: insert_commute)

lemma owed_le: "i < length cs \<Longrightarrow> owed (cs ! i) \<le> sum_list (map owed cs)"
  using member_le_sum_list [of "owed (cs ! i)" "map owed cs"] by simp

lemma tracker_inv_step:
  assumes inv: "tracker_inv errors tot s" and step: "settler_step s i = Some t"
  shows "tracker_inv errors tot t"
proof -
  have i: "i < length (settlers s)" using step by (auto simp: settler_step_def split: if_splits)
  let ?c = "settlers s ! i" and ?R = "set (remove_nth i (settlers s))"
  note sets = set_update_remove [OF i]
  note upd = sum_update [OF i, of owed] carries_update [OF i] owed_le [OF i]
  have mem: "?c \<in> set (settlers s)" using i by simp
  have iv: "map carries (settlers s) = errors" "list_all debt_ok (settlers s)"
    "tr_remaining (tracker s) = sum_list (map owed (settlers s))"
    "tr_failed (tracker s) \<longleftrightarrow> tr_error (tracker s) \<noteq> None \<or> (\<exists>c \<in> insert ?c ?R. is_storing c)"
    "\<forall>c \<in> insert ?c ?R. past_swap c \<and> carries c \<noteq> None \<longrightarrow> tr_failed (tracker s)"
    "\<forall>k. tr_error (tracker s) = Some k \<longrightarrow> Some k \<in> set errors"
    "notified s + (if tr_notify (tracker s) then 1 else 0) = 1"
    "0 < tr_remaining (tracker s) \<longrightarrow> tr_notify (tracker s) \<and> (\<forall>c \<in> insert ?c ?R. \<not> is_notifying c)"
    "0 < tot \<and> tr_remaining (tracker s) = 0 \<and> tr_notify (tracker s) \<longrightarrow> (\<exists>c \<in> insert ?c ?R. is_notifying c)"
    using inv unfolding tracker_inv_def sets(2) by - (elim conjE, assumption)+
  have debt: "debt_ok ?c" using iv(2) i by (simp add: list_all_length)
  have err: "carries ?c \<in> set errors" using iv(1) mem by force
  have rest: "debt_ok c \<Longrightarrow> list_all debt_ok ((settlers s)[i := c])" for c
    using iv(2) i by (simp add: list_all_update)
  show ?thesis
  proof (cases ?c)
    case (Starting n e)
    show ?thesis
    proof (cases "n = 0 \<or> e = None \<or> tr_failed (tracker s)")
      case True
      define d where "d = (if n = 0 then Finished None else Subtracting n e)"
      have t: "t = s\<lparr>settlers := (settlers s)[i := d]\<rparr>"
        using Starting step i True by (auto simp: d_def settler_step_def Let_def split: if_splits option.splits)
      have "owed d = owed ?c" "carries d = carries ?c" "debt_ok d" "\<not> is_storing d" "\<not> is_notifying d"
        "\<not> is_storing ?c" "\<not> is_notifying ?c" "carries ?c \<noteq> None \<longrightarrow> tr_failed (tracker s)"
        using Starting True by (auto simp: d_def)
      with iv upd(1) [of d] upd(2) [of d] rest [of d] show ?thesis
        unfolding t by (simp add: tracker_inv_def sets(1))
    next
      case False
      then obtain k where k: "e = Some k" "0 < n" "\<not> tr_failed (tracker s)" by auto
      let ?d = "Storing n k"
      have t: "t = s\<lparr>settlers := (settlers s)[i := ?d], tracker := (tracker s)\<lparr>tr_failed := True\<rparr>\<rparr>"
        using Starting step i k by (simp add: settler_step_def)
      have "owed ?d = owed ?c" "carries ?d = carries ?c" "debt_ok ?d" "\<not> is_notifying ?c"
        using Starting k by auto
      with iv upd(1) [of ?d] upd(2) [of ?d] rest [of ?d] show ?thesis
        unfolding t by (simp add: tracker_inv_def sets(1))
    qed
  next
    case (Storing n k)
    with step i iv debt err upd(1) [of "Subtracting n (Some k)"] upd(2) [of "Subtracting n (Some k)"] rest
    show ?thesis by (auto simp: settler_step_def tracker_inv_def sets(1))
  next
    case (Subtracting n e)
    define d where "d = (if tr_remaining (tracker s) = n then Notifying e else Finished e)"
    from Subtracting step i have t: "t = s\<lparr>settlers := (settlers s)[i := d],
        tracker := (tracker s)\<lparr>tr_remaining := fetch_sub (tr_remaining (tracker s)) n\<rparr>\<rparr>"
      by (simp add: settler_step_def Let_def flip: d_def)
    have d: "owed d = 0" "carries d = carries ?c" "debt_ok d" "past_swap d" "\<not> is_storing d"
      "is_notifying d \<longleftrightarrow> tr_remaining (tracker s) = n" using Subtracting by (auto simp: d_def)
    have c: "owed ?c = n" "\<not> is_storing ?c" "past_swap ?c" "\<not> is_notifying ?c" "0 < n"
      using Subtracting debt by auto
    have "n \<le> tr_remaining (tracker s)" using upd(3) c(1) iv(3) by simp
    with d c iv upd(1) [of d] upd(2) [of d] rest [of d] show ?thesis
      unfolding t by (simp add: tracker_inv_def sets(1))
  next
    case (Notifying e)
    let ?d = "Finished e"
    from Notifying step i have t: "t = s\<lparr>settlers := (settlers s)[i := ?d], tracker := (tracker s)\<lparr>tr_notify := False\<rparr>,
        notified := (if tr_notify (tracker s) then Suc (notified s) else notified s)\<rparr>"
      by (simp add: settler_step_def Let_def)
    have "owed ?d = owed ?c" "carries ?d = carries ?c" "\<not> is_storing ?c" "past_swap ?c" "is_notifying ?c"
      using Notifying by auto
    moreover from this iv(8) have "tr_remaining (tracker s) = 0" by auto
    ultimately show ?thesis
      using iv upd(1) [of ?d] upd(2) [of ?d] rest [of ?d]
      unfolding t by (simp add: tracker_inv_def sets(1) split: if_splits)
  next
    case (Finished e)
    with step i show ?thesis by (simp add: settler_step_def)
  qed
qed

interpretation tracker_run: step_invariant settler_step "tracker_inv errors tot" for errors tot
  by unfold_locales (rule tracker_inv_step)

text \<open>Once every share is subtracted, no error is still on its way into the tracker.\<close>

lemma tracker_drained:
  assumes inv: "tracker_inv errors tot s" and "tr_remaining (tracker s) = 0"
  shows "tr_error (tracker s) = None \<longleftrightarrow> (\<forall>e \<in> set errors. e = None)"
proof -
  have owed: "owed c = 0" if "c \<in> set (settlers s)" for c
    using assms that by (simp add: tracker_inv_def)
  have ok: "debt_ok c" if "c \<in> set (settlers s)" for c
    using inv that by (simp add: tracker_inv_def list_all_iff)
  have no: "\<not> is_storing c" "carries c \<noteq> None \<Longrightarrow> past_swap c" if "c \<in> set (settlers s)" for c
    using owed [OF that] ok [OF that] by (cases c; simp split: if_splits)+
  have errs: "set errors = carries ` set (settlers s)" using inv by (auto simp: tracker_inv_def)
  show ?thesis
  proof
    assume "tr_error (tracker s) = None"
    with inv no(1) have "\<not> tr_failed (tracker s)" by (auto simp: tracker_inv_def)
    with inv no(2) have "carries c = None" if "c \<in> set (settlers s)" for c
      using that unfolding tracker_inv_def by blast
    with errs show "\<forall>e \<in> set errors. e = None" by auto
  next
    assume "\<forall>e \<in> set errors. e = None"
    with inv show "tr_error (tracker s) = None"
      unfolding tracker_inv_def by (metis not_None_eq)
  qed
qed

text \<open>Once every call has returned, nothing is owed and the notifier has been taken.\<close>

lemma tracker_all_returned:
  assumes inv: "tracker_inv errors tot s" and "0 < tot" "\<forall>c \<in> set (settlers s). \<exists>e. c = Finished e"
  shows "notified s = 1"
proof -
  have "owed c = 0" "\<not> is_notifying c" if "c \<in> set (settlers s)" for c
    using assms(3) that by auto
  moreover from this(1) inv have "tr_remaining (tracker s) = 0" by (simp add: tracker_inv_def)
  ultimately have "\<not> tr_notify (tracker s)" using inv assms(2) by (auto simp: tracker_inv_def)
  with inv show ?thesis by (simp add: tracker_inv_def)
qed

section \<open>A small producer\<close>

text \<open>A producer with room for a number of records, which never drains, and a clock.\<close>

definition demo_producer :: "(nat \<times> duration, string) producer_ops" where
  "demo_producer = \<lparr>
     pr_send = (\<lambda>(room, now) r. if rec_payload r = [] then (Refused ''empty'', room, now)
       else if room = 0 then (QueueFull, room, now) else (Queued, room - 1, now)),
     pr_now = snd, pr_sleep = (\<lambda>d (room, now). (room, now + d))\<rparr>"

lemma demo_producer_laws: "clock_laws demo_producer"
  by (auto simp: clock_laws_def demo_producer_def)

definition demo_batch :: event_batch where
  "demo_batch = EventBatch_new 0 (replicate 2 \<lparr>key = None, payload = ''x'', timestamp_ms = None,
     source = \<lparr>component_id = ''in'', topic = ''t'', partition = 0, offset = 0\<rparr>\<rparr>)"

definition demo_sink :: kafka_sink where
  "demo_sink = \<lparr>sink_id = ''out'', sink_topic = ''copy'', enqueue_timeout = 3000000,
     sink_batch = \<lparr>max_events = 10, max_bytes = 100, linger = 0\<rparr>\<rparr>"

section \<open>Properties\<close>

text \<open>
  C9: concurrent delivery reports cannot lose an error: for every interleaving of the atomic
  actions of the \<open>settle\<close> calls of a write, whatever number of records each settles, the write
  is notified at most once and only when every record is settled, and by then the tracker
  holds an error exactly if some call carried one, and that error is one of theirs. Once every
  call has returned, the write has been notified exactly once.
\<close>

theorem tracker_notification_carries_errors:
  assumes "run settler_step (tracker_start vs) ls = Some s"
  shows "notified s \<le> 1 \<and>
    (0 < notified s \<longrightarrow> tr_remaining (tracker s) = 0 \<and>
       (tr_error (tracker s) = None \<longleftrightarrow> (\<forall>(n, e) \<in> set vs. n = 0 \<or> e = None)) \<and>
       (\<forall>k. tr_error (tracker s) = Some k \<longrightarrow> (\<exists>n. (n, Some k) \<in> set vs))) \<and>
    (0 < sum_list (map fst vs) \<and> (\<forall>c \<in> set (settlers s). \<exists>e. c = Finished e) \<longrightarrow> notified s = 1)"
proof -
  let ?errs = "map (\<lambda>(n, e). if n = 0 then None else e) vs"
  have inv: "tracker_inv ?errs (sum_list (map fst vs)) s"
    using tracker_run.run_keeps [OF tracker_start_inv assms] .
  have "notified s \<le> 1" using inv by (simp add: tracker_inv_def split: if_splits)
  moreover have "tr_remaining (tracker s) = 0" if "0 < notified s"
    using inv that by (auto simp: tracker_inv_def split: if_splits)
  moreover have "(\<forall>e \<in> set ?errs. e = None) \<longleftrightarrow> (\<forall>(n, e) \<in> set vs. n = 0 \<or> e = None)"
    by (induction vs) (auto split: if_splits)
  moreover have "\<exists>n. (n, Some k) \<in> set vs" if "tr_error (tracker s) = Some k" for k
  proof -
    from inv that have "Some k \<in> set ?errs" by (simp add: tracker_inv_def)
    then show ?thesis by (auto split: if_splits)
  qed
  moreover note tracker_all_returned [OF inv]
  ultimately show ?thesis using tracker_drained [OF inv] by auto
qed

theorem tracker_notification_carries_errors_witness:
  "\<exists>s. run settler_step (tracker_start [(1, Some ''timeout''), (2, None), (1, Some ''full'')])
       [2, 0, 0, 2, 2, 1, 1, 1] = Some s \<and> notified s = 1 \<and> tr_error (tracker s) \<noteq> None"
proof -
  obtain s where s: "run settler_step (tracker_start [(1, Some ''timeout''), (2, None), (1, Some ''full'')])
       [2, 0, 0, 2, 2, 1, 1, 1] = Some s" "\<forall>c \<in> set (settlers s). \<exists>e. c = Finished e"
    by (simp add: settler_step_def tracker_start_def BatchTracker_new_def numeral_2_eq_2 Let_def)
  from tracker_notification_carries_errors [OF s(1)] s show ?thesis by auto
qed

text \<open>
  C10: a Kafka write always returns: with a clock that advances, the queue-full loop ends by
  its deadline, and once each queued record has had its delivery report the write returns,
  also when some records were never queued. It returns \<open>Ok\<close> exactly when every record was
  queued and every report was a success.
\<close>

theorem kafka_write_returns:
  assumes "clock_laws P"
    and "\<And>n e p'. enqueue_all P (pr_now P (we_producer x) + enqueue_timeout sink) (enqueue_timeout sink)
      (map (record_for (sink_topic sink)) (flat_events bs)) (we_producer x) = Some (n, e, p') \<Longrightarrow>
      length (we_early x @ we_late x) = n"
  shows "\<exists>r. write_batches P sink x bs = Some r \<and>
    (is_ok r \<longleftrightarrow> length (we_early x @ we_late x) = length (flat_events bs) \<and>
       (\<forall>e \<in> set (we_early x @ we_late x). e = None) \<or> flat_events bs = [])"
proof (cases "flat_events bs = []")
  case True
  then show ?thesis by (simp add: write_batches_def length_flat_events [symmetric])
next
  case False
  from enqueue_all_returns [OF assms(1)] obtain n e p' where
    q: "enqueue_all P (pr_now P (we_producer x) + enqueue_timeout sink) (enqueue_timeout sink)
      (map (record_for (sink_topic sink)) (flat_events bs)) (we_producer x) = Some (n, e, p')" by blast
  note r = assms(2) [OF q]
  have c: "e = None \<longleftrightarrow> n = length (flat_events bs)" using enqueue_all_count [OF q] by simp
  define es where "es = filter (\<lambda>x. x \<noteq> None) (we_early x @ we_late x)"
  note es = reported_errors(1) [of "we_early x @ we_late x", folded es_def]
    and hd = reported_errors(2) [of "we_early x @ we_late x", folded es_def]
  have w: "write_batches P sink x bs = Some (case e of
      Some e \<Rightarrow> Err e
    | None \<Rightarrow> (case es of
        Some k # _ \<Rightarrow> Err (Context ''Kafka delivery failed'' (Foreign k))
      | _ \<Rightarrow> Ok (WriteOutcome_written (of_nat (length (flat_events bs))))))"
    using write_batches_result [OF _ q r] False unfolding es_def by simp
  show ?thesis
  proof (cases e)
    case None
    with c r have n: "length (we_early x @ we_late x) = length (flat_events bs)" by simp
    show ?thesis
    proof (cases "es = []")
      case True
      with None n es w show ?thesis by simp
    next
      case False
      with hd None n es w \<open>flat_events bs \<noteq> []\<close> show ?thesis by auto
    qed
  next
    case (Some err)
    with c r have "length (we_early x @ we_late x) \<noteq> length (flat_events bs)" by simp
    with Some w False show ?thesis by simp
  qed
qed

theorem kafka_write_returns_witness:
  "\<exists>r. write_batches demo_producer demo_sink \<lparr>we_producer = (1, 0), we_early = [], we_late = [None]\<rparr> [demo_batch] = Some r \<and>
     \<not> is_ok r"
proof -
  let ?x = "\<lparr>we_producer = (1, 0), we_early = [], we_late = [None]\<rparr> :: (nat \<times> duration, string) write_env"
  have "enqueue_all demo_producer (pr_now demo_producer (we_producer ?x) + enqueue_timeout demo_sink) (enqueue_timeout demo_sink)
      (map (record_for (sink_topic demo_sink)) (flat_events [demo_batch])) (we_producer ?x) =
      Some (1, Some (Bail (queue_full_message 3000000)), (0, 4000000))"
    by (simp add: demo_producer_def demo_sink_def demo_batch_def record_for_def numeral_2_eq_2
      enqueue_one.simps QUEUE_FULL_BACKOFF_def)
  with kafka_write_returns [OF demo_producer_laws, of ?x demo_sink "[demo_batch]"] show ?thesis
    by (auto simp: demo_batch_def)
qed

text \<open>
  C39: a Kafka write never returns early, neither with success nor with an error: while a delivery
  report of a queued record is missing it has not returned, also when the enqueue loop was stopped by
  an error and the records that were never queued have been settled.
\<close>

theorem kafka_write_waits_for_reports:
  assumes "enqueue_all P (pr_now P (we_producer x) + enqueue_timeout sink) (enqueue_timeout sink)
      (map (record_for (sink_topic sink)) (flat_events bs)) (we_producer x) = Some (n, e, p')"
    and "length (we_early x @ we_late x) < n"
  shows "write_batches P sink x bs = None"
proof -
  from enqueue_all_count [OF assms(1)] assms(2) have "0 < length (flat_events bs)" by (cases "flat_events bs") auto
  from write_batches_waits [OF this assms] show ?thesis .
qed

theorem kafka_write_waits_for_reports_witness:
  "write_batches demo_producer demo_sink \<lparr>we_producer = (2, 0), we_early = [None], we_late = []\<rparr> [demo_batch] = None"
  by (rule kafka_write_waits_for_reports [where n = 2 and e = None and p' = "(0, 0)"])
    (simp_all add: demo_producer_def demo_sink_def demo_batch_def record_for_def numeral_2_eq_2
      enqueue_one.simps)

text \<open>
  With a Kafka sink, a sink task that ran until its channel closed and returned \<open>Ok\<close> has
  counted every event it received, as written and none as dropped twice or missed.
\<close>

theorem kafka_sink_counts_every_event:
  assumes "run (run_step (write_batches P sink) batching settings capacity) run_start ls = Some s"
    and "phase s = Returned (Ok ())" "\<not> cancelled s"
  shows "events_out (counters s) + events_dropped (counters s) = of_nat (group_events (received s))"
  using kafka.run_counts_everything [OF assms] .

theorem kafka_sink_counts_every_event_witness:
  "\<exists>s. run (run_step (write_batches demo_producer demo_sink) (sink_batch demo_sink)
      \<lparr>max_concurrent_writes = 1, retry_max_attempts = 1, retry_initial_backoff = 0, retry_max_backoff = 0\<rparr> 2)
      run_start
      [Push \<lparr>env_id = 0, env_batch = demo_batch\<rparr>, Close, Poll 0, Poll 0, Poll 0,
       Attempt 0 \<lparr>we_producer = (2, 0), we_early = [None], we_late = [None]\<rparr>, Poll 0, Poll 0, Poll 0] = Some s \<and>
     events_out (counters s) + events_dropped (counters s) = 2"
proof -
  obtain s where s: "run (run_step (write_batches demo_producer demo_sink) (sink_batch demo_sink)
      \<lparr>max_concurrent_writes = 1, retry_max_attempts = 1, retry_initial_backoff = 0, retry_max_backoff = 0\<rparr> 2)
      run_start
      [Push \<lparr>env_id = 0, env_batch = demo_batch\<rparr>, Close, Poll 0, Poll 0, Poll 0,
       Attempt 0 \<lparr>we_producer = (2, 0), we_early = [None], we_late = [None]\<rparr>, Poll 0, Poll 0, Poll 0] = Some s"
    "phase s = Returned (Ok ())" "\<not> cancelled s" "received s = [\<lparr>env_id = 0, env_batch = demo_batch\<rparr>]"
    by (simp add: run_exec demo_batch_def demo_sink_def demo_producer_def numeral_2_eq_2 write_batches_def
      enqueue_one.simps record_for_def settlements_def settle_def record_error_def BatchTracker_new_def
      take_error_def EventBatch_new_def estimated_size_def WriteOutcome_written_def Let_def)
  from kafka_sink_counts_every_event [OF s(1-3)] s show ?thesis
    by (auto simp: group_events_def demo_batch_def)
qed

end
