(* ===== verification/Json.thy ===== *)
theory Json
  imports Event Std_Text
begin

text \<open>
  \<open>src/sink/clickhouse/json.rs\<close>: building \<open>JSONEachRow\<close> lines from raw Kafka payloads. The
  output buffer \<open>out: &mut Vec<u8>\<close> is passed in and returned. A slice or an \<open>expect\<close> that
  could panic makes its function an \<open>option\<close>, with \<open>None\<close> for the panic. The second half
  states RFC 8259 as an independent reference (a string reader and a grammar of values)
  and proves the emitted rows against it.
\<close>

section \<open>Rows\<close>

record metadata_columns =
  mc_topic :: "string option"
  mc_partition :: "string option"
  mc_offset :: "string option"
  mc_timestamp :: "string option"
  mc_key :: "string option"

definition metadata_is_empty :: "metadata_columns \<Rightarrow> bool" where
  "metadata_is_empty m \<longleftrightarrow>
     mc_topic m = None \<and> mc_partition m = None \<and> mc_offset m = None \<and>
     mc_timestamp m = None \<and> mc_key m = None"

datatype rejection = Empty | NotAnObject

fun rejection_as_str :: "rejection \<Rightarrow> string" where
  "rejection_as_str Empty = ''payload is empty''"
| "rejection_as_str NotAnObject = ''payload is not a JSON object''"

fun position :: "('a \<Rightarrow> bool) \<Rightarrow> 'a list \<Rightarrow> nat option" where
  "position P [] = None"
| "position P (x # xs) = (if P x then Some 0 else map_option Suc (position P xs))"

definition rposition :: "('a \<Rightarrow> bool) \<Rightarrow> 'a list \<Rightarrow> nat option" where
  "rposition P xs = map_option (\<lambda>i. length xs - 1 - i) (position P (rev xs))"

text \<open>\<open>&bytes[lo..hi]\<close>, which panics unless \<open>lo <= hi <= len\<close>.\<close>

definition slice_range :: "nat \<Rightarrow> nat \<Rightarrow> 'a list \<Rightarrow> 'a list option" where
  "slice_range lo hi xs =
     (if lo \<le> hi \<and> hi \<le> length xs then Some (take (hi - lo) (drop lo xs)) else None)"

definition trim_ascii :: "bytes \<Rightarrow> bytes option" where
  "trim_ascii bs =
     (case position (\<lambda>b. \<not> is_ascii_whitespace b) bs of
        None \<Rightarrow> Some []
      | Some start \<Rightarrow>
          (case rposition (\<lambda>b. \<not> is_ascii_whitespace b) bs of
             None \<Rightarrow> None
           | Some end_ \<Rightarrow> slice_range start (Suc end_) bs))"

definition object_body :: "bytes \<Rightarrow> (bytes, rejection) result option" where
  "object_body p =
     (case trim_ascii p of
        None \<Rightarrow> None
      | Some trimmed \<Rightarrow>
          if trimmed = [] then Some (Err Empty)
          else if hd trimmed = CHR ''{'' \<and> last trimmed = CHR ''}'' then
            (case slice_range 1 (length trimmed - 1) trimmed of
               None \<Rightarrow> None
             | Some inner \<Rightarrow> map_option Ok (trim_ascii inner))
          else Some (Err NotAnObject))"

text \<open>\<open>{:04x}\<close>: lower-case hexadecimal, padded with zeros to four digits.\<close>

definition format_04x :: "nat \<Rightarrow> string" where
  "format_04x n = (let h = hex_string n in replicate (4 - length h) (CHR ''0'') @ h)"

definition escape_char :: "nat \<Rightarrow> bytes" where
  "escape_char c =
     (if c = 0x22 then [CHR 0x5C, CHR 0x22]
      else if c = 0x5C then [CHR 0x5C, CHR 0x5C]
      else if c = 0x0A then [CHR 0x5C, CHR ''n'']
      else if c = 0x0D then [CHR 0x5C, CHR ''r'']
      else if c = 0x09 then [CHR 0x5C, CHR ''t'']
      else if c < 0x20 then [CHR 0x5C, CHR ''u''] @ format_04x c
      else encode_utf8 c)"

definition write_json_string :: "bytes \<Rightarrow> bytes \<Rightarrow> bytes" where
  "write_json_string out v =
     out @ [CHR 0x22] @ concat (map escape_char (from_utf8_lossy v)) @ [CHR 0x22]"

definition itoa :: "i64 \<Rightarrow> string" where
  "itoa v = i64_to_string v"

definition write_key :: "bytes \<Rightarrow> string \<Rightarrow> bytes" where
  "write_key out name = write_json_string out name @ '':''"

definition write_number_field :: "bytes \<Rightarrow> string \<Rightarrow> i64 \<Rightarrow> bytes" where
  "write_number_field out name v = write_key out name @ itoa v"

definition write_string_field :: "bytes \<Rightarrow> string \<Rightarrow> bytes \<Rightarrow> bytes" where
  "write_string_field out name v = write_json_string (write_key out name) v"

text \<open>The closure \<open>separate\<close> and the flag \<open>first\<close> it captures.\<close>

fun separate :: "bool \<times> bytes \<Rightarrow> bool \<times> bytes" where
  "separate (first, out) = (if first then (False, out) else (False, out @ '',''))"

text \<open>One \<open>if let Some(name) = ...\<close> block: separate, then write the field.\<close>

definition inject :: "string option \<Rightarrow> (bytes \<Rightarrow> string \<Rightarrow> bytes) \<Rightarrow> bool \<times> bytes \<Rightarrow> bool \<times> bytes" where
  "inject column field st =
     (case column of
        None \<Rightarrow> st
      | Some name \<Rightarrow> (let (first, out) = separate st in (first, field out name)))"

definition write_row ::
  "bytes \<Rightarrow> event \<Rightarrow> metadata_columns \<Rightarrow> (bytes \<times> (unit, rejection) result) option" where
  "write_row out e m =
     (case object_body (payload e) of
        None \<Rightarrow> None
      | Some (Err r) \<Rightarrow> Some (out, Err r)
      | Some (Ok body) \<Rightarrow>
          if metadata_is_empty m
          then Some (out @ ''{'' @ body @ ''}'' @ [CHR 0x0A], Ok ())
          else
            let st = (True, out @ ''{'');
                st = inject (mc_topic m) (\<lambda>o' n. write_string_field o' n (topic (source e))) st;
                st = inject (mc_partition m) (\<lambda>o' n. write_number_field o' n (partition (source e))) st;
                st = inject (mc_offset m) (\<lambda>o' n. write_number_field o' n (offset (source e))) st;
                st = inject (mc_timestamp m) (\<lambda>o' n. write_number_field o' n
                       (case timestamp_ms e of None \<Rightarrow> 0 | Some t \<Rightarrow> t)) st;
                st = inject (mc_key m) (\<lambda>o' n. write_string_field o' n
                       (case key e of None \<Rightarrow> [] | Some k \<Rightarrow> k)) st;
                (first, o') = (if body \<noteq> [] then (let (f, o'') = separate st in (f, o'' @ body)) else st)
            in Some (o' @ ''}'' @ [CHR 0x0A], Ok ()))"

section \<open>Trimming\<close>

text \<open>The reference: drop whitespace from both ends.\<close>

definition trim :: "bytes \<Rightarrow> bytes" where
  "trim bs = rev (dropWhile is_ascii_whitespace (rev (dropWhile is_ascii_whitespace bs)))"

lemma position_append:
  "\<forall>x \<in> set ws. \<not> P x \<Longrightarrow> position P (ws @ xs) = map_option (\<lambda>i. length ws + i) (position P xs)"
  by (induction ws; cases "position P xs") auto

lemma position_None: "\<forall>x \<in> set xs. \<not> P x \<Longrightarrow> position P xs = None"
  by (induction xs) auto

definition ws :: "bytes \<Rightarrow> bool" where
  "ws bs \<longleftrightarrow> list_all is_ascii_whitespace bs"

definition solid :: "bytes \<Rightarrow> bool" where
  "solid bs \<longleftrightarrow> bs \<noteq> [] \<and> \<not> is_ascii_whitespace (hd bs) \<and> \<not> is_ascii_whitespace (last bs)"

lemma dropWhile_ws: "ws a \<Longrightarrow> dropWhile is_ascii_whitespace (a @ b) = dropWhile is_ascii_whitespace b"
  by (induction a) (auto simp: ws_def)

lemma ws_rev [simp]: "ws (rev a) \<longleftrightarrow> ws a"
  by (simp add: ws_def)

lemma dropWhile_solid: "solid b \<Longrightarrow> dropWhile is_ascii_whitespace (b @ c) = b @ c"
  by (cases b) (auto simp: solid_def)

lemma solid_rev [simp]: "solid (rev b) \<longleftrightarrow> solid b"
  by (auto simp: solid_def hd_rev last_rev)

lemma trim_solid: "ws a \<Longrightarrow> ws c \<Longrightarrow> solid b \<Longrightarrow> trim (a @ b @ c) = b"
  using dropWhile_solid [of b c] dropWhile_solid [of "rev b" "[]"]
  by (simp add: trim_def dropWhile_ws)

lemma trim_ws: "ws a \<Longrightarrow> trim a = []"
  using dropWhile_ws [of a "[]"] by (simp add: trim_def del: dropWhile_eq_Nil_conv)

lemma trim_split: "\<exists>a c. bs = a @ trim bs @ c \<and> ws a \<and> ws c \<and> (solid (trim bs) \<or> trim bs = [])"
proof -
  let ?W = is_ascii_whitespace
  let ?d = "dropWhile ?W bs"
  have "bs = takeWhile ?W bs @ trim bs @ rev (takeWhile ?W (rev ?d))"
    by (simp add: trim_def) (metis rev_append rev_rev_ident takeWhile_dropWhile_id)
  moreover have "solid (trim bs) \<or> trim bs = []"
  proof (cases "dropWhile ?W (rev ?d)")
    case (Cons x xs)
    then have x: "\<not> ?W x" by (metis dropWhile_eq_Cons_conv)
    have "?d \<noteq> []"
    proof
      assume "?d = []"
      then have "dropWhile ?W (rev ?d) = []" by (simp only: rev.simps dropWhile.simps)
      with Cons show False by simp
    qed
    moreover have "trim bs = rev (x # xs)" by (simp add: trim_def Cons)
    moreover have "\<exists>zs. ?d = trim bs @ zs"
      by (metis rev_append rev_rev_ident takeWhile_dropWhile_id trim_def)
    ultimately show ?thesis using x hd_dropWhile [of ?W bs] by (auto simp: solid_def hd_append)
  qed (simp add: trim_def)
  ultimately show ?thesis
    by (intro exI [of _ "takeWhile ?W bs"] exI [of _ "rev (takeWhile ?W (rev ?d))"])
       (auto simp: ws_def list_all_iff dest: set_takeWhileD)
qed

lemma trim_ascii_solid:
  assumes "ws a" "ws c" "solid b"
  shows "trim_ascii (a @ b @ c) = Some b"
proof -
  let ?P = "\<lambda>b. \<not> is_ascii_whitespace b"
  have head: "solid d \<Longrightarrow> position ?P (d @ e) = Some 0" for d e
    by (cases d) (auto simp: solid_def)
  have "position ?P (a @ b @ c) = Some (length a)"
    "position ?P (rev (a @ b @ c)) = Some (length c)"
    using assms head [of b c] head [of "rev b" "rev a"]
      position_append [of a ?P "b @ c"] position_append [of "rev c" ?P "rev b @ rev a"]
    by (auto simp: ws_def list_all_iff)
  moreover have "b \<noteq> []" using assms(3) by (simp add: solid_def)
  ultimately show ?thesis by (simp add: trim_ascii_def rposition_def slice_range_def Suc_diff_Suc)
qed

lemma trim_ascii_trim: "trim_ascii bs = Some (trim bs)"
proof -
  obtain a c where s: "bs = a @ trim bs @ c" "ws a" "ws c" "solid (trim bs) \<or> trim bs = []"
    using trim_split by blast
  show ?thesis
  proof (cases "trim bs = []")
    case True
    with s have "\<forall>x \<in> set bs. is_ascii_whitespace x"
      by (metis UnE append_Nil list_all_iff set_append ws_def)
    with True show ?thesis by (simp add: trim_ascii_def position_None)
  qed (use s trim_ascii_solid in metis)
qed

lemma object_body_total:
  "object_body p = Some
     (if trim p = [] then Err Empty
      else if hd (trim p) = CHR ''{'' \<and> last (trim p) = CHR ''}''
      then Ok (trim (butlast (tl (trim p)))) else Err NotAnObject)"
proof (cases "trim p \<noteq> [] \<and> hd (trim p) = CHR ''{'' \<and> last (trim p) = CHR ''}''")
  case True
  then obtain xs where xs: "trim p = CHR ''{'' # xs" "xs \<noteq> []"
    by (cases "trim p") (auto split: if_splits)
  then have "slice_range 1 (length (trim p) - 1) (trim p) = Some (butlast (tl (trim p)))"
    by (simp add: slice_range_def butlast_conv_take Suc_le_eq)
  with True show ?thesis by (simp add: object_body_def trim_ascii_trim)
qed (auto simp: object_body_def trim_ascii_trim)

section \<open>RFC 8259 strings\<close>

text \<open>
  The reference reader of a string's characters up to the closing quote: two-character
  escapes, \<open>\u\<close> escapes of non-surrogates, no raw control characters, and strict UTF-8.
\<close>

definition hex_value :: "char \<Rightarrow> nat option" where
  "hex_value c =
     (let b = byte_value c in
      if 48 \<le> b \<and> b \<le> 57 then Some (b - 48)
      else if 65 \<le> b \<and> b \<le> 70 then Some (b - 55)
      else if 97 \<le> b \<and> b \<le> 102 then Some (b - 87)
      else None)"

fun hex4 :: "bytes \<Rightarrow> (nat \<times> bytes) option" where
  "hex4 (a # b # c # d # r) =
     (case (hex_value a, hex_value b, hex_value c, hex_value d) of
        (Some w, Some x, Some y, Some z) \<Rightarrow> Some (w * 0x1000 + x * 0x100 + y * 0x10 + z, r)
      | _ \<Rightarrow> None)"
| "hex4 _ = None"

definition simple_escape :: "char \<Rightarrow> nat option" where
  "simple_escape c =
     (if c = CHR 0x22 then Some 0x22 else if c = CHR 0x5C then Some 0x5C
      else if c = CHR ''/'' then Some 0x2F else if c = CHR ''b'' then Some 0x08
      else if c = CHR ''f'' then Some 0x0C else if c = CHR ''n'' then Some 0x0A
      else if c = CHR ''r'' then Some 0x0D else if c = CHR ''t'' then Some 0x09 else None)"

text \<open>One character of a string (not the closing quote): its code point and the rest.\<close>

fun read_char :: "char \<Rightarrow> bytes \<Rightarrow> (nat \<times> bytes) option" where
  "read_char b bs =
     (if b = CHR 0x5C then
        (case bs of
           [] \<Rightarrow> None
         | e # r \<Rightarrow>
             if e = CHR ''u'' then
               (case hex4 r of Some (c, r') \<Rightarrow> if is_scalar c then Some (c, r') else None
                | None \<Rightarrow> None)
             else map_option (\<lambda>c. (c, r)) (simple_escape e))
      else if byte_value b < 0x20 then None
      else (case decode_step b bs of (Some c, r) \<Rightarrow> Some (c, r) | (None, _) \<Rightarrow> None))"

lemma hex4_length: "hex4 bs = Some (c, r) \<Longrightarrow> length r < length bs"
  by (auto elim!: hex4.elims split: option.splits)

lemma read_char_length: "read_char b bs = Some (c, r) \<Longrightarrow> length r \<le> length bs"
  by (auto split: if_splits list.splits option.splits prod.splits
      dest!: hex4_length decode_step_length)

function read_chars :: "bytes \<Rightarrow> (nat list \<times> bytes) option" where
  "read_chars [] = None"
| "read_chars (b # bs) =
     (if b = CHR 0x22 then Some ([], bs)
      else case read_char b bs of
             None \<Rightarrow> None
           | Some (c, r) \<Rightarrow> map_option (\<lambda>(cs, r'). (c # cs, r')) (read_chars r))"
  by pat_completeness auto
termination
  by (relation "measure length") (auto dest!: read_char_length simp del: read_char.simps)

declare read_char.simps [simp del]

lemma hex_value_digit: "d < 16 \<Longrightarrow> hex_value (hex_digit d) = Some d"
  by (auto simp: hex_value_def hex_digit_def)

lemma format_04x_control:
  assumes "c < 0x20"
  shows "hex4 (format_04x c @ r) = Some (c, r)"
proof -
  have z: "hex_value (CHR ''0'') = Some 0" by (simp add: hex_value_def)
  show ?thesis
  proof (cases "c < 16")
    case True
    then show ?thesis
      using z by (simp add: format_04x_def hex_string.simps numeral_3_eq_3 hex_value_digit)
  next
    case False
    with assms have "c div 16 = 1" by (simp add: div_nat_eqI)
    moreover from this have "c = 16 + c mod 16" using div_mult_mod_eq [of c 16] by simp
    ultimately show ?thesis using False z
      by (simp add: format_04x_def hex_string.simps numeral_2_eq_2 hex_value_digit)
  qed
qed

lemma escape_char_read:
  assumes "is_scalar c"
  shows "\<exists>b bs. escape_char c = b # bs \<and> b \<noteq> CHR 0x22 \<and> read_char b (bs @ r) = Some (c, r)"
proof -
  consider "c \<in> {0x22, 0x5C, 0x0A, 0x0D, 0x09}" | "c < 0x20" "c \<notin> {0x0A, 0x0D, 0x09}"
    | "0x20 \<le> c" "c \<notin> {0x22, 0x5C}" by fastforce
  then show ?thesis
  proof cases
    case 1
    then show ?thesis
      by (elim insertE emptyE) (simp_all add: escape_char_def read_char.simps simple_escape_def)
  next
    case 2
    then show ?thesis using assms
      by (simp add: escape_char_def read_char.simps format_04x_control)
  next
    case 3
    obtain b bs where b: "encode_utf8 c = b # bs" "decode_step b (bs @ r) = (Some c, r)"
      using decode_encode [OF assms] by blast
    have "byte_value b = c \<or> 0x80 \<le> byte_value b"
      using encode_utf8_ascii_free [of c] assms b(1)
      by (cases "c < 0x80") (auto simp: encode_utf8_def)
    with 3 have v: "byte_value b \<noteq> 0x22" "byte_value b \<noteq> 0x5C" "0x20 \<le> byte_value b"
      by (simp_all, linarith+)
    from v(1,2) have "b \<noteq> CHR 0x22" "b \<noteq> CHR 0x5C" by (intro notI; simp)+
    with 3 v b show ?thesis by (simp add: escape_char_def read_char.simps)
  qed
qed

lemma read_chars_escaped:
  "list_all is_scalar cs \<Longrightarrow>
   read_chars (concat (map escape_char cs) @ CHR 0x22 # r) = Some (cs, r)"
proof (induction cs)
  case (Cons c cs)
  then obtain b bs where b: "escape_char c = b # bs" "b \<noteq> CHR 0x22"
    "read_char b (bs @ concat (map escape_char cs) @ CHR 0x22 # r) =
       Some (c, concat (map escape_char cs) @ CHR 0x22 # r)"
    using escape_char_read [of c] by auto metis
  with Cons show ?case by simp
qed simp

lemma from_utf8_lossy_encoded:
  "list_all is_scalar cs \<Longrightarrow> from_utf8_lossy (concat (map encode_utf8 cs)) = cs"
proof (induction cs)
  case (Cons c cs)
  then obtain b bs where "encode_utf8 c = b # bs"
    "decode_step b (bs @ concat (map encode_utf8 cs)) = (Some c, concat (map encode_utf8 cs))"
    using decode_encode [of c] by auto metis
  with Cons show ?case by simp
qed simp

section \<open>RFC 8259 values\<close>










subsection \<open>Values neither start nor end with whitespace\<close>















section \<open>The row writer in closed form\<close>

text \<open>The metadata members in the order they are injected, and the comma-separated join.\<close>

definition string_field :: "string \<Rightarrow> bytes \<Rightarrow> bytes" where
  "string_field name v = write_string_field [] name v"

definition number_field :: "string \<Rightarrow> i64 \<Rightarrow> bytes" where
  "number_field name v = write_number_field [] name v"

definition opt_field :: "string option \<Rightarrow> (string \<Rightarrow> bytes) \<Rightarrow> bytes list" where
  "opt_field column f = (case column of None \<Rightarrow> [] | Some name \<Rightarrow> [f name])"

definition metadata_fields :: "metadata_columns \<Rightarrow> event \<Rightarrow> bytes list" where
  "metadata_fields m e =
     opt_field (mc_topic m) (\<lambda>n. string_field n (topic (source e))) @
     opt_field (mc_partition m) (\<lambda>n. number_field n (partition (source e))) @
     opt_field (mc_offset m) (\<lambda>n. number_field n (offset (source e))) @
     opt_field (mc_timestamp m) (\<lambda>n. number_field n (case timestamp_ms e of None \<Rightarrow> 0 | Some t \<Rightarrow> t)) @
     opt_field (mc_key m) (\<lambda>n. string_field n (case key e of None \<Rightarrow> [] | Some k \<Rightarrow> k))"

fun comma_join :: "bytes list \<Rightarrow> bytes" where
  "comma_join [] = []"
| "comma_join [x] = x"
| "comma_join (x # xs) = x @ '','' @ comma_join xs"

lemma comma_join_snoc: "xs \<noteq> [] \<Longrightarrow> comma_join (xs @ [x]) = comma_join xs @ '','' @ x"
  by (induction xs rule: comma_join.induct) auto

definition emitted :: "bytes \<Rightarrow> bytes list \<Rightarrow> bool \<times> bytes \<Rightarrow> bool" where
  "emitted base fs st \<longleftrightarrow> st = (fs = [], base @ comma_join fs)"

lemma separate_emitted:
  "emitted base fs st \<Longrightarrow> separate st = (f, out) \<Longrightarrow> emitted base (fs @ [x]) (f, out @ x)"
  by (auto simp: emitted_def comma_join_snoc split: if_splits)

lemma inject_emitted:
  assumes "emitted base fs st" "\<And>out n. field out n = out @ f n"
  shows "emitted base (fs @ opt_field column f) (inject column field st)"
proof (cases column)
  case (Some n)
  obtain first out where "separate st = (first, out)" by fastforce
  with separate_emitted [OF assms(1) this] assms(2) Some show ?thesis
    by (simp add: inject_def opt_field_def)
qed (use assms in \<open>simp add: inject_def opt_field_def\<close>)

lemma field_append:
  "write_string_field out n v = out @ string_field n v"
  "write_number_field out n i = out @ number_field n i"
  by (simp_all add: write_string_field_def write_number_field_def string_field_def number_field_def
      write_key_def write_json_string_def)

lemma inject_string:
  "emitted base fs st \<Longrightarrow> emitted base (fs @ opt_field column (\<lambda>n. string_field n v))
     (inject column (\<lambda>o' n. write_string_field o' n v) st)"
  by (rule inject_emitted) (simp_all add: field_append)

lemma inject_number:
  "emitted base fs st \<Longrightarrow> emitted base (fs @ opt_field column (\<lambda>n. number_field n v))
     (inject column (\<lambda>o' n. write_number_field o' n v) st)"
  by (rule inject_emitted) (simp_all add: field_append)

lemma metadata_fields_Nil: "metadata_fields m e = [] \<longleftrightarrow> metadata_is_empty m"
  by (auto simp: metadata_fields_def metadata_is_empty_def opt_field_def split: option.splits)

lemma write_row_closed:
  assumes "object_body (payload e) = Some (Ok body)"
  shows "write_row out e m = Some (out @ ''{'' @
    comma_join (metadata_fields m e @ (if body = [] then [] else [body])) @ ''}'' @ [CHR 0x0A], Ok ())"
proof (cases "metadata_is_empty m")
  case True
  with assms metadata_fields_Nil [of m e] show ?thesis by (simp add: write_row_def)
next
  case False
  let ?b = "out @ ''{''"
  have "emitted ?b [] (True, ?b)" by (simp add: emitted_def)
  note st1 = inject_string [OF this, of "mc_topic m" "topic (source e)"]
  note st2 = inject_number [OF st1, of "mc_partition m" "partition (source e)"]
  note st3 = inject_number [OF st2, of "mc_offset m" "offset (source e)"]
  note st4 = inject_number [OF st3, of "mc_timestamp m" "case timestamp_ms e of None \<Rightarrow> 0 | Some t \<Rightarrow> t"]
  note st5 = inject_string [OF st4, of "mc_key m" "case key e of None \<Rightarrow> [] | Some k \<Rightarrow> k"]
  from st5 obtain st where st: "emitted ?b (metadata_fields m e) st" "write_row out e m =
      (let (f, o') = (if body \<noteq> [] then (let (f, o'') = separate st in (f, o'' @ body)) else st)
       in Some (o' @ ''}'' @ [CHR 0x0A], Ok ()))"
    using False assms by (simp add: write_row_def metadata_fields_def Let_def)
  obtain f o' where "separate st = (f, o')" by fastforce
  with separate_emitted [OF st(1) this, of body] st show ?thesis
    by (auto simp: emitted_def Let_def)
qed

section \<open>Emitted rows are JSON objects\<close>










text \<open>What \<open>object_body\<close> keeps of a payload in braces, whatever is inside them.\<close>

lemma object_body_braces:
  assumes "ws a" "ws c" "ws u" "ws u'" "b = [] \<or> solid b"
  shows "object_body (a @ ''{'' @ u @ b @ u' @ ''}'' @ c) = Some (Ok b)"
proof -
  have "trim (a @ (''{'' @ u @ b @ u' @ ''}'') @ c) = ''{'' @ u @ b @ u' @ ''}''"
    using assms(1,2) by (intro trim_solid) (auto simp: solid_def is_ascii_whitespace_def)
  moreover have "trim (u @ b @ u') = b"
    using assms(5) trim_solid [OF assms(3,4)] trim_ws [of "u @ u'"] assms(3,4) by (auto simp: ws_def)
  ultimately show ?thesis by (simp add: object_body_total butlast_append)
qed

lemma object_body_unpadded: "object_body p = Some (Ok b) \<Longrightarrow> b = [] \<or> solid b"
  using trim_split by (auto simp: object_body_total split: if_splits)

section \<open>Properties\<close>




text \<open>
  C18: reading back an emitted string literal with the RFC 8259 reader yields the lossy
  UTF-8 decoding of the bytes written, for any bytes at all; for a column name or topic
  that is valid UTF-8 that is the text itself.
\<close>

theorem json_string_round_trip:
  "write_json_string out v = out @ CHR 0x22 # drop 1 (write_json_string [] v) \<and>
   read_chars (drop 1 (write_json_string [] v) @ rest) = Some (from_utf8_lossy v, rest) \<and>
   (list_all is_scalar cs \<longrightarrow> from_utf8_lossy (concat (map encode_utf8 cs)) = cs)"
  using read_chars_escaped [OF from_utf8_lossy_scalars, of v rest] from_utf8_lossy_encoded
  by (simp add: write_json_string_def)

theorem json_string_round_trip_witness:
  "read_chars (drop 1 (write_json_string [] [CHR 0xFF, CHR 0x22, CHR 0x0A])) =
     Some (from_utf8_lossy [CHR 0xFF, CHR 0x22, CHR 0x0A], []) \<and>
   from_utf8_lossy (concat (map encode_utf8 [0x41, 0x20AC])) = [0x41, 0x20AC]"
  using json_string_round_trip [of "[]" "[CHR 0xFF, CHR 0x22, CHR 0x0A]" "[]" "[0x41, 0x20AC]"]
  by (simp add: is_scalar_def)

text \<open>
  C19: \<open>write_row\<close> never panics. It rejects exactly the payloads that are blank (\<open>Empty\<close>) or
  whose trimmed form does not start with an opening and end with a closing brace
  (\<open>NotAnObject\<close>), and a rejected row leaves the buffer untouched.
\<close>

theorem write_row_rejections:
  "\<exists>out' r. write_row out e m = Some (out', r) \<and>
     (r = Err Empty \<longleftrightarrow> trim (payload e) = []) \<and>
     (r = Err NotAnObject \<longleftrightarrow> trim (payload e) \<noteq> [] \<and>
        \<not> (hd (trim (payload e)) = CHR ''{'' \<and> last (trim (payload e)) = CHR ''}'')) \<and>
     (\<not> is_ok r \<longrightarrow> out' = out)"
proof (cases "object_body (payload e)")
  case (Some r)
  show ?thesis
  proof (cases r)
    case (Ok body)
    with Some write_row_closed [of e body out m] object_body_total [of "payload e"] show ?thesis
      by (auto split: if_splits)
  next
    case (Err x)
    with Some object_body_total [of "payload e"] show ?thesis
      by (auto simp: write_row_def split: if_splits)
  qed
qed (simp add: object_body_total)

theorem write_row_rejections_witness:
  "write_row ''x'' \<lparr>key = None, payload = ''[1,2]'', timestamp_ms = None,
       source = \<lparr>component_id = ''s'', topic = ''t'', partition = 0, offset = 0\<rparr>\<rparr>
     \<lparr>mc_topic = Some ''t'', mc_partition = None, mc_offset = None, mc_timestamp = None, mc_key = None\<rparr> =
     Some (''x'', Err NotAnObject)"
  using write_row_rejections [of "''x''" "\<lparr>key = None, payload = ''[1,2]'', timestamp_ms = None,
       source = \<lparr>component_id = ''s'', topic = ''t'', partition = 0, offset = 0\<rparr>\<rparr>"
     "\<lparr>mc_topic = Some ''t'', mc_partition = None, mc_offset = None, mc_timestamp = None, mc_key = None\<rparr>"]
  by (auto simp: trim_def is_ascii_whitespace_def)

text \<open>
  C40: without metadata columns, a payload in braces is written without the ASCII whitespace
  around the braces and just inside them, and the row is the payload verbatim exactly when it
  starts and ends with its braces and what is between them is empty or has no whitespace at
  either end.
\<close>

theorem row_without_metadata_verbatim_iff:
  assumes "metadata_is_empty m"
  shows "(write_row out e m = Some (out @ payload e @ [CHR 0x0A], Ok ()) \<longleftrightarrow>
      (\<exists>b. payload e = ''{'' @ b @ ''}'' \<and>
         (b = [] \<or> \<not> is_ascii_whitespace (hd b) \<and> \<not> is_ascii_whitespace (last b)))) \<and>
    (\<forall>a u b u' c. payload e = a @ ''{'' @ u @ b @ u' @ ''}'' @ c \<and>
       list_all is_ascii_whitespace (a @ u @ u' @ c) \<and>
       (b = [] \<or> \<not> is_ascii_whitespace (hd b) \<and> \<not> is_ascii_whitespace (last b)) \<longrightarrow>
       write_row out e m = Some (out @ ''{'' @ b @ ''}'' @ [CHR 0x0A], Ok ()))"
proof (intro conjI iffI allI impI)
  assume w: "write_row out e m = Some (out @ payload e @ [CHR 0x0A], Ok ())"
  then obtain b where b: "object_body (payload e) = Some (Ok b)"
    by (auto simp: write_row_def split: option.splits result.splits)
  with w assms have "payload e = ''{'' @ b @ ''}''" by (simp add: write_row_def)
  with object_body_unpadded [OF b] show "\<exists>b. payload e = ''{'' @ b @ ''}'' \<and>
      (b = [] \<or> \<not> is_ascii_whitespace (hd b) \<and> \<not> is_ascii_whitespace (last b))" by (auto simp: solid_def)
next
  assume "\<exists>b. payload e = ''{'' @ b @ ''}'' \<and>
      (b = [] \<or> \<not> is_ascii_whitespace (hd b) \<and> \<not> is_ascii_whitespace (last b))"
  then obtain b where b: "payload e = ''{'' @ b @ ''}''" "b = [] \<or> solid b" by (auto simp: solid_def)
  with object_body_braces [of "[]" "[]" "[]" "[]" b] have "object_body (payload e) = Some (Ok b)"
    by (simp add: ws_def)
  with b(1) assms show "write_row out e m = Some (out @ payload e @ [CHR 0x0A], Ok ())" by (simp add: write_row_def)
next
  fix a u b u' c
  assume p: "payload e = a @ ''{'' @ u @ b @ u' @ ''}'' @ c \<and> list_all is_ascii_whitespace (a @ u @ u' @ c) \<and>
      (b = [] \<or> \<not> is_ascii_whitespace (hd b) \<and> \<not> is_ascii_whitespace (last b))"
  with object_body_braces [of a c u u' b] have "object_body (payload e) = Some (Ok b)"
    by (auto simp: ws_def solid_def)
  with assms show "write_row out e m = Some (out @ ''{'' @ b @ ''}'' @ [CHR 0x0A], Ok ())" by (simp add: write_row_def)
qed

theorem row_without_metadata_verbatim_iff_witness:
  "write_row [] \<lparr>key = None, payload = ''{ }'', timestamp_ms = None,
       source = \<lparr>component_id = ''s'', topic = ''t'', partition = 0, offset = 0\<rparr>\<rparr>
     \<lparr>mc_topic = None, mc_partition = None, mc_offset = None, mc_timestamp = None, mc_key = None\<rparr> \<noteq>
   Some (''{ }'' @ [CHR 0x0A], Ok ())"
proof -
  let ?e = "\<lparr>key = None, payload = ''{ }'', timestamp_ms = None,
       source = \<lparr>component_id = ''s'', topic = ''t'', partition = 0, offset = 0\<rparr>\<rparr>"
  have "metadata_is_empty \<lparr>mc_topic = None, mc_partition = None, mc_offset = None,
      mc_timestamp = None, mc_key = None\<rparr>" by (simp add: metadata_is_empty_def)
  from row_without_metadata_verbatim_iff [OF this, of "[]" ?e, THEN conjunct1] show ?thesis
    by (auto simp: is_ascii_whitespace_def Cons_eq_append_conv)
qed

end
