(* ===== verification/Clickhouse_Sink.thy ===== *)
theory Clickhouse_Sink
  imports Sink_Runtime Json "HOL-Library.Sublist"
begin

text \<open>
  \<open>src/sink/clickhouse/mod.rs\<close>: the ClickHouse sink. The \<open>clickhouse\<close> crate is a parameter: a
  function that answers each call of a write given the calls made before it, so every
  behaviour of the client and the server is some such function. A write returns its result
  together with the calls it made.
\<close>

section \<open>The sink\<close>

record event_row =
  row_timestamp_ms :: i64
  row_source_component :: string
  row_source_topic :: string
  row_source_partition :: i32
  row_source_offset :: i64
  row_key :: bytes
  row_payload :: bytes

text \<open>
  The value of a setting is the \<open>to_string\<close> of a number of the configuration; the number
  stands for its text.
\<close>

datatype setting_value = Shown_u64 u64 | Shown_f64 f64

text \<open>\<open>x > 0.0\<close>; the flag of an infinity is its sign bit.\<close>

fun f64_positive :: "f64 \<Rightarrow> bool" where
  "f64_positive NaN = False"
| "f64_positive (Infinity negative) = (\<not> negative)"
| "f64_positive (Finite x) = (0 < x)"

record client =
  client_url :: string
  client_database :: string
  client_user :: string
  client_password :: string
  client_settings :: "(string \<times> setting_value) list"

record clickhouse_sink =
  chs_id :: string
  chs_table :: string
  chs_client :: client
  chs_batch :: batch_settings
  chs_schema :: clickhouse_schema
  chs_metadata :: metadata_columns

definition ClickhouseSink_new :: "string \<Rightarrow> clickhouse_sink_config \<Rightarrow> clickhouse_sink" where
  "ClickhouseSink_new sid c =
     (let client = \<lparr>client_url = ch_endpoint c, client_database = ch_database c,
            client_user = ch_user c, client_password = ch_password c, client_settings = []\<rparr>;
          client = (if 0 < ch_allow_errors_num c
            then client\<lparr>client_settings := client_settings client @
              [(''input_format_allow_errors_num'', Shown_u64 (ch_allow_errors_num c))]\<rparr>
            else client);
          client = (if f64_positive (ch_allow_errors_ratio c)
            then client\<lparr>client_settings := client_settings client @
              [(''input_format_allow_errors_ratio'', Shown_f64 (ch_allow_errors_ratio c))]\<rparr>
            else client)
      in \<lparr>chs_id = sid, chs_table = ch_table c, chs_client = client,
          chs_batch = \<lparr>max_events = ch_batch_max_events c, max_bytes = ch_batch_max_bytes c,
            linger = from_millis (ch_batch_linger_ms c)\<rparr>,
          chs_schema = ch_schema c,
          chs_metadata = \<lparr>mc_topic = mcc_topic (ch_metadata_columns c),
            mc_partition = mcc_partition (ch_metadata_columns c),
            mc_offset = mcc_offset (ch_metadata_columns c),
            mc_timestamp = mcc_timestamp (ch_metadata_columns c),
            mc_key = mcc_key (ch_metadata_columns c)\<rparr>\<rparr>)"

definition ClickhouseSink_name :: "clickhouse_sink \<Rightarrow> string" where
  "ClickhouseSink_name c = chs_id c"

definition ClickhouseSink_batch_settings :: "clickhouse_sink \<Rightarrow> batch_settings" where
  "ClickhouseSink_batch_settings c = chs_batch c"

section \<open>Calls of the client\<close>

datatype ch_call =
    Insert string
  | Write_row event_row
  | Insert_formatted string
  | Write_buffered bytes
  | End_insert

text \<open>
  The answer to a call depends on all calls of the write so far, the new one last.
  \<open>write_buffered\<close> and \<open>insert_formatted_with\<close> do not fail.
\<close>

type_synonym 'k ch_answers = "ch_call list \<Rightarrow> (unit, 'k) result"

definition call ::
  "'k ch_answers \<Rightarrow> string \<Rightarrow> ch_call \<Rightarrow> ch_call list \<Rightarrow> (unit, 'k error) result \<times> ch_call list" where
  "call ans ctx c h =
     ((case ans (h @ [c]) of Ok _ \<Rightarrow> Ok () | Err k \<Rightarrow> Err (Context ctx (Foreign k))), h @ [c])"

section \<open>Typed rows\<close>

definition row_for :: "event \<Rightarrow> event_row" where
  "row_for e = \<lparr>
     row_timestamp_ms = (case timestamp_ms e of None \<Rightarrow> 0 | Some t \<Rightarrow> t),
     row_source_component = component_id (source e),
     row_source_topic = topic (source e),
     row_source_partition = partition (source e),
     row_source_offset = offset (source e),
     row_key = (case key e of None \<Rightarrow> [] | Some k \<Rightarrow> k),
     row_payload = payload e\<rparr>"

fun write_rows ::
  "'k ch_answers \<Rightarrow> event list \<Rightarrow> u64 \<Rightarrow> ch_call list \<Rightarrow> (u64, 'k error) result \<times> ch_call list" where
  "write_rows ans [] n h = (Ok n, h)"
| "write_rows ans (e # es) n h =
     (case call ans ''cannot encode ClickHouse row'' (Write_row (row_for e)) h of
        (Err k, h) \<Rightarrow> (Err k, h)
      | (Ok _, h) \<Rightarrow> write_rows ans es (n + 1) h)"

definition write_event_rows ::
  "'k ch_answers \<Rightarrow> clickhouse_sink \<Rightarrow> event_batch list \<Rightarrow> (write_outcome, 'k error) result \<times> ch_call list" where
  "write_event_rows ans sink bs =
     (case call ans (''ClickHouse insert into '' @ debug_str (chs_table sink) @ '' failed'')
             (Insert (chs_table sink)) [] of
        (Err k, h) \<Rightarrow> (Err k, h)
      | (Ok _, h) \<Rightarrow>
          (case write_rows ans (flat_events bs) 0 h of
             (Err k, h) \<Rightarrow> (Err k, h)
           | (Ok n, h) \<Rightarrow>
               (case call ans ''ClickHouse rejected batch'' End_insert h of
                  (Err k, h) \<Rightarrow> (Err k, h)
                | (Ok _, h) \<Rightarrow> (Ok (WriteOutcome_written n), h))))"

section \<open>JSON rows\<close>

text \<open>\<open>None\<close> is a panic of \<open>write_row\<close>.\<close>

record json_state =
  js_buffer :: bytes
  js_outcome :: write_outcome
  js_first_rejection :: "(rejection \<times> i64) option"

fun json_loop :: "metadata_columns \<Rightarrow> event list \<Rightarrow> json_state \<Rightarrow> json_state option" where
  "json_loop m [] s = Some s"
| "json_loop m (e # es) s =
     (case write_row (js_buffer s) e m of
        None \<Rightarrow> None
      | Some (buf, Ok _) \<Rightarrow>
          json_loop m es (s\<lparr>js_buffer := buf,
            js_outcome := js_outcome s\<lparr>written := written (js_outcome s) + 1\<rparr>\<rparr>)
      | Some (buf, Err r) \<Rightarrow>
          json_loop m es (s\<lparr>js_buffer := buf,
            js_outcome := js_outcome s\<lparr>dropped := dropped (js_outcome s) + 1\<rparr>,
            js_first_rejection := (case js_first_rejection s of
               None \<Rightarrow> Some (r, offset (source e)) | Some f \<Rightarrow> Some f)\<rparr>))"

definition json_start :: json_state where
  "json_start = \<lparr>js_buffer = [], js_outcome = WriteOutcome_default, js_first_rejection = None\<rparr>"

definition escape_identifier :: "string \<Rightarrow> string" where
  "escape_identifier name =
     [CHR 0x60] @ concat (map (\<lambda>c. if c = CHR 0x60 then [CHR 0x5C, CHR 0x60] else [c]) name) @ [CHR 0x60]"

record drop_warning =
  warn_dropped :: u64
  warn_offset :: i64
  warn_reason :: string

text \<open>The calls made, and the warning that is logged when rows were dropped.\<close>

definition write_json_rows ::
  "'k ch_answers \<Rightarrow> clickhouse_sink \<Rightarrow> event_batch list \<Rightarrow>
   ((write_outcome, 'k error) result \<times> ch_call list \<times> drop_warning option) option" where
  "write_json_rows ans sink bs =
     (case json_loop (chs_metadata sink) (flat_events bs) json_start of
        None \<Rightarrow> None
      | Some s \<Rightarrow>
          let warning = map_option (\<lambda>(r, off). \<lparr>warn_dropped = dropped (js_outcome s),
                warn_offset = off, warn_reason = rejection_as_str r\<rparr>) (js_first_rejection s) in
          if written (js_outcome s) = 0 then Some (Ok (js_outcome s), [], warning)
          else
            let h = [Insert_formatted (''INSERT INTO '' @ escape_identifier (chs_table sink) @
                       '' FORMAT JSONEachRow''), Write_buffered (js_buffer s)] in
            case call ans (''ClickHouse rejected the batch for '' @ debug_str (chs_table sink)) End_insert h of
              (Err k, h) \<Rightarrow> Some (Err k, h, warning)
            | (Ok _, h) \<Rightarrow> Some (Ok (js_outcome s), h, warning))"

definition ch_write ::
  "clickhouse_sink \<Rightarrow> 'k ch_answers \<Rightarrow> event_batch list \<Rightarrow>
   ((write_outcome, 'k error) result \<times> ch_call list \<times> drop_warning option) option" where
  "ch_write sink ans bs =
     (case chs_schema sink of
        SchemaEvent \<Rightarrow> (let (r, h) = write_event_rows ans sink bs in Some (r, h, None))
      | SchemaJson \<Rightarrow> write_json_rows ans sink bs)"

text \<open>\<open>write_batches\<close> as the runtime sees it.\<close>

definition ch_write_batches ::
  "clickhouse_sink \<Rightarrow> 'k ch_answers \<Rightarrow> event_batch list \<Rightarrow> (write_outcome, 'k error) result option" where
  "ch_write_batches sink ans bs = map_option fst (ch_write sink ans bs)"

section \<open>What the loops compute\<close>

definition row_ok :: "event \<Rightarrow> bool" where
  "row_ok e = (case object_body (payload e) of Some (Ok _) \<Rightarrow> True | _ \<Rightarrow> False)"

definition row_line :: "metadata_columns \<Rightarrow> event \<Rightarrow> bytes" where
  "row_line m e =
     (case object_body (payload e) of
        Some (Ok inner) \<Rightarrow> ''{'' @ comma_join (metadata_fields m e @ (if inner = [] then [] else [inner])) @ ''}''
      | _ \<Rightarrow> [])"

definition json_body :: "metadata_columns \<Rightarrow> event list \<Rightarrow> bytes" where
  "json_body m es = concat (map (\<lambda>e. row_line m e @ [CHR 0x0A]) (filter row_ok es))"

lemma write_row_cases:
  obtains (accepted) "row_ok e" "write_row out e m = Some (out @ row_line m e @ [CHR 0x0A], Ok ())"
  | (rejected) r where "\<not> row_ok e" "write_row out e m = Some (out, Err r)"
proof (cases "object_body (payload e)")
  case None
  then show ?thesis by (simp add: object_body_total)
next
  case (Some x)
  show ?thesis
  proof (cases x)
    case (Ok inner)
    with Some write_row_closed [of e inner out m] accepted show ?thesis by (simp add: row_ok_def row_line_def)
  next
    case (Err r)
    with Some rejected show ?thesis by (simp add: row_ok_def write_row_def)
  qed
qed

lemma json_loop_closed:
  "\<exists>f. json_loop m es s = Some \<lparr>js_buffer = js_buffer s @ json_body m es,
     js_outcome = \<lparr>written = written (js_outcome s) + of_nat (length (filter row_ok es)),
       dropped = dropped (js_outcome s) + of_nat (length (filter (\<lambda>e. \<not> row_ok e) es))\<rparr>,
     js_first_rejection = f\<rparr> \<and>
     map_option snd f = (case js_first_rejection s of
        Some g \<Rightarrow> Some (snd g)
      | None \<Rightarrow> map_option (\<lambda>e. offset (source e)) (find (\<lambda>e. \<not> row_ok e) es))"
proof (induction es arbitrary: s)
  case Nil
  then show ?case by (cases s) (auto simp: json_body_def split: option.splits)
next
  case (Cons e es)
  show ?case
  proof (cases rule: write_row_cases [of e "js_buffer s" m])
    case accepted
    with Cons.IH [of "s\<lparr>js_buffer := js_buffer s @ row_line m e @ [CHR 0x0A],
        js_outcome := js_outcome s\<lparr>written := written (js_outcome s) + 1\<rparr>\<rparr>"]
    show ?thesis by (auto simp: json_body_def add.assoc split: option.splits)
  next
    case (rejected r)
    with Cons.IH [of "s\<lparr>js_outcome := js_outcome s\<lparr>dropped := dropped (js_outcome s) + 1\<rparr>,
        js_first_rejection := (case js_first_rejection s of
               None \<Rightarrow> Some (r, offset (source e)) | Some f \<Rightarrow> Some f)\<rparr>"]
    show ?thesis by (auto simp: json_body_def add.assoc split: option.splits)
  qed
qed

lemma length_filter_split: "length (filter P xs) + length (filter (\<lambda>x. \<not> P x) xs) = length xs"
  by (induction xs) auto

lemma write_rows_result:
  "write_rows ans es n h = (r, h') \<Longrightarrow>
    (case r of
       Ok k \<Rightarrow> k = n + of_nat (length es) \<and> h' = h @ map (Write_row \<circ> row_for) es
     | Err x \<Rightarrow> (\<exists>k. ans h' = Err k \<and> x = Context ''cannot encode ClickHouse row'' (Foreign k)) \<and>
         (\<exists>p. prefix p es \<and> h' = h @ map (Write_row \<circ> row_for) p))"
proof (induction es arbitrary: n h)
  case (Cons e es)
  show ?case
  proof (cases "ans (h @ [Write_row (row_for e)])")
    case (Ok u)
    with Cons.prems have "write_rows ans es (n + 1) (h @ [Write_row (row_for e)]) = (r, h')"
      by (simp add: call_def)
    note IH = Cons.IH [OF this]
    show ?thesis
    proof (cases r)
      case (Ok k)
      with IH show ?thesis by (simp add: add.assoc)
    next
      case (Err x)
      with IH obtain p where "prefix p es" "h' = h @ map (Write_row \<circ> row_for) (e # p)" by auto
      then have "\<exists>p. prefix p (e # es) \<and> h' = h @ map (Write_row \<circ> row_for) p"
        by (intro exI [of _ "e # p"]) simp
      with Err IH show ?thesis by simp
    qed
  next
    case (Err k)
    with Cons.prems show ?thesis by (auto simp: call_def intro!: exI [of _ "[e]"])
  qed
qed auto

lemma rows_do_not_end:
  "End_insert \<notin> set (butlast (Insert t # map (Write_row \<circ> row_for) es))"
  "End_insert \<notin> set (butlast (Insert t # map (Write_row \<circ> row_for) es @ [End_insert]))"
  by (auto simp: butlast_append dest!: in_set_butlastD)

lemma write_event_rows_result:
  assumes "write_event_rows ans sink bs = (r, h)"
  shows "(case r of
       Ok out \<Rightarrow> out = WriteOutcome_written (of_nat (length (flat_events bs))) \<and>
         h = Insert (chs_table sink) # map (Write_row \<circ> row_for) (flat_events bs) @ [End_insert] \<and> ans h = Ok ()
     | Err x \<Rightarrow> (\<exists>ctx k. ans h = Err k \<and> x = Context ctx (Foreign k)) \<and> End_insert \<notin> set (butlast h))"
proof (cases "ans [Insert (chs_table sink)]")
  case (Err k)
  with assms show ?thesis by (auto simp: write_event_rows_def call_def)
next
  case (Ok u)
  obtain r1 h1 where w: "write_rows ans (flat_events bs) 0 [Insert (chs_table sink)] = (r1, h1)" by fastforce
  show ?thesis
  proof (cases r1)
    case (Ok n)
    with write_rows_result [OF w] w assms \<open>ans _ = Ok u\<close>
    show ?thesis
      by (cases "ans (h1 @ [End_insert])") (auto simp: write_event_rows_def call_def rows_do_not_end [simplified])
  next
    case (Err x)
    with w assms \<open>ans _ = Ok u\<close> have "r = Err x" "h = h1" by (simp_all add: write_event_rows_def call_def)
    with write_rows_result [OF w] Err show ?thesis
      by (auto simp: rows_do_not_end [simplified])
  qed
qed

lemma write_json_rows_result:
  obtains r h w where "write_json_rows ans sink bs = Some (r, h, w)"
    and "\<And>out. r = Ok out \<Longrightarrow>
      written out = of_nat (length (filter row_ok (flat_events bs))) \<and>
      dropped out = of_nat (length (filter (\<lambda>e. \<not> row_ok e) (flat_events bs)))"
    and "\<And>x. r = Err x \<Longrightarrow> \<exists>ctx k. ans h = Err k \<and> x = Context ctx (Foreign k)"
    and "h = [] \<and> is_ok r \<and> (of_nat (length (filter row_ok (flat_events bs))) :: u64) = 0 \<or>
      h = [Insert_formatted (''INSERT INTO '' @ escape_identifier (chs_table sink) @ '' FORMAT JSONEachRow''),
           Write_buffered (json_body (chs_metadata sink) (flat_events bs)), End_insert] \<and>
      (is_ok r \<longrightarrow> ans h = Ok ())"
    and "map_option warn_offset w =
      map_option (\<lambda>e. offset (source e)) (find (\<lambda>e. \<not> row_ok e) (flat_events bs))"
proof -
  from json_loop_closed [of "chs_metadata sink" "flat_events bs" json_start] obtain f where
    j: "json_loop (chs_metadata sink) (flat_events bs) json_start =
      Some \<lparr>js_buffer = json_body (chs_metadata sink) (flat_events bs),
     js_outcome = \<lparr>written = of_nat (length (filter row_ok (flat_events bs))),
       dropped = of_nat (length (filter (\<lambda>e. \<not> row_ok e) (flat_events bs)))\<rparr>,
     js_first_rejection = f\<rparr>"
    and f: "map_option snd f = map_option (\<lambda>e. offset (source e)) (find (\<lambda>e. \<not> row_ok e) (flat_events bs))"
    by (auto simp: json_start_def WriteOutcome_default_def)
  obtain r h w where w: "write_json_rows ans sink bs = Some (r, h, w)"
    by (cases "write_json_rows ans sink bs")
      (auto simp: write_json_rows_def j call_def Let_def split: if_splits result.splits)
  have "map_option warn_offset w = map_option snd f"
    using w by (auto simp: write_json_rows_def j call_def Let_def option.map_comp comp_def case_prod_unfold
      split: if_splits result.splits)
  with w f show ?thesis
    by (intro that [OF w]) (auto simp: write_json_rows_def j call_def Let_def
      split: if_splits result.splits)
qed

lemma ch_write_accounts:
  "ch_write_batches sink ans bs = Some (Ok out) \<Longrightarrow>
    written out + dropped out = of_nat (length (flat_events bs))"
proof (cases "chs_schema sink")
  case SchemaEvent
  moreover assume "ch_write_batches sink ans bs = Some (Ok out)"
  ultimately show ?thesis using write_event_rows_result [of ans sink bs]
    by (auto simp: ch_write_batches_def ch_write_def WriteOutcome_written_def split: prod.splits)
next
  case SchemaJson
  moreover assume "ch_write_batches sink ans bs = Some (Ok out)"
  ultimately show ?thesis
    by (rule_tac write_json_rows_result [of ans sink bs])
      (simp add: ch_write_batches_def ch_write_def length_filter_split of_nat_add [symmetric] del: of_nat_add)
qed

interpretation clickhouse: sink_contract "ch_write_batches sink" for sink
  by unfold_locales (rule ch_write_accounts)

section \<open>Rows of JSON objects\<close>



section \<open>A small answer function\<close>

text \<open>A server that accepts everything, and one that rejects at the end of the insert.\<close>

definition accept_all :: "string ch_answers" where
  "accept_all h = Ok ()"

definition reject_end :: "string ch_answers" where
  "reject_end h = (if last h = End_insert then Err ''memory limit'' else Ok ())"

definition demo_event :: "string \<Rightarrow> i64 \<Rightarrow> event" where
  "demo_event p off = \<lparr>key = None, payload = p, timestamp_ms = None,
     source = \<lparr>component_id = ''in'', topic = ''t'', partition = 0, offset = off\<rparr>\<rparr>"

definition demo_clickhouse :: "clickhouse_schema \<Rightarrow> clickhouse_sink" where
  "demo_clickhouse sch = ClickhouseSink_new ''ch''
     ((clickhouse_sink_required [''in''] ''http://localhost'' ''events'')\<lparr>ch_schema := sch\<rparr>)"

lemma demo_clickhouse_simps [simp]:
  "chs_table (demo_clickhouse sch) = ''events''"
  "chs_schema (demo_clickhouse sch) = sch"
  by (simp_all add: demo_clickhouse_def ClickhouseSink_new_def clickhouse_sink_required_def Let_def)

lemmas row_exec = ch_write_def write_json_rows_def json_start_def WriteOutcome_default_def
  write_row_def object_body_def trim_ascii_def rposition_def slice_range_def is_ascii_whitespace_def
  demo_event_def demo_clickhouse_def ClickhouseSink_new_def clickhouse_sink_required_def
  MetadataColumnsConfig_default_def metadata_is_empty_def call_def accept_all_def EventBatch_new_def Let_def
  row_ok_def

definition demo_rows :: event_batch where
  "demo_rows = EventBatch_new 0 [demo_event ''{}'' 1, demo_event ''x'' 2]"

lemma demo_rows_size: "batch_len demo_rows = 2" "batch_bytes demo_rows = 3"
  by (simp_all add: demo_rows_def demo_event_def EventBatch_new_def estimated_size_def batch_len_def)

lemma demo_rows_written:
  "ch_write (demo_clickhouse SchemaJson) accept_all [demo_rows] =
     Some (Ok \<lparr>written = 1, dropped = 1\<rparr>,
       [Insert_formatted (''INSERT INTO '' @ escape_identifier ''events'' @ '' FORMAT JSONEachRow''),
        Write_buffered (''{}'' @ [CHR 0x0A]), End_insert],
       Some \<lparr>warn_dropped = 1, warn_offset = 2, warn_reason = ''payload is not a JSON object''\<rparr>)"
  by (simp add: row_exec demo_rows_def)

section \<open>Properties\<close>

text \<open>
  C11: a ClickHouse write that returns \<open>Ok\<close> has sent everything it reports. In event mode the
  calls are one insert into the table, one typed row per event in order, and an end that
  the server accepted, and the outcome counts every event as written. In JSON mode the
  outcome counts the accepted and the rejected payloads; if some were accepted, one
  formatted insert carried exactly their lines, in order, and its end was accepted;
  otherwise nothing was sent.
\<close>

theorem clickhouse_ok_means_sent:
  assumes "ch_write sink ans bs = Some (Ok out, calls, warning)"
    and "length (flat_events bs) < 2 ^ 64"
  shows "case chs_schema sink of
      SchemaEvent \<Rightarrow> out = WriteOutcome_written (of_nat (length (flat_events bs))) \<and>
        calls = Insert (chs_table sink) # map (Write_row \<circ> row_for) (flat_events bs) @ [End_insert] \<and>
        ans calls = Ok ()
    | SchemaJson \<Rightarrow>
        written out = of_nat (length (filter row_ok (flat_events bs))) \<and>
        dropped out = of_nat (length (filter (\<lambda>e. \<not> row_ok e) (flat_events bs))) \<and>
        (if filter row_ok (flat_events bs) = [] then calls = []
         else calls =
           [Insert_formatted (''INSERT INTO '' @ escape_identifier (chs_table sink) @ '' FORMAT JSONEachRow''),
            Write_buffered (json_body (chs_metadata sink) (flat_events bs)), End_insert] \<and>
           ans calls = Ok ())"
proof (cases "chs_schema sink")
  case SchemaEvent
  with assms(1) have "write_event_rows ans sink bs = (Ok out, calls)"
    by (simp add: ch_write_def split: prod.splits)
  from write_event_rows_result [OF this] SchemaEvent show ?thesis by auto
next
  case SchemaJson
  let ?n = "length (filter row_ok (flat_events bs))"
  have "?n < 2 ^ 64" using assms(2) length_filter_le le_less_trans by blast
  from of_nat_u64_0 [OF this] have "(of_nat ?n :: u64) = 0 \<longleftrightarrow> filter row_ok (flat_events bs) = []"
    by simp
  moreover from assms(1) SchemaJson have "write_json_rows ans sink bs = Some (Ok out, calls, warning)"
    by (simp add: ch_write_def)
  moreover have "written out \<noteq> 0 \<Longrightarrow> calls \<noteq> []" if "write_json_rows ans sink bs = Some (Ok out, calls, warning)"
    using that by (auto simp: write_json_rows_def call_def Let_def split: if_splits option.splits result.splits)
  moreover have "written out = 0 \<Longrightarrow> calls = []" if "write_json_rows ans sink bs = Some (Ok out, calls, warning)"
    using that by (auto simp: write_json_rows_def call_def Let_def split: if_splits option.splits result.splits)
  ultimately show ?thesis using SchemaJson
    by (rule_tac write_json_rows_result [of ans sink bs]) auto
qed

theorem clickhouse_ok_means_sent_witness:
  "\<exists>out calls warning. ch_write (demo_clickhouse SchemaJson) accept_all [demo_rows] = Some (Ok out, calls, warning) \<and>
    dropped out = of_nat (length (filter (\<lambda>e. \<not> row_ok e) (flat_events [demo_rows]))) \<and> calls \<noteq> []"
proof -
  have "length (flat_events [demo_rows]) < 2 ^ 64" by (simp add: demo_rows_def)
  from clickhouse_ok_means_sent [OF demo_rows_written this] demo_rows_written
  show ?thesis by simp
qed

text \<open>
  C30: a ClickHouse write never panics and always returns when the client answers its calls.
  When it fails, the error is that of the last call it made, with its context, and it has
  not ended an insert before that call: a failed write leaves no partial insert that the
  server was told to keep.
\<close>

theorem clickhouse_failed_write_ends_no_insert:
  "\<exists>r calls warning. ch_write sink ans bs = Some (r, calls, warning) \<and>
     (\<forall>x. r = Err x \<longrightarrow> (\<exists>ctx k. ans calls = Err k \<and> x = Context ctx (Foreign k)) \<and>
        End_insert \<notin> set (butlast calls))"
proof (cases "chs_schema sink")
  case SchemaEvent
  obtain r h where "write_event_rows ans sink bs = (r, h)" by fastforce
  with write_event_rows_result [OF this] SchemaEvent show ?thesis by (auto simp: ch_write_def)
next
  case SchemaJson
  then show ?thesis by (rule_tac write_json_rows_result [of ans sink bs]) (fastforce simp: ch_write_def)
qed

theorem clickhouse_failed_write_ends_no_insert_witness:
  "\<exists>r calls warning. ch_write (demo_clickhouse SchemaEvent) reject_end [] = Some (r, calls, warning) \<and>
     \<not> is_ok r \<and> End_insert \<notin> set (butlast calls)"
proof -
  obtain r calls warning where
    w: "ch_write (demo_clickhouse SchemaEvent) reject_end [] = Some (r, calls, warning)" "\<not> is_ok r"
    by (simp add: ch_write_def write_event_rows_def call_def reject_end_def)
  from clickhouse_failed_write_ends_no_insert [of "demo_clickhouse SchemaEvent" reject_end "[]"] w show ?thesis
    by (cases r) auto
qed



text \<open>
  C31: with a ClickHouse sink, whatever the server answers, a sink task that ran until its
  channel closed and returned \<open>Ok\<close> has counted every event it received exactly once, as
  written or as dropped.
\<close>

theorem clickhouse_sink_counts_every_event:
  assumes "run (run_step (ch_write_batches sink) batching settings capacity) run_start ls = Some s"
    and "phase s = Returned (Ok ())" "\<not> cancelled s"
  shows "events_out (counters s) + events_dropped (counters s) = of_nat (group_events (received s))"
  using clickhouse.run_counts_everything [OF assms] .

theorem clickhouse_sink_counts_every_event_witness:
  "\<exists>s. run (run_step (ch_write_batches (demo_clickhouse SchemaJson)) \<lparr>max_events = 10, max_bytes = 100, linger = 0\<rparr>
      \<lparr>max_concurrent_writes = 1, retry_max_attempts = 1, retry_initial_backoff = 0, retry_max_backoff = 0\<rparr> 2)
      run_start
      [Push \<lparr>env_id = 0, env_batch = demo_rows\<rparr>, Close, Poll 0, Poll 0, Poll 0, Attempt 0 accept_all,
       Poll 0, Poll 0, Poll 0] = Some s \<and>
     events_out (counters s) + events_dropped (counters s) = 2"
proof -
  note w = demo_rows_written
  obtain s where s: "run (run_step (ch_write_batches (demo_clickhouse SchemaJson)) \<lparr>max_events = 10, max_bytes = 100, linger = 0\<rparr>
      \<lparr>max_concurrent_writes = 1, retry_max_attempts = 1, retry_initial_backoff = 0, retry_max_backoff = 0\<rparr> 2)
      run_start
      [Push \<lparr>env_id = 0, env_batch = demo_rows\<rparr>, Close, Poll 0, Poll 0, Poll 0, Attempt 0 accept_all,
       Poll 0, Poll 0, Poll 0] = Some s"
    "phase s = Returned (Ok ())" "\<not> cancelled s" "received s = [\<lparr>env_id = 0, env_batch = demo_rows\<rparr>]"
    by (simp add: run_exec demo_rows_size demo_rows_written ch_write_batches_def Let_def)
  from clickhouse_sink_counts_every_event [OF s(1-3)] s(1,4) show ?thesis
    by (auto simp: group_events_def demo_rows_size)
qed

end
