(* ===== verification/Topology.thy ===== *)
theory Topology
  imports Kafka_Source Kafka_Sink Clickhouse_Sink
begin

text \<open>
  \<open>src/topology.rs\<close>, \<open>run\<close>: building the components of a configuration and wiring sources to
  sinks, then supervising the tasks until the process stops; with \<open>build\<close> of
  \<open>src/sink/mod.rs\<close> and \<open>src/source/mod.rs\<close>. Creating clients, subscribing and creating a
  channel are parameters. What the tasks do is modelled in the other theories: here a task
  is something that ends with a result.
\<close>

section \<open>Building components\<close>

datatype built_sink = BuiltKafka kafka_sink | BuiltClickhouse clickhouse_sink

definition sink_build ::
  "((string \<times> string) list \<Rightarrow> (unit, 'x) result) \<Rightarrow> string \<Rightarrow> sink_config \<Rightarrow> (built_sink, 'x error) result" where
  "sink_build create sid config =
     (case config of
        SinkKafka c \<Rightarrow> bind_result (KafkaSink_new create sid c) (\<lambda>k. Ok (BuiltKafka k))
      | SinkClickhouse c \<Rightarrow> Ok (BuiltClickhouse (ClickhouseSink_new sid c)))"

text \<open>The calls of the trait's methods on a \<open>Box<dyn Sink>\<close> go to the built component's own.\<close>

fun sink_name :: "built_sink \<Rightarrow> string" where
  "sink_name (BuiltKafka k) = KafkaSink_name k"
| "sink_name (BuiltClickhouse c) = ClickhouseSink_name c"

fun sink_batch_settings :: "built_sink \<Rightarrow> batch_settings" where
  "sink_batch_settings (BuiltKafka k) = KafkaSink_batch_settings k"
| "sink_batch_settings (BuiltClickhouse c) = ClickhouseSink_batch_settings c"

definition source_build ::
  "((string \<times> string) list \<Rightarrow> ('c, 'x) result) \<Rightarrow> ('c \<Rightarrow> string list \<Rightarrow> (unit, 'x) result) \<Rightarrow>
   string \<Rightarrow> source_config \<Rightarrow> (kafka_source, 'x error) result" where
  "source_build create subscribe sid config =
     (case config of SourceKafka c \<Rightarrow> KafkaSource_new create subscribe sid c)"

section \<open>Wiring\<close>

text \<open>
  The sender of a sink's channel is the number of the sink's task, in spawn order. \<open>channel X n\<close>
  says whether \<open>mpsc::channel(n)\<close> of the \<open>tokio\<close> crate returns; otherwise it panics, as does an
  index of \<open>sink_inputs\<close> that is not there: \<open>None\<close>. The crate documents that it panics exactly
  on a capacity of 0 or above \<open>Semaphore::MAX_PERMITS\<close>, which is \<open>usize::MAX >> 3\<close>.
\<close>

record sink_spec =
  spec_id :: string
  spec_capacity :: usize
  spec_sink :: built_sink
  spec_settings :: delivery_settings

record source_spec =
  spec_source :: kafka_source
  spec_destinations :: "nat list"

record ('c, 'x) outside =
  channel :: "usize \<Rightarrow> bool"
  create_producer :: "(string \<times> string) list \<Rightarrow> (unit, 'x) result"
  create_consumer :: "(string \<times> string) list \<Rightarrow> ('c, 'x) result"
  subscribe :: "'c \<Rightarrow> string list \<Rightarrow> (unit, 'x) result"

definition MAX_PERMITS :: usize where
  "MAX_PERMITS = usize_MAX div 8"

definition channel_capacity_ok :: "usize \<Rightarrow> bool" where
  "channel_capacity_ok n \<longleftrightarrow> 0 < n \<and> n \<le> MAX_PERMITS"

text \<open>The two loops of \<open>run\<close>.\<close>

fun spawn_sinks ::
  "('c, 'x) outside \<Rightarrow> (string \<times> sink_config) list \<Rightarrow> (string \<rightharpoonup> nat) \<Rightarrow> sink_spec list \<Rightarrow>
   ((string \<rightharpoonup> nat) \<times> sink_spec list, 'x error) result option" where
  "spawn_sinks X [] inputs tasks = Some (Ok (inputs, tasks))"
| "spawn_sinks X ((sid, c) # rest) inputs tasks =
     (if channel X (sink_buffer_capacity c) then
        (case sink_build (create_producer X) sid c of
           Err e \<Rightarrow> Some (Err e)
         | Ok k \<Rightarrow> spawn_sinks X rest (inputs(sid \<mapsto> length tasks))
             (tasks @ [\<lparr>spec_id = sid, spec_capacity = sink_buffer_capacity c, spec_sink = k,
               spec_settings = runtime_settings c\<rparr>]))
      else None)"

definition destinations_of ::
  "(string \<times> sink_config) list \<Rightarrow> (string \<rightharpoonup> nat) \<Rightarrow> string \<Rightarrow> nat list option" where
  "destinations_of sinks inputs sid =
     those (map (\<lambda>(k, _). inputs k) (filter (\<lambda>(_, c). sid \<in> set (sink_inputs c)) sinks))"

fun spawn_sources ::
  "('c, 'x) outside \<Rightarrow> (string \<times> sink_config) list \<Rightarrow> (string \<rightharpoonup> nat) \<Rightarrow> (string \<times> source_config) list \<Rightarrow>
   (source_spec list, 'x error) result option" where
  "spawn_sources X sinks inputs [] = Some (Ok [])"
| "spawn_sources X sinks inputs ((sid, c) # rest) =
     (case destinations_of sinks inputs sid of
        None \<Rightarrow> None
      | Some ds \<Rightarrow>
          (case source_build (create_consumer X) (subscribe X) sid c of
             Err e \<Rightarrow> Some (Err e)
           | Ok src \<Rightarrow> map_option (\<lambda>r. bind_result r (\<lambda>ts. Ok (\<lparr>spec_source = src, spec_destinations = ds\<rparr> # ts)))
               (spawn_sources X sinks inputs rest)))"

datatype 'x run_error = Invalid config_error | Failed "'x error"

record topology =
  top_metrics :: metrics
  top_sinks :: "sink_spec list"
  top_sources :: "source_spec list"
  top_report_interval :: duration
  top_serve :: "string option"

text \<open>\<open>run\<close> up to the \<open>select!\<close>.\<close>

definition build_topology :: "('c, 'x) outside \<Rightarrow> config \<Rightarrow> (topology, 'x run_error) result option" where
  "build_topology X c =
     (case validate c of
        Err e \<Rightarrow> Some (Err (Invalid e))
      | Ok _ \<Rightarrow>
          (case spawn_sinks X (cfg_sinks c) Map.empty [] of
             None \<Rightarrow> None
           | Some (Err e) \<Rightarrow> Some (Err (Failed e))
           | Some (Ok (inputs, sinks)) \<Rightarrow>
               (case spawn_sources X (cfg_sinks c) inputs (cfg_sources c) of
                  None \<Rightarrow> None
                | Some (Err e) \<Rightarrow> Some (Err (Failed e))
                | Some (Ok sources) \<Rightarrow> Some (Ok \<lparr>
                    top_metrics = Metrics_new (map fst (cfg_sources c)) (map fst (cfg_sinks c)),
                    top_sinks = sinks, top_sources = sources,
                    top_report_interval = log_interval (cfg_metrics c),
                    top_serve = listen (cfg_metrics c)\<rparr>))))"

text \<open>
  \<open>main\<close> of \<open>main.rs\<close> up to the point where \<open>topology::run\<close> waits: the path is the first
  argument after the program's name, with a default.
\<close>

datatype ('r, 't, 'x) main_error = LoadError "('r, 't) load_error" | RunError "'x run_error"

definition config_path :: "string list \<Rightarrow> string" where
  "config_path args = (if 1 < length args then args ! 1 else ''config/local.toml'')"

definition main_start ::
  "('c, 'x) outside \<Rightarrow> (string \<Rightarrow> (string, 'r) result) \<Rightarrow> (string \<Rightarrow> (config, 't) result) \<Rightarrow> string list \<Rightarrow>
   (topology, ('r, 't, 'x) main_error) result option" where
  "main_start X read_to_string from_str args =
     (case Config_load read_to_string from_str (config_path args) of
        Err e \<Rightarrow> Some (Err (LoadError e))
      | Ok c \<Rightarrow>
          (case build_topology X c of
             None \<Rightarrow> None
           | Some (Err e) \<Rightarrow> Some (Err (RunError e))
           | Some (Ok t) \<Rightarrow> Some (Ok t)))"

section \<open>What is wired to what\<close>

lemma spawn_sinks_result:
  assumes "spawn_sinks X sinks inputs tasks = Some (Ok (inputs', tasks'))" "distinct (map fst sinks)"
  shows "map spec_id tasks' = map spec_id tasks @ map fst sinks \<and>
    map spec_settings tasks' = map spec_settings tasks @ map (runtime_settings \<circ> snd) sinks \<and>
    (\<forall>i < length sinks. inputs' (fst (sinks ! i)) = Some (length tasks + i)) \<and>
    (\<forall>k. k \<notin> fst ` set sinks \<longrightarrow> inputs' k = inputs k)"
  using assms
proof (induction sinks arbitrary: inputs tasks)
  case (Cons x sinks)
  obtain sid c where x: "x = (sid, c)" by fastforce
  with Cons.prems(1) obtain k where k: "spawn_sinks X sinks (inputs(sid \<mapsto> length tasks))
      (tasks @ [\<lparr>spec_id = sid, spec_capacity = sink_buffer_capacity c, spec_sink = k,
         spec_settings = runtime_settings c\<rparr>]) = Some (Ok (inputs', tasks'))"
    by (auto split: if_splits result.splits)
  with x Cons.prems(2) Cons.IH [OF k] have IH: "map spec_id tasks' = map spec_id tasks @ sid # map fst sinks"
    "map spec_settings tasks' = map spec_settings tasks @ runtime_settings c # map (runtime_settings \<circ> snd) sinks"
    "\<forall>i < length sinks. inputs' (fst (sinks ! i)) = Some (Suc (length tasks) + i)"
    "\<forall>j. j \<notin> fst ` set sinks \<longrightarrow> inputs' j = (inputs(sid \<mapsto> length tasks)) j"
    by auto
  from IH(4) x Cons.prems(2) have "inputs' sid = Some (length tasks)" by simp
  with IH x show ?case by (auto simp: less_Suc_eq_0_disj nth_Cons')
qed simp

lemma those_Some: "those (map f xs) = Some ys \<longleftrightarrow> list_all2 (\<lambda>x y. f x = Some y) xs ys"
  by (induction xs arbitrary: ys) (auto simp: list_all2_Cons1 split: option.splits)

lemma filter_map_index:
  "list_all2 (\<lambda>x y. f x = Some y) (filter P xs) (map (\<lambda>i. n + i) (filter (\<lambda>i. P (xs ! i)) [0..<length xs]))"
  if "\<forall>i < length xs. f (xs ! i) = Some (n + i)"
proof -
  have "filter P xs = map (\<lambda>i. xs ! i) (filter (\<lambda>i. P (xs ! i)) [0..<length xs])"
    by (subst map_nth [symmetric], subst filter_map) (simp add: comp_def)
  with that show ?thesis by (auto simp: list_all2_conv_all_nth dest: nth_mem)
qed

text \<open>A source's destinations are the sinks that name it, in the order of their tasks.\<close>

definition readers :: "(string \<times> sink_config) list \<Rightarrow> string \<Rightarrow> nat list" where
  "readers sinks sid = filter (\<lambda>i. sid \<in> set (sink_inputs (snd (sinks ! i)))) [0..<length sinks]"

lemma destinations_readers:
  assumes "\<forall>i < length sinks. inputs (fst (sinks ! i)) = Some i"
  shows "destinations_of sinks inputs sid = Some (readers sinks sid)"
  using filter_map_index [of sinks "\<lambda>(k, _). inputs k" 0 "\<lambda>(_, c). sid \<in> set (sink_inputs c)"] assms
  unfolding destinations_of_def those_Some readers_def by (simp add: case_prod_unfold)

lemma source_build_id: "source_build create sub sid c = Ok src \<Longrightarrow> source_id src = sid"
  by (auto simp: source_build_def KafkaSource_new_def split: source_config.splits result.splits)

lemma spawn_sources_result:
  assumes "\<forall>i < length sinks. inputs (fst (sinks ! i)) = Some i"
    "spawn_sources X sinks inputs srcs = Some (Ok ts)"
  shows "map (source_id \<circ> spec_source) ts = map fst srcs \<and>
    map spec_destinations ts = map (readers sinks \<circ> fst) srcs"
  using assms(2)
proof (induction srcs arbitrary: ts)
  case (Cons x srcs)
  obtain sid c where x: "x = (sid, c)" by fastforce
  with Cons.prems obtain src ts' where "source_build (create_consumer X) (subscribe X) sid c = Ok src"
    "spawn_sources X sinks inputs srcs = Some (Ok ts')"
    "ts = \<lparr>spec_source = src, spec_destinations = readers sinks sid\<rparr> # ts'"
    by (auto simp: destinations_readers [OF assms(1)] ok_iff split: result.splits)
  with Cons.IH x show ?case by (simp add: source_build_id)
qed simp

lemma spawn_sinks_total:
  assumes "\<forall>(k, c) \<in> set sinks. channel X (sink_buffer_capacity c)"
  shows "\<exists>r. spawn_sinks X sinks inputs tasks = Some r \<and>
    ((\<forall>cfg. is_ok (create_producer X cfg)) \<longrightarrow> is_ok r)"
  using assms
proof (induction sinks arbitrary: inputs tasks)
  case (Cons x sinks)
  obtain sid c where x: "x = (sid, c)" by fastforce
  have b: "(\<forall>cfg. is_ok (create_producer X cfg)) \<longrightarrow> is_ok (sink_build (create_producer X) sid c)"
    by (auto simp: sink_build_def KafkaSink_new_def ok_iff split: sink_config.splits result.splits)
  show ?case
  proof (cases "sink_build (create_producer X) sid c")
    case (Ok k)
    with Cons x show ?thesis by simp
  next
    case (Err e)
    with b Cons.prems x show ?thesis by simp
  qed
qed simp

lemma spawn_sinks_panics:
  assumes "\<forall>cfg. is_ok (create_producer X cfg)" "(k, c) \<in> set sinks" "\<not> channel X (sink_buffer_capacity c)"
  shows "spawn_sinks X sinks inputs tasks = None"
  using assms(2)
proof (induction sinks arbitrary: inputs tasks)
  case (Cons x sinks)
  obtain sid d where x: "x = (sid, d)" by fastforce
  have "is_ok (sink_build (create_producer X) sid d)"
    using assms(1) by (auto simp: sink_build_def KafkaSink_new_def ok_iff split: sink_config.splits result.splits)
  then obtain s where "sink_build (create_producer X) sid d = Ok s" by (auto simp: is_ok_iff)
  with Cons assms(3) x show ?case by auto
qed simp

lemma sink_build_keeps_config:
  assumes "sink_build create sid c = Ok k"
  shows "sink_name k = sid" and "batch_limits c = (max_events (sink_batch_settings k), max_bytes (sink_batch_settings k))"
  using assms
  by (auto simp: sink_build_def KafkaSink_new_def KafkaSink_name_def KafkaSink_batch_settings_def
    ClickhouseSink_new_def ClickhouseSink_name_def ClickhouseSink_batch_settings_def Let_def
    split: sink_config.splits result.splits)

lemma spawn_sources_total:
  assumes "\<forall>i < length sinks. inputs (fst (sinks ! i)) = Some i"
  shows "\<exists>r. spawn_sources X sinks inputs srcs = Some r \<and>
    ((\<forall>cfg. is_ok (create_consumer X cfg)) \<and> (\<forall>c ts. is_ok (subscribe X c ts)) \<longrightarrow> is_ok r)"
proof (induction srcs)
  case (Cons x srcs)
  obtain sid c where x: "x = (sid, c)" by fastforce
  have b: "(\<forall>cfg. is_ok (create_consumer X cfg)) \<and> (\<forall>c ts. is_ok (subscribe X c ts)) \<longrightarrow>
      is_ok (source_build (create_consumer X) (subscribe X) sid c)"
    by (auto simp: source_build_def KafkaSource_new_def split: source_config.splits result.splits)
      (metis is_ok.simps(2))+
  from Cons.IH obtain r where r: "spawn_sources X sinks inputs srcs = Some r"
    "(\<forall>cfg. is_ok (create_consumer X cfg)) \<and> (\<forall>c ts. is_ok (subscribe X c ts)) \<longrightarrow> is_ok r" by blast
  show ?case
  proof (cases "source_build (create_consumer X) (subscribe X) sid c")
    case (Ok src)
    with r x show ?thesis by (cases r) (simp_all add: destinations_readers [OF assms])
  next
    case (Err e)
    with b x show ?thesis by (simp add: destinations_readers [OF assms])
  qed
qed simp

section \<open>Supervision\<close>

text \<open>
  The \<open>JoinSet\<close>s are the numbers of the tasks still running and the results not yet joined; a
  panicked task counts as an error. \<open>sink_ends\<close> and \<open>source_joins\<close> are history: how each sink
  task ended, and the source results that were joined.
\<close>

datatype 'e stage =
    Selecting
  | Stopping "(unit, 'e) result"
  | Joining "(unit, 'e) result"
  | Stopped "(unit, 'e) result"

record 'e supervisor =
  stage :: "'e stage"
  interrupted :: bool
  live_sources :: "nat list"
  done_sources :: "(unit, 'e) result list"
  live_sinks :: "nat list"
  done_sinks :: "(unit, 'e) result list"
  sink_ends :: "(nat \<times> (unit, 'e) result) list"
  source_joins :: "(unit, 'e) result list"

definition supervise_start :: "nat \<Rightarrow> nat \<Rightarrow> 'e supervisor" where
  "supervise_start n k = \<lparr>stage = Selecting, interrupted = False, live_sources = [0..<n], done_sources = [],
     live_sinks = [0..<k], done_sinks = [], sink_ends = [], source_joins = []\<rparr>"

datatype 'e supervisor_event =
    CtrlC
  | SourceEnds nat "(unit, 'e) result"
  | SinkEnds nat "(unit, 'e) result"
  | TakeCtrlC
  | JoinSource nat
  | SourcesFinished
  | JoinSink nat
  | SourcesStopped
  | SinksFinished

text \<open>
  One iteration of \<open>join_all\<close> or \<open>first_failure\<close> on the result of a joined task: whether the
  function returns. \<open>first_failure\<close> never returns on success, and neither does on the empty
  set; \<open>join_all\<close> returns \<open>Ok\<close> there.
\<close>

definition joined :: "(unit, 'e) result \<Rightarrow> (unit, 'e) result option" where
  "joined r = (if is_ok r then None else Some r)"

text \<open>
  The \<open>select!\<close> is not biased: whichever branch is ready may be taken. \<open>SourcesStopped\<close> is the
  end of \<open>source_tasks.shutdown()\<close>, which aborts the tasks and discards their results.
\<close>

definition supervise_step :: "'e supervisor \<Rightarrow> 'e supervisor_event \<Rightarrow> 'e supervisor option" where
  "supervise_step s ev = (case ev of
     CtrlC \<Rightarrow> Some (s\<lparr>interrupted := True\<rparr>)
   | SourceEnds i r \<Rightarrow>
       if i \<in> set (live_sources s) then
         Some (s\<lparr>live_sources := remove1 i (live_sources s), done_sources := done_sources s @ [r]\<rparr>)
       else None
   | SinkEnds i r \<Rightarrow>
       if i \<in> set (live_sinks s) then
         Some (s\<lparr>live_sinks := remove1 i (live_sinks s), done_sinks := done_sinks s @ [r],
           sink_ends := sink_ends s @ [(i, r)]\<rparr>)
       else None
   | TakeCtrlC \<Rightarrow>
       if stage s = Selecting \<and> interrupted s then Some (s\<lparr>stage := Stopping (Ok ())\<rparr>) else None
   | JoinSource k \<Rightarrow>
       if stage s = Selecting \<and> k < length (done_sources s) then
         let r = done_sources s ! k;
             s' = s\<lparr>done_sources := remove_nth k (done_sources s), source_joins := source_joins s @ [r]\<rparr> in
         Some (case joined r of None \<Rightarrow> s' | Some r \<Rightarrow> s'\<lparr>stage := Stopping r\<rparr>)
       else None
   | SourcesFinished \<Rightarrow>
       if stage s = Selecting \<and> live_sources s = [] \<and> done_sources s = []
       then Some (s\<lparr>stage := Stopping (Ok ())\<rparr>) else None
   | JoinSink k \<Rightarrow>
       if k < length (done_sinks s) then
         let r = done_sinks s ! k; s' = s\<lparr>done_sinks := remove_nth k (done_sinks s)\<rparr> in
         case stage s of
           Selecting \<Rightarrow> Some (case joined r of None \<Rightarrow> s' | Some r \<Rightarrow> s'\<lparr>stage := Stopping r\<rparr>)
         | Joining outcome \<Rightarrow>
             Some (case joined r of None \<Rightarrow> s' | Some r \<Rightarrow> s'\<lparr>stage := Stopped (result_and outcome r)\<rparr>)
         | _ \<Rightarrow> None
       else None
   | SourcesStopped \<Rightarrow>
       (case stage s of
          Stopping outcome \<Rightarrow> Some (s\<lparr>stage := Joining outcome, live_sources := [], done_sources := []\<rparr>)
        | _ \<Rightarrow> None)
   | SinksFinished \<Rightarrow>
       (case stage s of
          Joining outcome \<Rightarrow>
            if live_sinks s = [] \<and> done_sinks s = []
            then Some (s\<lparr>stage := Stopped (result_and outcome (Ok ()))\<rparr>) else None
        | _ \<Rightarrow> None))"

section \<open>What the supervisor keeps\<close>

fun decided :: "'e stage \<Rightarrow> (unit, 'e) result option" where
  "decided Selecting = None"
| "decided (Stopping r) = Some r"
| "decided (Joining r) = Some r"
| "decided (Stopped r) = Some r"

lemma joined_simps [simp]:
  "joined r = None \<longleftrightarrow> is_ok r"
  "joined r = Some q \<longleftrightarrow> q = r \<and> \<not> is_ok r"
  by (auto simp: joined_def)

lemma unit_result_ok: "is_ok r \<longleftrightarrow> r = Ok ()" for r :: "(unit, 'e) result"
  by (cases r) auto

text \<open>
  Every sink task is running or has ended once. No failure of a sink task is forgotten: while
  the outcome is not an error, it is still waiting to be joined. A success is only decided
  on an interrupt or when every source was joined and succeeded.
\<close>

definition sinks_partition :: "nat \<Rightarrow> 'e supervisor \<Rightarrow> bool" where
  "sinks_partition k s \<longleftrightarrow> mset (live_sinks s @ map fst (sink_ends s)) = mset [0..<k]"

definition failures_kept :: "'e supervisor \<Rightarrow> bool" where
  "failures_kept s \<longleftrightarrow> (case decided (stage s) of Some r \<Rightarrow> \<not> is_ok r | None \<Rightarrow> False) \<or>
     (\<forall>(i, r) \<in> set (sink_ends s). is_ok r \<or> r \<in> set (done_sinks s))"

definition drained_when_stopped :: "'e supervisor \<Rightarrow> bool" where
  "drained_when_stopped s \<longleftrightarrow> (stage s = Stopped (Ok ()) \<longrightarrow> live_sinks s = [] \<and> done_sinks s = [])"

definition sources_accounted :: "nat \<Rightarrow> 'e supervisor \<Rightarrow> bool" where
  "sources_accounted n s \<longleftrightarrow>
     (stage s = Selecting \<longrightarrow> list_all is_ok (source_joins s) \<and>
        length (live_sources s) + length (done_sources s) + length (source_joins s) = n) \<and>
     (decided (stage s) = Some (Ok ()) \<longrightarrow> interrupted s \<or>
        list_all is_ok (source_joins s) \<and> length (source_joins s) = n)"

definition supervisor_inv :: "nat \<Rightarrow> nat \<Rightarrow> 'e supervisor \<Rightarrow> bool" where
  "supervisor_inv n k s \<longleftrightarrow> sinks_partition k s \<and> failures_kept s \<and> drained_when_stopped s \<and> sources_accounted n s"

lemma supervise_start_inv: "supervisor_inv n k (supervise_start n k)"
  by (simp add: supervisor_inv_def supervise_start_def sinks_partition_def failures_kept_def
    drained_when_stopped_def sources_accounted_def)

lemma result_and_unit [simp]: "result_and r q = Ok () \<longleftrightarrow> r = Ok () \<and> q = Ok ()"
  for r q :: "(unit, 'e) result"
  by (auto simp: ok_iff)

lemma sinks_partition_step:
  assumes "supervise_step s ev = Some t" "sinks_partition k s"
  shows "sinks_partition k t"
proof (cases "\<exists>i r. ev = SinkEnds i r")
  case True
  then obtain i r where ev: "ev = SinkEnds i r" by blast
  with assms(1) have "i \<in> set (live_sinks s)"
    "mset (live_sinks t @ map fst (sink_ends t)) = mset (live_sinks s @ map fst (sink_ends s))"
    by (auto simp: supervise_step_def split: if_splits)
  with assms(2) show ?thesis by (simp add: sinks_partition_def)
next
  case False
  with assms have "live_sinks t = live_sinks s" "sink_ends t = sink_ends s"
    by (auto simp: supervise_step_def Let_def split: supervisor_event.splits if_splits stage.splits option.splits)
  with assms(2) show ?thesis by (simp add: sinks_partition_def)
qed

lemma kept_after_removal:
  assumes "k < length xs" "is_ok (xs ! k)" "\<forall>(i, r) \<in> S. is_ok r \<or> r \<in> set xs"
  shows "\<forall>(i, r) \<in> S. is_ok r \<or> r \<in> set (remove_nth k xs)"
  using assms mem_remove_nth [of k xs] by fastforce

lemma failures_kept_step:
  assumes "supervise_step s ev = Some t" "failures_kept s"
  shows "failures_kept t"
proof (cases ev)
  case (JoinSink k)
  then show ?thesis
  proof (cases "is_ok (done_sinks s ! k)")
    case True
    with JoinSink assms(1) have "k < length (done_sinks s)" "t = s\<lparr>done_sinks := remove_nth k (done_sinks s)\<rparr>"
      by (auto simp: supervise_step_def joined_def Let_def split: if_splits stage.splits)
    with kept_after_removal [of k "done_sinks s" "set (sink_ends s)"] True assms(2) show ?thesis
      by (auto simp: failures_kept_def)
  next
    case False
    with JoinSink assms show ?thesis
      by (auto simp: failures_kept_def supervise_step_def joined_def unit_result_ok Let_def
        split: if_splits stage.splits)
  qed
next
  case (JoinSource k)
  with assms show ?thesis
    by (auto simp: failures_kept_def supervise_step_def Let_def split: if_splits option.splits)
qed (use assms in \<open>fastforce simp: failures_kept_def supervise_step_def unit_result_ok split: if_splits stage.splits\<close>)+

lemma drained_when_stopped_step:
  assumes "supervise_step s ev = Some t" "drained_when_stopped s"
  shows "drained_when_stopped t"
proof (cases ev)
  case (JoinSink k)
  with assms show ?thesis
    by (auto simp: drained_when_stopped_def supervise_step_def Let_def unit_result_ok
      split: if_splits stage.splits option.splits)
next
  case (JoinSource k)
  with assms show ?thesis
    by (auto simp: drained_when_stopped_def supervise_step_def Let_def split: if_splits option.splits)
qed (use assms in \<open>auto simp: drained_when_stopped_def supervise_step_def split: if_splits stage.splits\<close>)

lemma sources_accounted_step:
  assumes "supervise_step s ev = Some t" "sources_accounted n s"
  shows "sources_accounted n t"
proof (cases ev)
  case (SourceEnds i r)
  then have "length (live_sources s) = Suc (length (remove1 i (live_sources s)))" if "i \<in> set (live_sources s)"
    using that length_pos_if_in_set [OF that] by (simp add: length_remove1)
  with SourceEnds assms show ?thesis
    by (auto simp: sources_accounted_def supervise_step_def split: if_splits)
next
  case (JoinSink k)
  with assms show ?thesis
    by (auto simp: sources_accounted_def supervise_step_def Let_def unit_result_ok
      split: if_splits stage.splits option.splits)
next
  case (JoinSource k)
  with assms show ?thesis
    by (auto simp: sources_accounted_def supervise_step_def Let_def unit_result_ok
      split: if_splits option.splits)
qed (use assms in \<open>auto simp: sources_accounted_def supervise_step_def split: if_splits stage.splits\<close>)

interpretation supervision: step_invariant supervise_step "supervisor_inv n k" for n k
  by unfold_locales (auto simp: supervisor_inv_def intro: sinks_partition_step failures_kept_step
    drained_when_stopped_step sources_accounted_step)

lemmas supervisor_reachable = supervision.run_keeps [OF supervise_start_inv]

text \<open>
  Every error is one a task ended with, and \<open>run\<close> does not return while a sink task is running
  unless one of them has failed.
\<close>

definition ends_accounted :: "'e supervisor \<Rightarrow> bool" where
  "ends_accounted s \<longleftrightarrow> set (done_sinks s) \<subseteq> snd ` set (sink_ends s) \<and>
     (\<forall>r. decided (stage s) = Some r \<longrightarrow> is_ok r \<or> r \<in> snd ` set (sink_ends s) \<union> set (source_joins s)) \<and>
     (\<forall>r. stage s = Stopped r \<longrightarrow> live_sinks s = [] \<or> (\<exists>x \<in> snd ` set (sink_ends s). \<not> is_ok x))"

lemma ends_accounted_stage:
  assumes "ends_accounted s" "stage t = st" "live_sinks t = live_sinks s" "set (done_sinks t) \<subseteq> set (done_sinks s)"
    "sink_ends t = sink_ends s" "source_joins t = source_joins s"
    and "\<And>r. decided st = Some r \<Longrightarrow> is_ok r \<or> r \<in> snd ` set (sink_ends s) \<union> set (source_joins s)"
    and "\<And>r. st = Stopped r \<Longrightarrow> live_sinks s = [] \<or> (\<exists>x \<in> snd ` set (sink_ends s). \<not> is_ok x)"
  shows "ends_accounted t"
  using assms unfolding ends_accounted_def by auto

lemma result_and_Ok [simp]: "result_and q (Ok ()) = q" for q :: "(unit, 'e) result"
  by (cases q) simp_all

lemma result_and_cases: "result_and q r = q \<or> result_and q r = r" for q r :: "(unit, 'e) result"
  by (cases q) auto

lemma ends_accounted_join:
  assumes step: "supervise_step s (JoinSink k) = Some t" and inv: "ends_accounted s"
  shows "ends_accounted t"
proof -
  let ?r = "done_sinks s ! k" and ?s = "s\<lparr>done_sinks := remove_nth k (done_sinks s)\<rparr>"
  from step have k: "k < length (done_sinks s)" by (simp add: supervise_step_def split: if_splits)
  then have r: "?r \<in> snd ` set (sink_ends s)" using inv by (auto simp: ends_accounted_def)
  note sub = set_remove_nth [of k "done_sinks s"]
  have real: "\<And>q. decided (stage s) = Some q \<Longrightarrow> is_ok q \<or> q \<in> snd ` set (sink_ends s) \<union> set (source_joins s)"
    "\<And>q. stage s = Stopped q \<Longrightarrow> live_sinks s = [] \<or> (\<exists>x \<in> snd ` set (sink_ends s). \<not> is_ok x)"
    using inv unfolding ends_accounted_def by blast+
  consider (ok) "t = ?s" | (fail) "\<not> is_ok ?r" "stage s = Selecting" "t = ?s\<lparr>stage := Stopping ?r\<rparr>"
    | (stop) q where "\<not> is_ok ?r" "stage s = Joining q" "t = ?s\<lparr>stage := Stopped (result_and q ?r)\<rparr>"
    using step k by (auto simp: supervise_step_def joined_def Let_def split: stage.splits if_splits)
  then show ?thesis
  proof cases
    case ok
    with sub real show ?thesis by (intro ends_accounted_stage [OF inv]) auto
  next
    case fail
    with sub r show ?thesis by (intro ends_accounted_stage [OF inv refl]) auto
  next
    case stop
    from result_and_cases [of q ?r] real(1) [of q] r stop(2)
    have "is_ok (result_and q ?r) \<or> result_and q ?r \<in> snd ` set (sink_ends s) \<union> set (source_joins s)" by force
    moreover have "\<exists>x \<in> snd ` set (sink_ends s). \<not> is_ok x" using r stop(1) by blast
    ultimately show ?thesis unfolding stop(3) using sub
      by (intro ends_accounted_stage [OF inv refl]) (simp_all, blast?)
  qed
qed

lemma ends_accounted_step:
  assumes step: "supervise_step s ev = Some t" and inv: "ends_accounted s"
  shows "ends_accounted t"
proof (cases ev)
  case (JoinSink k)
  with ends_accounted_join step inv show ?thesis by blast
next
  case (SinkEnds i r)
  with step inv show ?thesis
    by (auto simp: supervise_step_def ends_accounted_def split: if_splits)
next
  case (JoinSource k)
  with step inv show ?thesis
    by (auto simp: supervise_step_def ends_accounted_def Let_def split: if_splits option.splits)
next
  case SourcesStopped
  with step obtain q where q: "stage s = Stopping q" "t = s\<lparr>stage := Joining q, live_sources := [], done_sources := []\<rparr>"
    by (auto simp: supervise_step_def split: stage.splits)
  from inv q(1) show ?thesis unfolding q(2)
    by (intro ends_accounted_stage [OF inv refl]) (simp_all add: ends_accounted_def)
next
  case SinksFinished
  with step obtain q where q: "stage s = Joining q" "live_sinks s = []" "t = s\<lparr>stage := Stopped q\<rparr>"
    by (auto simp: supervise_step_def split: stage.splits if_splits)
  from inv q(1,2) show ?thesis unfolding q(3)
    by (intro ends_accounted_stage [OF inv refl]) (simp_all add: ends_accounted_def)
qed (use step inv in \<open>auto simp: supervise_step_def ends_accounted_def unit_result_ok split: if_splits stage.splits\<close>)

interpretation ends: step_invariant supervise_step ends_accounted
  by unfold_locales (rule ends_accounted_step)

lemma supervise_start_ends: "ends_accounted (supervise_start n k)"
  by (simp add: ends_accounted_def supervise_start_def)

lemmas ends_reachable = ends.run_keeps [OF supervise_start_ends]

text \<open>Once an error is decided it is the result.\<close>

interpretation verdict: step_invariant supervise_step "\<lambda>s. decided (stage s) = Some (Err e)" for e
  by unfold_locales
    (auto simp: supervise_step_def Let_def split: supervisor_event.splits if_splits stage.splits option.splits)

text \<open>With no sink task running, all have ended; after a successful return, with \<open>Ok\<close>.\<close>

lemma all_sinks_ended:
  assumes "run supervise_step (supervise_start n k) ls = Some s" "live_sinks s = []"
  shows "fst ` set (sink_ends s) = {0..<k}"
proof -
  from supervisor_reachable [OF assms(1)] have "sinks_partition k s" by (simp add: supervisor_inv_def)
  with assms(2) have "set (map fst (sink_ends s)) = {0..<k}"
    unfolding sinks_partition_def by (metis append_Nil set_mset_mset set_upt)
  then show ?thesis by simp
qed

lemma stopped_ok_sinks:
  assumes "run supervise_step (supervise_start n k) ls = Some s" and "stage s = Stopped (Ok ())"
  shows "(\<forall>(i, r) \<in> set (sink_ends s). r = Ok ()) \<and> (\<forall>i < k. (i, Ok ()) \<in> set (sink_ends s))"
proof -
  from supervisor_reachable [OF assms(1)] assms(2) have empty: "live_sinks s = []" "done_sinks s = []"
    and "failures_kept s" by (simp_all add: supervisor_inv_def drained_when_stopped_def)
  with assms(2) have ok: "\<forall>(i, r) \<in> set (sink_ends s). r = Ok ()"
    by (auto simp: failures_kept_def unit_result_ok)
  from all_sinks_ended [OF assms(1) empty(1)] have "i \<in> fst ` set (sink_ends s)" if "i < k" for i
    using that by simp
  with ok show ?thesis by fastforce
qed

section \<open>The shutdown ends\<close>

text \<open>Every event but a repeated Ctrl-C uses something up, so there are only so many of them.\<close>

fun stage_rank :: "'e stage \<Rightarrow> nat" where
  "stage_rank Selecting = 3"
| "stage_rank (Stopping r) = 2"
| "stage_rank (Joining r) = 1"
| "stage_rank (Stopped r) = 0"

definition supervision_rank :: "'e supervisor \<Rightarrow> nat" where
  "supervision_rank s = 2 * length (live_sources s) + length (done_sources s) +
     2 * length (live_sinks s) + length (done_sinks s) + stage_rank (stage s)"

lemma length_remove1_mem: "i \<in> set xs \<Longrightarrow> length xs = Suc (length (remove1 i xs))"
  using length_pos_if_in_set [of i xs] by (simp add: length_remove1)

lemma supervision_rank_step:
  assumes "supervise_step s ev = Some t"
  shows "supervision_rank t + (if ev = CtrlC then 0 else 1) \<le> supervision_rank s"
proof (cases ev)
  case (SourceEnds i r)
  with assms length_remove1_mem [of i "live_sources s"] show ?thesis
    by (auto simp: supervise_step_def supervision_rank_def split: if_splits)
next
  case (SinkEnds i r)
  with assms length_remove1_mem [of i "live_sinks s"] show ?thesis
    by (auto simp: supervise_step_def supervision_rank_def split: if_splits)
next
  case (JoinSource k)
  with assms length_remove_nth [of k "done_sources s"] show ?thesis
    by (auto simp: supervise_step_def supervision_rank_def Let_def split: if_splits option.splits)
next
  case (JoinSink k)
  with assms length_remove_nth [of k "done_sinks s"] show ?thesis
    by (auto simp: supervise_step_def supervision_rank_def Let_def split: if_splits option.splits stage.splits)
qed (use assms in \<open>auto simp: supervise_step_def supervision_rank_def split: if_splits stage.splits\<close>)

lemma supervision_bounded:
  "run supervise_step s ls = Some t \<Longrightarrow>
    length (filter (\<lambda>ev. ev \<noteq> CtrlC) ls) + supervision_rank t \<le> supervision_rank s"
proof (induction ls arbitrary: s)
  case (Cons ev ls)
  from Cons.prems obtain u where u: "supervise_step s ev = Some u" "run supervise_step u ls = Some t"
    by (auto split: option.splits)
  from Cons.IH [OF u(2)] supervision_rank_step [OF u(1)] show ?case by (auto split: if_splits)
qed simp

text \<open>
  With the sources stopped, letting the remaining sink tasks end as \<open>f\<close> says and joining them
  leads to the result.
\<close>

definition join_rank :: "'e supervisor \<Rightarrow> nat" where
  "join_rank s = 2 * length (live_sinks s) + length (done_sinks s) + 1"

definition all_ok :: "(nat \<Rightarrow> (unit, 'e) result) \<Rightarrow> 'e supervisor \<Rightarrow> bool" where
  "all_ok f s \<longleftrightarrow> (\<forall>i \<in> set (live_sinks s). is_ok (f i)) \<and> list_all is_ok (done_sinks s)"

lemma joining_finishes:
  assumes "stage s = Joining q"
  shows "\<exists>ls t r. run supervise_step s ls = Some t \<and> length ls \<le> join_rank s \<and> stage t = Stopped r \<and>
    (is_ok r \<longleftrightarrow> is_ok q \<and> all_ok f s) \<and> (\<forall>i x. SinkEnds i x \<in> set ls \<longrightarrow> x = f i)"
  using assms
proof (induction "join_rank s" arbitrary: s rule: less_induct)
  case less
  consider (drop) d ds where "done_sinks s = d # ds" "is_ok d"
    | (fail) d ds where "done_sinks s = d # ds" "\<not> is_ok d"
    | (wait) i js where "done_sinks s = []" "live_sinks s = i # js"
    | (finish) "done_sinks s = []" "live_sinks s = []"
    by (metis list.exhaust)
  then show ?case
  proof cases
    case drop
    let ?s = "s\<lparr>done_sinks := ds\<rparr>"
    have st: "supervise_step s (JoinSink 0) = Some ?s"
      using drop less.prems by (simp add: supervise_step_def joined_def remove_nth_def Let_def)
    have "join_rank ?s < join_rank s" "stage ?s = Joining q"
      using drop less.prems by (simp_all add: join_rank_def)
    from less.hyps [OF this] obtain ls t r where t: "run supervise_step ?s ls = Some t"
      "length ls \<le> join_rank ?s" "stage t = Stopped r" "is_ok r \<longleftrightarrow> is_ok q \<and> all_ok f ?s"
      "\<forall>i x. SinkEnds i x \<in> set ls \<longrightarrow> x = f i" by blast
    with drop st show ?thesis
      by (intro exI [of _ "JoinSink 0 # ls"] exI [of _ t] exI [of _ r]) (simp add: join_rank_def all_ok_def)
  next
    case fail
    let ?s = "s\<lparr>done_sinks := ds, stage := Stopped (result_and q d)\<rparr>"
    have "supervise_step s (JoinSink 0) = Some ?s"
      using fail less.prems by (simp add: supervise_step_def joined_def remove_nth_def Let_def)
    with fail show ?thesis
      by (intro exI [of _ "[JoinSink 0]"] exI [of _ ?s] exI [of _ "result_and q d"])
        (simp add: join_rank_def all_ok_def unit_result_ok)
  next
    case wait
    let ?s = "s\<lparr>live_sinks := js, done_sinks := [f i], sink_ends := sink_ends s @ [(i, f i)]\<rparr>"
    have st: "supervise_step s (SinkEnds i (f i)) = Some ?s"
      using wait by (simp add: supervise_step_def)
    have "join_rank ?s < join_rank s" "stage ?s = Joining q"
      using wait less.prems by (simp_all add: join_rank_def)
    from less.hyps [OF this] obtain ls t r where t: "run supervise_step ?s ls = Some t"
      "length ls \<le> join_rank ?s" "stage t = Stopped r" "is_ok r \<longleftrightarrow> is_ok q \<and> all_ok f ?s"
      "\<forall>i x. SinkEnds i x \<in> set ls \<longrightarrow> x = f i" by blast
    with wait st show ?thesis
      by (intro exI [of _ "SinkEnds i (f i) # ls"] exI [of _ t] exI [of _ r])
        (auto simp: join_rank_def all_ok_def)
  next
    case finish
    let ?s = "s\<lparr>stage := Stopped (result_and q (Ok ()))\<rparr>"
    have "supervise_step s SinksFinished = Some ?s" using finish less.prems by (simp add: supervise_step_def)
    with finish show ?thesis
      by (intro exI [of _ "[SinksFinished]"] exI [of _ ?s] exI [of _ "result_and q (Ok ())"])
        (simp add: join_rank_def all_ok_def unit_result_ok)
  qed
qed

section \<open>A small topology\<close>

definition demo_config :: config where
  "demo_config = \<lparr>
     cfg_sources = [(''in'', SourceKafka (kafka_source_required ''b'' ''g'' [''t'']))],
     cfg_sinks = [(''out'', SinkClickhouse (clickhouse_sink_required [''in''] ''u'' ''t''))],
     cfg_metrics = \<lparr>log_interval_seconds = 10, listen = None\<rparr>\<rparr>"

definition demo_outside :: "(unit, string) outside" where
  "demo_outside = \<lparr>channel = channel_capacity_ok, create_producer = (\<lambda>_. Ok ()), create_consumer = (\<lambda>_. Ok ()),
     subscribe = (\<lambda>_ _. Ok ())\<rparr>"

lemma demo_config_valid: "valid_config demo_config"
  by (simp add: demo_config_def valid_config_def valid_sink_def clickhouse_sink_required_def
    kafka_source_required_def default_defs from_millis_def)

lemma demo_config_simps:
  "cfg_sources demo_config = [(''in'', SourceKafka (kafka_source_required ''b'' ''g'' [''t'']))]"
  "cfg_sinks demo_config = [(''out'', SinkClickhouse (clickhouse_sink_required [''in''] ''u'' ''t''))]"
  "ch_inputs (clickhouse_sink_required [''in''] ''u'' ''t'') = [''in'']"
  "ch_buffer_capacity (clickhouse_sink_required [''in''] ''u'' ''t'') = 32"
  by (simp_all add: demo_config_def clickhouse_sink_required_def default_defs)

lemma demo_config_builds: "\<exists>t. build_topology demo_outside demo_config = Some (Ok t)"
proof -
  have "validate demo_config = Ok ()" using demo_config_valid by (simp add: validate_ok)
  then show ?thesis
    by (simp add: build_topology_def demo_config_simps demo_outside_def sink_build_def source_build_def
      KafkaSource_new_def destinations_of_def channel_capacity_ok_def MAX_PERMITS_def usize_MAX_def)
qed

definition oversized_config :: config where
  "oversized_config = demo_config\<lparr>cfg_sinks := [(''out'', SinkClickhouse
     (clickhouse_sink_required [''in''] ''u'' ''t''\<lparr>ch_buffer_capacity := 2 ^ 61\<rparr>))]\<rparr>"

lemma oversized_config_valid: "valid_config oversized_config"
  by (simp add: oversized_config_def demo_config_def valid_config_def valid_sink_def clickhouse_sink_required_def
    kafka_source_required_def default_defs from_millis_def)

lemma oversized_config_simps:
  "cfg_sinks oversized_config = [(''out'', SinkClickhouse
     (clickhouse_sink_required [''in''] ''u'' ''t''\<lparr>ch_buffer_capacity := 2 ^ 61\<rparr>))]"
  by (simp add: oversized_config_def)

lemma build_topology_total:
  assumes "distinct (map fst (cfg_sinks c))"
    and "\<forall>n. channel X n \<longleftrightarrow> channel_capacity_ok n"
    and "\<forall>(k, s) \<in> set (cfg_sinks c). sink_buffer_capacity s \<le> MAX_PERMITS"
  shows "\<exists>r. build_topology X c = Some r \<and> (\<forall>e. r = Err (Invalid e) \<longleftrightarrow> validate c = Err e) \<and>
    (valid_config c \<and> (\<forall>cfg. is_ok (create_producer X cfg)) \<and> (\<forall>cfg. is_ok (create_consumer X cfg)) \<and>
      (\<forall>k ts. is_ok (subscribe X k ts)) \<longrightarrow> is_ok r)"
proof (cases "validate c")
  case (Err e)
  then have "\<not> valid_config c" using validate_ok [of c] by auto
  with Err show ?thesis by (auto simp: build_topology_def)
next
  case (Ok u)
  then have v: "valid_config c" by (simp add: validate_ok)
  with assms(2,3) have "\<forall>(k, s) \<in> set (cfg_sinks c). channel X (sink_buffer_capacity s)"
    by (fastforce simp: valid_config_def valid_sink_def channel_capacity_ok_def)
  from spawn_sinks_total [OF this, of Map.empty "[]"] obtain r where
    r: "spawn_sinks X (cfg_sinks c) Map.empty [] = Some r" "(\<forall>cfg. is_ok (create_producer X cfg)) \<longrightarrow> is_ok r" by blast
  show ?thesis
  proof (cases r)
    case (Err e)
    with r Ok show ?thesis by (simp add: build_topology_def)
  next
    case (Ok p)
    obtain inputs ks where p: "p = (inputs, ks)" by fastforce
    from spawn_sinks_result [of X "cfg_sinks c" Map.empty "[]" inputs ks] r(1) Ok p assms(1)
    have "\<forall>i < length (cfg_sinks c). inputs (fst (cfg_sinks c ! i)) = Some i" by simp
    from spawn_sources_total [OF this, of X "cfg_sources c"] obtain q where
      q: "spawn_sources X (cfg_sinks c) inputs (cfg_sources c) = Some q"
        "(\<forall>cfg. is_ok (create_consumer X cfg)) \<and> (\<forall>k ts. is_ok (subscribe X k ts)) \<longrightarrow> is_ok q" by blast
    with r(1) Ok p \<open>validate c = Ok u\<close> show ?thesis by (cases q) (simp_all add: build_topology_def)
  qed
qed

lemma build_topology_panics:
  assumes "valid_config c" "\<forall>cfg. is_ok (create_producer X cfg)" "(k, s) \<in> set (cfg_sinks c)"
    "\<not> channel X (sink_buffer_capacity s)"
  shows "build_topology X c = None"
proof -
  have "validate c = Ok ()" using assms(1) by (simp add: validate_ok)
  with spawn_sinks_panics [OF assms(2-4), of Map.empty "[]"] show ?thesis by (simp add: build_topology_def)
qed

section \<open>Properties\<close>

text \<open>
  C14: the wiring is the one the configuration describes: one task per sink and per source, each
  source fans out to exactly the sinks that list it as an input, every sink is reached from
  each of its inputs, and each sink runs with its own settings.
\<close>

theorem wiring_follows_the_configuration:
  assumes "build_topology X c = Some (Ok t)" and "distinct (map fst (cfg_sinks c))"
  shows "map spec_id (top_sinks t) = map fst (cfg_sinks c) \<and>
    map spec_settings (top_sinks t) = map (runtime_settings \<circ> snd) (cfg_sinks c) \<and>
    map (source_id \<circ> spec_source) (top_sources t) = map fst (cfg_sources c) \<and>
    (\<forall>j < length (cfg_sources c). \<forall>i. i \<in> set (spec_destinations (top_sources t ! j)) \<longleftrightarrow>
       i < length (cfg_sinks c) \<and> fst (cfg_sources c ! j) \<in> set (sink_inputs (snd (cfg_sinks c ! i)))) \<and>
    (\<forall>i < length (cfg_sinks c). \<exists>j < length (cfg_sources c). i \<in> set (spec_destinations (top_sources t ! j)))"
proof -
  from assms(1) obtain inputs where v: "validate c = Ok ()"
    and k: "spawn_sinks X (cfg_sinks c) Map.empty [] = Some (Ok (inputs, top_sinks t))"
    and r: "spawn_sources X (cfg_sinks c) inputs (cfg_sources c) = Some (Ok (top_sources t))"
    by (auto simp: build_topology_def split: result.splits option.splits)
  from spawn_sinks_result [OF k assms(2)] have k': "map spec_id (top_sinks t) = map fst (cfg_sinks c)"
    "map spec_settings (top_sinks t) = map (runtime_settings \<circ> snd) (cfg_sinks c)"
    "\<forall>i < length (cfg_sinks c). inputs (fst (cfg_sinks c ! i)) = Some i" by simp_all
  from spawn_sources_result [OF k'(3) r] have r':
    "map (source_id \<circ> spec_source) (top_sources t) = map fst (cfg_sources c)"
    "map spec_destinations (top_sources t) = map (readers (cfg_sinks c) \<circ> fst) (cfg_sources c)" by simp_all
  from arg_cong [OF r'(2), of length] have len: "length (top_sources t) = length (cfg_sources c)" by simp
  have d: "spec_destinations (top_sources t ! j) = readers (cfg_sinks c) (fst (cfg_sources c ! j))"
    if "j < length (cfg_sources c)" for j
    using arg_cong [OF r'(2), of "\<lambda>xs. xs ! j"] that len by simp
  have "\<exists>j < length (cfg_sources c). fst (cfg_sources c ! j) \<in> set (sink_inputs (snd (cfg_sinks c ! i)))"
    if "i < length (cfg_sinks c)" for i
  proof -
    from v have "valid_config c" by (simp add: validate_ok)
    with nth_mem [OF that] have "valid_sink (fst ` set (cfg_sources c)) (snd (cfg_sinks c ! i))"
      by (fastforce simp: valid_config_def)
    then obtain x where x: "x \<in> set (sink_inputs (snd (cfg_sinks c ! i)))" "x \<in> fst ` set (cfg_sources c)"
      unfolding valid_sink_def by (cases "sink_inputs (snd (cfg_sinks c ! i))") auto
    from x(2) obtain q where "q \<in> set (cfg_sources c)" "fst q = x" by blast
    then obtain j where "j < length (cfg_sources c)" "fst (cfg_sources c ! j) = x" by (metis in_set_conv_nth)
    with x(1) show ?thesis by blast
  qed
  moreover have e: "i \<in> set (spec_destinations (top_sources t ! j)) \<longleftrightarrow>
      i < length (cfg_sinks c) \<and> fst (cfg_sources c ! j) \<in> set (sink_inputs (snd (cfg_sinks c ! i)))"
    if "j < length (cfg_sources c)" for i j
    unfolding d [OF that] by (auto simp: readers_def)
  ultimately have "\<forall>i < length (cfg_sinks c).
      \<exists>j < length (cfg_sources c). i \<in> set (spec_destinations (top_sources t ! j))" by blast
  then show ?thesis using k'(1,2) r'(1) e by blast
qed

theorem wiring_follows_the_configuration_witness:
  "\<exists>t. build_topology demo_outside demo_config = Some (Ok t) \<and>
     0 \<in> set (spec_destinations (top_sources t ! 0)) \<and> map spec_id (top_sinks t) = [''out'']"
proof -
  obtain t where t: "build_topology demo_outside demo_config = Some (Ok t)"
    using demo_config_builds by blast
  have "distinct (map fst (cfg_sinks demo_config))" by (simp add: demo_config_simps)
  note w = wiring_follows_the_configuration [OF t this]
  from w [THEN conjunct1] have a: "map spec_id (top_sinks t) = [''out'']" by (simp add: demo_config_simps)
  from w [THEN conjunct2, THEN conjunct2, THEN conjunct2, THEN conjunct2]
  have b: "0 \<in> set (spec_destinations (top_sources t ! 0))" by (simp add: demo_config_simps)
  show ?thesis using t a b by (intro exI [of _ t] conjI)
qed

text \<open>
  C33: when starting the program panics and what it reports otherwise, for a parser that yields maps
  without repeated keys and with \<open>mpsc::channel\<close> behaving as documented. As long as no configured
  \<open>buffer_capacity\<close> exceeds \<open>MAX_PERMITS\<close> it never panics: the validation inside \<open>run\<close> cannot fail
  after loading, an unreadable file and an invalid configuration are reported as such with nothing
  started, and a valid configuration whose clients can be created starts. But \<open>validate\<close> does not
  bound the capacity: a valid configuration with a larger one and a working producer panics.
\<close>

theorem program_start_outcome:
  assumes keys: "\<forall>raw c. toml raw = Ok c \<longrightarrow> distinct (map fst (cfg_sinks c))"
    and chan: "\<forall>n. channel X n \<longleftrightarrow> channel_capacity_ok n"
  shows "((\<forall>raw c k s. rd (config_path args) = Ok raw \<and> toml raw = Ok c \<and> (k, s) \<in> set (cfg_sinks c) \<longrightarrow>
        sink_buffer_capacity s \<le> MAX_PERMITS) \<longrightarrow>
     (\<exists>r. main_start X rd toml args = Some r \<and> (\<forall>e. r \<noteq> Err (RunError (Invalid e))) \<and>
      (\<forall>e. rd (config_path args) = Err e \<longrightarrow> r = Err (LoadError (CannotRead (config_path args) e))) \<and>
      (\<forall>raw c. rd (config_path args) = Ok raw \<and> toml raw = Ok c \<longrightarrow>
        (\<forall>e. r = Err (LoadError (InvalidConfig e)) \<longleftrightarrow> validate c = Err e) \<and>
        (valid_config c \<and> (\<forall>cfg. is_ok (create_producer X cfg)) \<and> (\<forall>cfg. is_ok (create_consumer X cfg)) \<and>
          (\<forall>k ts. is_ok (subscribe X k ts)) \<longrightarrow> is_ok r)))) \<and>
    (\<forall>raw c k s. rd (config_path args) = Ok raw \<and> toml raw = Ok c \<and> valid_config c \<and>
      (\<forall>cfg. is_ok (create_producer X cfg)) \<and> (k, s) \<in> set (cfg_sinks c) \<and>
      MAX_PERMITS < sink_buffer_capacity s \<longrightarrow> main_start X rd toml args = None)"
proof (cases "Config_load rd toml (config_path args)")
  case (Err e)
  then have "\<not> valid_config c" if "rd (config_path args) = Ok raw" "toml raw = Ok c" for raw c
    using that by (auto simp: Config_load_def validate_ok [of _ "()", symmetric] split: result.splits)
  with Err show ?thesis
    by (auto simp: main_start_def Config_load_def split: result.splits)
next
  case (Ok c)
  from Config_load_ok [THEN iffD1, OF Ok] obtain raw where
    c: "rd (config_path args) = Ok raw" "toml raw = Ok c" "valid_config c" by blast
  then have v: "validate c = Ok ()" by (simp add: validate_ok)
  show ?thesis
  proof (cases "\<forall>(k, s) \<in> set (cfg_sinks c). sink_buffer_capacity s \<le> MAX_PERMITS")
    case True
    with build_topology_total [of c X] keys chan c(2) obtain q where
      q: "build_topology X c = Some q" "\<forall>e. q = Err (Invalid e) \<longleftrightarrow> validate c = Err e"
        "valid_config c \<and> (\<forall>cfg. is_ok (create_producer X cfg)) \<and> (\<forall>cfg. is_ok (create_consumer X cfg)) \<and>
          (\<forall>k ts. is_ok (subscribe X k ts)) \<longrightarrow> is_ok q" by fastforce
    with Ok c v True show ?thesis by (cases q) (auto simp: main_start_def)
  next
    case False
    then obtain k s where ks: "(k, s) \<in> set (cfg_sinks c)" "MAX_PERMITS < sink_buffer_capacity s" by auto
    with chan have "\<not> channel X (sink_buffer_capacity s)" by (simp add: channel_capacity_ok_def)
    with build_topology_panics [OF c(3) _ ks(1), of X] Ok
    have "\<forall>cfg. is_ok (create_producer X cfg) \<Longrightarrow> main_start X rd toml args = None" by (simp add: main_start_def)
    with c ks show ?thesis by (auto simp: linorder_not_le [symmetric])
  qed
qed

theorem program_start_outcome_witness:
  "\<exists>r. main_start demo_outside (\<lambda>p. if p = ''demo.toml'' then Ok ''demo'' else Err (2 :: nat))
      (\<lambda>raw. if raw = ''demo'' then Ok demo_config else Err (0 :: nat)) [''rustper'', ''demo.toml''] = Some r \<and> is_ok r \<and>
    main_start demo_outside (\<lambda>_. Ok ''demo'' :: (string, nat) result)
      (\<lambda>_. Ok oversized_config :: (config, nat) result) [''rustper''] = None"
proof -
  let ?rd = "\<lambda>p. if p = ''demo.toml'' then Ok ''demo'' else Err (2 :: nat)"
  let ?toml = "\<lambda>raw. if raw = ''demo'' then Ok demo_config else Err (0 :: nat)"
  have ch: "\<forall>n. channel demo_outside n \<longleftrightarrow> channel_capacity_ok n" by (simp add: demo_outside_def)
  have "\<forall>raw c. ?toml raw = Ok c \<longrightarrow> distinct (map fst (cfg_sinks c))"
    by (auto simp: demo_config_simps split: if_splits)
  from program_start_outcome [OF this ch, of ?rd "[''rustper'', ''demo.toml'']"] demo_config_valid
  have a: "\<exists>r. main_start demo_outside ?rd ?toml [''rustper'', ''demo.toml''] = Some r \<and> is_ok r"
    by (auto simp: config_path_def demo_outside_def demo_config_simps MAX_PERMITS_def usize_MAX_def)
  have "\<forall>raw c. (Ok oversized_config :: (config, nat) result) = Ok c \<longrightarrow> distinct (map fst (cfg_sinks c))"
    by (auto simp: oversized_config_simps)
  from program_start_outcome [of "\<lambda>_. Ok oversized_config :: (config, nat) result", OF this ch,
      of "\<lambda>_. Ok ''demo'' :: (string, nat) result" "[''rustper'']"] oversized_config_valid
  have "main_start demo_outside (\<lambda>_. Ok ''demo'' :: (string, nat) result)
      (\<lambda>_. Ok oversized_config :: (config, nat) result) [''rustper''] = None"
    by (auto simp: oversized_config_simps demo_outside_def MAX_PERMITS_def usize_MAX_def)
  with a show ?thesis by blast
qed

text \<open>
  C13: the process reports success only when it should: \<open>run\<close> returns \<open>Ok\<close> only if every sink
  task has ended without an error, and either it was interrupted or every source ended
  without an error. So no sink failure is ever swallowed.
\<close>

theorem run_ok_means_sinks_ok:
  assumes "run supervise_step (supervise_start n k) ls = Some s" and "stage s = Stopped (Ok ())"
  shows "(\<forall>i < k. (i, Ok ()) \<in> set (sink_ends s)) \<and> (\<forall>(i, r) \<in> set (sink_ends s). r = Ok ()) \<and>
    (interrupted s \<or> source_joins s = replicate n (Ok ()))"
proof -
  from supervisor_reachable [OF assms(1)] have "sources_accounted n s" by (simp add: supervisor_inv_def)
  with assms(2) have "interrupted s \<or> source_joins s = replicate n (Ok ())"
    by (auto simp: sources_accounted_def list_all_iff unit_result_ok replicate_length_same)
  then show ?thesis using stopped_ok_sinks [OF assms] by blast
qed

theorem run_ok_means_sinks_ok_witness:
  "\<exists>s. run supervise_step (supervise_start 1 1)
      [CtrlC, SourceEnds 0 (Err ''gone''), TakeCtrlC, SourcesStopped, SinkEnds 0 (Ok ()), JoinSink 0, SinksFinished]
      = Some s \<and> (0, Ok ()) \<in> set (sink_ends s)"
proof -
  obtain s where s: "run supervise_step (supervise_start 1 1)
      [CtrlC, SourceEnds 0 (Err ''gone''), TakeCtrlC, SourcesStopped, SinkEnds 0 (Ok ()), JoinSink 0, SinksFinished]
      = Some s" "stage s = Stopped (Ok ())"
    by (simp add: supervise_step_def supervise_start_def joined_def remove_nth_def Let_def)
  from run_ok_means_sinks_ok [OF s] s(1) show ?thesis by simp
qed

text \<open>
  The first failure is the one reported: once the \<open>select!\<close> has ended with an error, draining
  the sinks cannot replace it or turn it into success.
\<close>

theorem first_failure_is_reported:
  assumes "stage s = Stopping (Err e)" and "run supervise_step s ls = Some t" and "stage t = Stopped r"
  shows "r = Err e"
  using verdict.run_keeps [of s e, OF _ assms(2)] assms(1,3) by simp

theorem first_failure_is_reported_witness:
  "\<exists>s t. run supervise_step (supervise_start 1 2) [SinkEnds 1 (Err ''full''), JoinSink 0] = Some s \<and>
     run supervise_step s [SourcesStopped, SinkEnds 0 (Err ''late''), JoinSink 0] = Some t \<and>
     stage t = Stopped (Err ''full'')"
proof -
  let ?s = "(supervise_start 1 2)\<lparr>stage := Stopping (Err ''full''), live_sinks := [0],
    sink_ends := [(1, Err ''full'')]\<rparr>"
  have s: "run supervise_step (supervise_start 1 2) [SinkEnds 1 (Err ''full''), JoinSink 0] = Some ?s"
    by (simp add: supervise_step_def supervise_start_def joined_def remove_nth_def numeral_2_eq_2 Let_def)
  obtain t r where t: "run supervise_step ?s [SourcesStopped, SinkEnds 0 (Err ''late''), JoinSink 0] = Some t"
    "stage t = Stopped r"
    by (simp add: supervise_step_def supervise_start_def joined_def remove_nth_def Let_def)
  from first_failure_is_reported [OF _ t] s t show ?thesis by auto
qed

text \<open>
  C34: shutdown waits for the sinks and then ends. In every run of the supervisor: it never returns
  while a sink task is still running, unless a sink task has failed, in which case \<open>join_all\<close> gives
  up on the others; the error it returns is one that a sink task or a joined source ended with, and
  \<open>Ok\<close> means that every sink task ended with \<open>Ok\<close>. Apart from further Ctrl-C signals there are
  only boundedly many events, and once the \<open>select!\<close> has ended with \<open>q\<close>, however the remaining sink
  tasks end, \<open>run\<close> can return, with \<open>Ok\<close> exactly if \<open>q\<close> was and no sink task failed.
\<close>

theorem shutdown_drains_every_sink:
  assumes "run supervise_step (supervise_start n k) ls = Some s"
  shows "length (filter (\<lambda>ev. ev \<noteq> CtrlC) ls) \<le> 2 * n + 2 * k + 3 \<and>
    (\<forall>r. stage s = Stopped r \<longrightarrow>
       ((\<forall>i < k. i \<in> fst ` set (sink_ends s)) \<or> (\<exists>x \<in> snd ` set (sink_ends s). \<not> is_ok x)) \<and>
       (is_ok r \<longrightarrow> (\<forall>i < k. (i, Ok ()) \<in> set (sink_ends s)) \<and> (\<forall>x \<in> snd ` set (sink_ends s). is_ok x)) \<and>
       (\<not> is_ok r \<longrightarrow> r \<in> snd ` set (sink_ends s) \<union> set (source_joins s))) \<and>
    (\<forall>q f. stage s = Stopping q \<longrightarrow>
       (\<exists>ls' t r. run supervise_step s ls' = Some t \<and> length ls' \<le> Suc (join_rank s) \<and> stage t = Stopped r \<and>
         (is_ok r \<longleftrightarrow> is_ok q \<and> all_ok f s) \<and> (\<forall>i x. SinkEnds i x \<in> set ls' \<longrightarrow> x = f i)))"
proof (intro conjI allI impI ballI)
  show "length (filter (\<lambda>ev. ev \<noteq> CtrlC) ls) \<le> 2 * n + 2 * k + 3"
    using supervision_bounded [OF assms] by (simp add: supervision_rank_def supervise_start_def)
next
  fix r assume r: "stage s = Stopped r"
  from ends_reachable [OF assms] r have e: "live_sinks s = [] \<or> (\<exists>x \<in> snd ` set (sink_ends s). \<not> is_ok x)"
    and real: "is_ok r \<or> r \<in> snd ` set (sink_ends s) \<union> set (source_joins s)"
    by (auto simp: ends_accounted_def)
  have "i \<in> fst ` set (sink_ends s)" if "live_sinks s = []" "i < k" for i
    using all_sinks_ended [OF assms that(1)] that(2) by simp
  with e show "(\<forall>i < k. i \<in> fst ` set (sink_ends s)) \<or> (\<exists>x \<in> snd ` set (sink_ends s). \<not> is_ok x)" by blast
  from real show "r \<in> snd ` set (sink_ends s) \<union> set (source_joins s)" if "\<not> is_ok r" using that by blast
next
  fix r x assume "stage s = Stopped r" "is_ok r" "x \<in> snd ` set (sink_ends s)"
  with stopped_ok_sinks [OF assms] show "is_ok x" by (auto simp: unit_result_ok)
next
  fix r i assume "stage s = Stopped r" "is_ok r" "i < k"
  with stopped_ok_sinks [OF assms] show "(i, Ok ()) \<in> set (sink_ends s)" by (simp add: unit_result_ok)
next
  fix q f assume q: "stage s = Stopping q"
  let ?s = "s\<lparr>stage := Joining q, live_sources := [], done_sources := []\<rparr>"
  have st: "supervise_step s SourcesStopped = Some ?s" using q by (simp add: supervise_step_def)
  from joining_finishes [of ?s q f] obtain ls t r where "run supervise_step ?s ls = Some t"
    "length ls \<le> join_rank ?s" "stage t = Stopped r" "is_ok r \<longleftrightarrow> is_ok q \<and> all_ok f ?s"
    "\<forall>i x. SinkEnds i x \<in> set ls \<longrightarrow> x = f i" by auto
  with st show "\<exists>ls' t r. run supervise_step s ls' = Some t \<and> length ls' \<le> Suc (join_rank s) \<and> stage t = Stopped r \<and>
      (is_ok r \<longleftrightarrow> is_ok q \<and> all_ok f s) \<and> (\<forall>i x. SinkEnds i x \<in> set ls' \<longrightarrow> x = f i)"
    by (intro exI [of _ "SourcesStopped # ls"] exI [of _ t] exI [of _ r]) (simp add: join_rank_def all_ok_def)
qed

theorem shutdown_drains_every_sink_witness:
  "\<exists>s ls' t r. run supervise_step (supervise_start 1 3) [CtrlC, SinkEnds 1 (Ok ()), TakeCtrlC] = Some s \<and>
     run supervise_step s ls' = Some t \<and> stage t = Stopped r \<and> is_ok (r :: (unit, string) result) \<and>
     length ls' \<le> 7"
proof -
  obtain s :: "string supervisor" where s: "run supervise_step (supervise_start 1 3) [CtrlC, SinkEnds 1 (Ok ()), TakeCtrlC] = Some s"
    "stage s = Stopping (Ok ())" "all_ok (\<lambda>_. Ok ()) s" "join_rank s = 6"
    by (simp add: supervise_step_def supervise_start_def all_ok_def join_rank_def upt_rec)
  from shutdown_drains_every_sink [OF s(1), THEN conjunct2, THEN conjunct2] s(2)
  have "\<exists>ls' t r. run supervise_step s ls' = Some t \<and> length ls' \<le> Suc (join_rank s) \<and> stage t = Stopped r \<and>
      (is_ok r \<longleftrightarrow> is_ok (Ok () :: (unit, string) result) \<and> all_ok (\<lambda>_. Ok ()) s)" by blast
  with s show ?thesis by auto
qed

end
