(* ===== verification/Fanout.thy ===== *)
theory Fanout
  imports Event
begin

text \<open>
  \<open>src/topology.rs\<close>, the acknowledgement protocol: \<open>AckState\<close>, \<open>BranchAck::complete\<close> and
  its \<open>Drop\<close>, \<open>SinkEnvelope\<close>, and \<open>Fanout::send\<close>. One \<open>send\<close> hands an envelope to every
  destination; each envelope owns one branch of a shared, mutex-protected \<open>AckState\<close>. The
  protocol is modelled at the granularity of its atomic actions: the \<open>swap\<close> of a branch's
  \<open>completed\<close> flag and the critical section under the mutex are separate steps, and
  the steps of different branches interleave freely.
\<close>

section \<open>AckState and BranchAck\<close>

text \<open>
  \<open>notify\<close> is the \<open>Option\<close> holding the one-shot sender: true while the sender has not been
  taken.
\<close>

record ack_state =
  ack_remaining :: usize
  ack_delivered :: bool
  ack_notify :: bool

definition AckState_new :: "usize \<Rightarrow> ack_state" where
  "AckState_new n = \<lparr>ack_remaining = n, ack_delivered = True, ack_notify = True\<rparr>"

text \<open>
  The critical section of \<open>complete\<close>. The second component is the value passed to
  \<open>notify.send\<close>, if it is called; \<open>None\<close> overall is the underflow of \<open>remaining -= 1\<close>.
\<close>

definition complete_locked :: "bool \<Rightarrow> ack_state \<Rightarrow> (ack_state \<times> bool option) option" where
  "complete_locked d s =
     (if ack_remaining s = 0 then None
      else
        let s1 = s\<lparr>ack_delivered := ack_delivered s \<and> d, ack_remaining := ack_remaining s - 1\<rparr>
        in if ack_remaining s1 = 0 \<and> ack_notify s1
           then Some (s1\<lparr>ack_notify := False\<rparr>, Some (ack_delivered s1))
           else Some (s1, None))"

text \<open>
  \<open>BranchAck::complete\<close> run to its end: the flag, the shared state and what was sent.
  \<open>SinkEnvelope::delivered\<close>, \<open>SinkEnvelope::failed\<close> and \<open>Drop\<close> are its three callers.
\<close>

definition complete :: "bool \<Rightarrow> bool \<times> ack_state \<Rightarrow> ((bool \<times> ack_state) \<times> bool option) option" where
  "complete d = (\<lambda>(completed, s).
     if completed then Some ((True, s), None)
     else map_option (\<lambda>(s', sent). ((True, s'), sent)) (complete_locked d s))"

definition envelope_delivered :: "bool \<times> ack_state \<Rightarrow> ((bool \<times> ack_state) \<times> bool option) option" where
  "envelope_delivered = complete True"

definition envelope_failed :: "bool \<times> ack_state \<Rightarrow> ((bool \<times> ack_state) \<times> bool option) option" where
  "envelope_failed = complete False"

definition BranchAck_drop :: "bool \<times> ack_state \<Rightarrow> ((bool \<times> ack_state) \<times> bool option) option" where
  "BranchAck_drop = complete False"

text \<open>The shared state is a countdown latch whose verdict is the conjunction.\<close>

definition ack_settle :: "bool \<Rightarrow> ack_state \<Rightarrow> ack_state \<times> bool" where
  "ack_settle d s =
     (case complete_locked d s of None \<Rightarrow> (s, False) | Some (t, sent) \<Rightarrow> (t, sent \<noteq> None))"

interpretation ack: latch ack_settle ack_remaining ack_notify ack_delivered
  "\<lambda>_. 1" "\<lambda>acc d. acc \<and> d"
  by unfold_locales (auto simp: ack_settle_def complete_locked_def Let_def split: if_splits)

section \<open>Fanout::send\<close>

text \<open>
  Where one branch of a \<open>send\<close> stands: its envelope is still inside the pending
  \<open>destination.send\<close>, or owned by the sink side (queue or task), or its \<open>completed\<close> flag has
  been swapped by a call with the given verdict which has not yet entered the critical
  section, or that call has left it.
\<close>

datatype branch = Unsent | Owned | Swapped bool | Settled bool

fun completed :: "branch \<Rightarrow> bool" where
  "completed (Swapped _) = True"
| "completed (Settled _) = True"
| "completed _ = False"

fun unsettled :: "branch \<Rightarrow> bool" where
  "unsettled (Settled _) = False"
| "unsettled _ = True"

record fanout =
  branches :: "branch list"
  ack_state :: ack_state
  sent :: "bool list"
  send_error :: bool
  aborted :: bool
  panicked :: bool

definition send_start :: "usize \<Rightarrow> fanout" where
  "send_start n = \<lparr>branches = replicate n Unsent, ack_state = AckState_new n, sent = [],
     send_error = False, aborted = False, panicked = False\<rparr>"

text \<open>
  The moves of one \<open>send\<close>: a destination accepts the envelope; a destination's receiver is
  gone, so the returned envelope is dropped and the \<open>send\<close> fails; the pending \<open>send\<close>s are
  dropped because \<open>try_join_all\<close> failed or the whole future was aborted; somebody
  completes an envelope (\<open>delivered\<close>, \<open>failed\<close> or \<open>Drop\<close>), possibly not for the first time;
  a completion runs its critical section.
\<close>

datatype send_label =
  Enqueue nat | Reject nat | Abandon nat | Abort | Complete nat bool | Lock nat

definition set_branch :: "nat \<Rightarrow> branch \<Rightarrow> fanout \<Rightarrow> fanout" where
  "set_branch i b s = s\<lparr>branches := (branches s)[i := b]\<rparr>"

definition complete_swap :: "nat \<Rightarrow> bool \<Rightarrow> fanout \<Rightarrow> fanout" where
  "complete_swap i d s = (if completed (branches s ! i) then s else set_branch i (Swapped d) s)"

definition lock_branch :: "nat \<Rightarrow> bool \<Rightarrow> fanout \<Rightarrow> fanout" where
  "lock_branch i d s =
     (case complete_locked d (ack_state s) of
        None \<Rightarrow> s\<lparr>panicked := True\<rparr>
      | Some (a, v) \<Rightarrow>
          (set_branch i (Settled d) s)\<lparr>ack_state := a,
             sent := sent s @ (case v of None \<Rightarrow> [] | Some x \<Rightarrow> [x])\<rparr>)"

fun send_move :: "fanout \<Rightarrow> send_label \<Rightarrow> fanout option" where
  "send_move s (Enqueue i) =
     (if branches s ! i = Unsent \<and> \<not> send_error s \<and> \<not> aborted s
      then Some (set_branch i Owned s) else None)"
| "send_move s (Reject i) =
     (if branches s ! i = Unsent \<and> \<not> send_error s \<and> \<not> aborted s
      then Some ((complete_swap i False s)\<lparr>send_error := True\<rparr>) else None)"
| "send_move s (Abandon i) =
     (if branches s ! i = Unsent \<and> (send_error s \<or> aborted s)
      then Some (complete_swap i False s) else None)"
| "send_move s Abort = Some (s\<lparr>aborted := True\<rparr>)"
| "send_move s (Complete i d) =
     (if branches s ! i \<noteq> Unsent then Some (complete_swap i d s) else None)"
| "send_move s (Lock i) =
     (case branches s ! i of Swapped d \<Rightarrow> Some (lock_branch i d s) | _ \<Rightarrow> None)"

fun label_branch :: "send_label \<Rightarrow> nat" where
  "label_branch (Enqueue i) = i"
| "label_branch (Reject i) = i"
| "label_branch (Abandon i) = i"
| "label_branch Abort = 0"
| "label_branch (Complete i _) = i"
| "label_branch (Lock i) = i"

definition send_step :: "fanout \<Rightarrow> send_label \<Rightarrow> fanout option" where
  "send_step s l = (if label_branch l < length (branches s) then send_move s l else None)"

text \<open>
  What \<open>send\<close> has returned, if it has: at once with no destinations; the \<open>try_join_all\<close>
  error; otherwise what the one-shot receiver yields once every envelope was accepted. The
  receiver fails when the shared state is gone and nothing was sent.
\<close>

definition send_result :: "fanout \<Rightarrow> (unit, 'x error) result option" where
  "send_result s =
     (if branches s = [] then Some (Ok ())
      else if aborted s then None
      else if send_error s then Some (Err (Bail ''sink task stopped''))
      else if Unsent \<in> set (branches s) then None
      else case sent s of
        v # _ \<Rightarrow> if v then Some (Ok ())
                 else Some (Err (Bail ''one or more sinks rejected the batch''))
      | [] \<Rightarrow> if list_all (\<lambda>b. \<not> unsettled b) (branches s)
              then Some (Err (Bail ''acknowledgement channel closed'')) else None)"

section \<open>The invariant of the protocol\<close>

definition fanout_inv :: "fanout \<Rightarrow> bool" where
  "fanout_inv s \<longleftrightarrow>
     branches s \<noteq> [] \<and> \<not> panicked s \<and>
     ack_remaining (ack_state s) = length (filter unsettled (branches s)) \<and>
     (ack_delivered (ack_state s) \<longleftrightarrow> Settled False \<notin> set (branches s)) \<and>
     (ack_notify (ack_state s) \<longleftrightarrow> ack_remaining (ack_state s) \<noteq> 0) \<and>
     sent s = (if ack_remaining (ack_state s) = 0 then [ack_delivered (ack_state s)] else []) \<and>
     (send_error s \<longrightarrow> Swapped False \<in> set (branches s) \<or> Settled False \<in> set (branches s))"

lemma send_start_inv: "0 < n \<Longrightarrow> fanout_inv (send_start n)"
  by (auto simp: fanout_inv_def send_start_def AckState_new_def)

text \<open>Moving an unsettled branch to another unsettled stage keeps the bookkeeping.\<close>

lemma set_branch_inv:
  assumes "fanout_inv s" "i < length (branches s)" "unsettled (branches s ! i)" "unsettled b"
    "branches s ! i \<noteq> Swapped False"
  shows "fanout_inv (set_branch i b s)"
proof -
  have "branches s ! i \<noteq> Settled False" "b \<noteq> Settled False" using assms(3,4) by auto
  with assms show ?thesis
    by (auto simp: fanout_inv_def set_branch_def length_filter_update_same mem_update_iff)
qed

lemma lock_branch_inv:
  assumes inv: "fanout_inv s" and i: "i < length (branches s)" and b: "branches s ! i = Swapped d"
  shows "fanout_inv (lock_branch i d s)"
proof -
  let ?bs = "(branches s)[i := Settled d]"
  define r where "r = ack_remaining (ack_state s)"
  have len: "length (filter unsettled ?bs) = r - 1" and r: "0 < r"
    using length_filter_update [OF i, of unsettled "Settled d"] b inv
    by (auto simp: fanout_inv_def r_def)
  have nf: "Settled False \<in> set ?bs \<longleftrightarrow> \<not> d \<or> Settled False \<in> set (branches s)"
    using mem_update_iff [OF i, of "Settled False" "Settled d"] b by auto
  have sw: "send_error s \<Longrightarrow> Swapped False \<in> set ?bs \<or> Settled False \<in> set ?bs"
    using mem_update_iff [OF i, of "Swapped False" "Settled d"] b nf inv
    by (cases d) (auto simp: fanout_inv_def)
  have st: "?bs \<noteq> []" "\<not> panicked s" "ack_notify (ack_state s)" "sent s = []"
    "ack_delivered (ack_state s) \<longleftrightarrow> Settled False \<notin> set (branches s)"
    using inv r by (auto simp: fanout_inv_def r_def)
  show ?thesis
    unfolding fanout_inv_def lock_branch_def complete_locked_def set_branch_def Let_def
    using len r st sw nf by (simp add: r_def [symmetric] split: if_splits) auto
qed

lemma send_step_inv:
  assumes inv: "fanout_inv s" and step: "send_step s l = Some t"
  shows "fanout_inv t"
proof -
  from step have i: "label_branch l < length (branches s)" and m: "send_move s l = Some t"
    by (auto simp: send_step_def split: if_splits)
  note sb = set_branch_inv [OF inv]
  show ?thesis
  proof (cases l)
    case (Reject j)
    then have "fanout_inv (set_branch j (Swapped False) s)"
      and t: "t = (set_branch j (Swapped False) s)\<lparr>send_error := True\<rparr>"
      using m i sb [of j "Swapped False"] by (auto simp: complete_swap_def split: if_splits)
    moreover have "Swapped False \<in> set (branches (set_branch j (Swapped False) s))"
      using i Reject by (simp add: set_branch_def set_update_memI)
    ultimately show ?thesis by (simp add: fanout_inv_def)
  next
    case (Lock j)
    with m i inv show ?thesis by (auto split: branch.splits intro: lock_branch_inv)
  next
    case Abort
    with m inv show ?thesis by (auto simp: fanout_inv_def)
  next
    case (Complete j d)
    then have "t = complete_swap j d s" "branches s ! j \<noteq> Unsent"
      using m by (simp_all split: if_splits)
    with sb [of j "Swapped d"] i inv Complete show ?thesis
      by (cases "branches s ! j") (simp_all add: complete_swap_def)
  next
    case (Enqueue j)
    then have "t = set_branch j Owned s" "branches s ! j = Unsent"
      using m by (simp_all split: if_splits)
    with sb [of j Owned] i Enqueue show ?thesis by simp
  next
    case (Abandon j)
    then have "t = set_branch j (Swapped False) s" "branches s ! j = Unsent"
      using m by (simp_all add: complete_swap_def split: if_splits)
    with sb [of j "Swapped False"] i Abandon show ?thesis by simp
  qed
qed

interpretation fanout: step_invariant send_step fanout_inv
  by unfold_locales (rule send_step_inv)

lemma run_branches_length: "run send_step s ls = Some t \<Longrightarrow> length (branches t) = length (branches s)"
proof (induction ls arbitrary: s)
  case (Cons l ls)
  then obtain u where u: "send_step s l = Some u" "run send_step u ls = Some t"
    by (auto split: option.splits)
  then have "length (branches u) = length (branches s)"
    by (cases l) (auto simp: send_step_def set_branch_def complete_swap_def lock_branch_def
        split: if_splits option.splits branch.splits)
  with Cons.IH [OF u(2)] show ?case by simp
qed simp

lemma unsettled_iff: "unsettled b \<longleftrightarrow> (\<forall>d. b \<noteq> Settled d)"
  by (cases b) auto

lemma all_settled_iff:
  "filter unsettled bs = [] \<longleftrightarrow> list_all (\<lambda>b. \<not> unsettled b) bs"
  by (simp add: filter_empty_conv list_all_iff)

lemma settled_replicate:
  "list_all (\<lambda>b. \<not> unsettled b) bs \<and> Settled False \<notin> set bs \<longleftrightarrow>
   bs = replicate (length bs) (Settled True)"
proof (induction bs)
  case (Cons b bs)
  then show ?case by (cases b) auto
qed simp

lemma reachable_inv:
  assumes "run send_step (send_start n) ls = Some s"
  shows "0 < n \<Longrightarrow> fanout_inv s" and "length (branches s) = n"
  using fanout.run_keeps [OF send_start_inv assms] run_branches_length [OF assms]
  by (simp_all add: send_start_def)

subsection \<open>Sequential completion\<close>

text \<open>
  Completing a list of envelopes one after the other, each followed by the \<open>Drop\<close> that
  ends the envelope's life: what \<open>for_each(SinkEnvelope::delivered)\<close> does.
\<close>

fun complete_each :: "bool list \<Rightarrow> ack_state \<Rightarrow> (ack_state \<times> bool list) option" where
  "complete_each [] s = Some (s, [])"
| "complete_each (d # ds) s =
     (case complete d (False, s) of
        None \<Rightarrow> None
      | Some (b, v) \<Rightarrow>
          (case BranchAck_drop b of
             None \<Rightarrow> None
           | Some ((_, s'), w) \<Rightarrow>
               map_option (\<lambda>(u, vs). (u, (case v of None \<Rightarrow> [] | Some x \<Rightarrow> [x]) @
                  (case w of None \<Rightarrow> [] | Some x \<Rightarrow> [x]) @ vs)) (complete_each ds s')))"

lemma complete_then_drop:
  assumes "0 < ack_remaining s"
  obtains t v where "complete_locked d s = Some (t, v)" "complete d (False, s) = Some ((True, t), v)"
    "BranchAck_drop (True, t) = Some ((True, t), None)" "ack_settle d s = (t, v \<noteq> None)"
    "v = None \<or> v = Some (ack_delivered t)"
proof -
  have "\<exists>t v. complete_locked d s = Some (t, v) \<and> (v = None \<or> v = Some (ack_delivered t))"
    using assms by (cases "ack_remaining s - 1 = 0 \<and> ack_notify s")
      (simp_all add: complete_locked_def Let_def)
  then show thesis
    using that by (auto simp: complete_def BranchAck_drop_def ack_settle_def)
qed

lemma complete_each_settle_all:
  assumes "length ds \<le> ack_remaining s"
  shows "\<exists>u vs. complete_each ds s = Some (u, vs) \<and> ack.settle_all ds s = (u, length vs)"
  using assms
proof (induction ds arbitrary: s)
  case (Cons d ds)
  then have "0 < ack_remaining s" by simp
  from complete_then_drop [OF this, of d] obtain t v where
    t: "complete d (False, s) = Some ((True, t), v)"
      "BranchAck_drop (True, t) = Some ((True, t), None)" "ack_settle d s = (t, v \<noteq> None)"
    by metis
  have "length ds \<le> ack_remaining t"
    using ack.settle_remaining [OF _ _ t(3)] Cons.prems by auto
  from Cons.IH [OF this] t show ?case by (auto split: option.splits)
qed simp

lemma complete_locked_SomeD:
  assumes "complete_locked d s = Some (t, v)"
  shows "ack_remaining s = Suc (ack_remaining t)"
    and "v = None \<or> ack_remaining t = 0 \<and> v = Some (ack_delivered t)"
  using assms by (auto simp: complete_locked_def Let_def split: if_splits)

lemma complete_each_values:
  assumes "complete_each ds s = Some (u, vs)"
  shows "\<forall>v \<in> set vs. ack_remaining u = 0 \<longrightarrow> length ds = ack_remaining s \<longrightarrow> v = ack_delivered u"
  using assms
proof (induction ds arbitrary: s vs)
  case (Cons d ds)
  show ?case
  proof (cases "0 < ack_remaining s")
    case True
    from complete_then_drop [OF this, of d] obtain t v where
      t: "complete_locked d s = Some (t, v)" "complete d (False, s) = Some ((True, t), v)"
        "BranchAck_drop (True, t) = Some ((True, t), None)"
      by metis
    then obtain ws where ws: "complete_each ds t = Some (u, ws)"
      "vs = (case v of None \<Rightarrow> [] | Some x \<Rightarrow> [x]) @ ws" using Cons.prems by auto
    note d = complete_locked_SomeD [OF t(1)]
    have "ack_remaining t = 0 \<Longrightarrow> length ds = ack_remaining t \<Longrightarrow> u = t" using ws(1) by simp
    with Cons.IH [OF ws(1)] ws(2) d show ?thesis by (cases v) simp_all
  next
    case False
    with Cons.prems show ?thesis by (simp add: complete_def complete_locked_def)
  qed
qed simp

lemma foldl_conj: "foldl (\<and>) b ds \<longleftrightarrow> b \<and> (\<forall>d\<in>set ds. d)"
  by (induction ds arbitrary: b) auto

section \<open>Progress\<close>

fun branch_rank :: "branch \<Rightarrow> nat" where
  "branch_rank Unsent = 3"
| "branch_rank Owned = 2"
| "branch_rank (Swapped _) = 1"
| "branch_rank (Settled _) = 0"

definition rank :: "fanout \<Rightarrow> nat" where
  "rank s = sum_list (map branch_rank (branches s))"

lemma rank_update:
  "i < length bs \<Longrightarrow> branch_rank b < branch_rank (bs ! i) \<Longrightarrow>
   sum_list (map branch_rank (bs[i := b])) < sum_list (map branch_rank bs)"
proof (induction bs arbitrary: i)
  case (Cons x xs)
  then show ?case by (cases i) auto
qed simp

lemma rank_set_branch:
  "i < length (branches s) \<Longrightarrow> branch_rank b < branch_rank (branches s ! i) \<Longrightarrow>
   rank (set_branch i b s) < rank s"
  by (simp add: rank_def set_branch_def rank_update)

lemma lock_branch_branches:
  assumes "fanout_inv s" "i < length (branches s)" "branches s ! i = Swapped d"
  shows "branches (lock_branch i d s) = (branches s)[i := Settled d]"
proof -
  have "Swapped d \<in> set (filter unsettled (branches s))"
    using assms(2,3) nth_mem by fastforce
  then have "ack_remaining (ack_state s) \<noteq> 0"
    using assms(1) unfolding fanout_inv_def by (metis length_0_conv list.set(1) empty_iff)
  then show ?thesis
    by (auto simp: lock_branch_def complete_locked_def set_branch_def Let_def)
qed

text \<open>Some move brings the protocol strictly closer to its end while a branch is unsettled.\<close>

lemma send_progress:
  assumes "fanout_inv s" "\<not> list_all (\<lambda>b. \<not> unsettled b) (branches s)"
  shows "\<exists>l t. send_step s l = Some t \<and> rank t < rank s"
proof -
  from assms(2) obtain i where i: "i < length (branches s)" "unsettled (branches s ! i)"
    by (auto simp: list_all_length)
  show ?thesis
  proof (cases "branches s ! i")
    case Unsent
    show ?thesis
    proof (cases "send_error s \<or> aborted s")
      case True
      then have "send_step s (Abandon i) = Some (set_branch i (Swapped False) s)"
        using i Unsent by (simp add: send_step_def complete_swap_def)
      with rank_set_branch [OF i(1), of "Swapped False"] Unsent show ?thesis by fastforce
    next
      case False
      then have "send_step s (Enqueue i) = Some (set_branch i Owned s)"
        using i Unsent by (simp add: send_step_def)
      with rank_set_branch [OF i(1), of Owned] Unsent show ?thesis by fastforce
    qed
  next
    case Owned
    then have "send_step s (Complete i True) = Some (set_branch i (Swapped True) s)"
      using i by (simp add: send_step_def complete_swap_def)
    with rank_set_branch [OF i(1), of "Swapped True"] Owned show ?thesis by fastforce
  next
    case (Swapped d)
    have "rank (lock_branch i d s) < rank s"
      using rank_update [OF i(1), of "Settled d"] Swapped lock_branch_branches [OF assms(1) i(1)]
      by (simp add: rank_def)
    moreover have "send_step s (Lock i) = Some (lock_branch i d s)"
      using i Swapped by (simp add: send_step_def)
    ultimately show ?thesis by blast
  qed (use i in simp)
qed

lemma send_can_finish:
  assumes "fanout_inv s"
  shows "\<exists>ls t. length ls \<le> rank s \<and> run send_step s ls = Some t \<and>
    list_all (\<lambda>b. \<not> unsettled b) (branches t)"
  using assms
proof (induction "rank s" arbitrary: s rule: less_induct)
  case less
  show ?case
  proof (cases "list_all (\<lambda>b. \<not> unsettled b) (branches s)")
    case True
    then show ?thesis by (intro exI [of _ "[]"] exI [of _ s]) simp
  next
    case False
    from send_progress [OF less.prems this] obtain l u where
      u: "send_step s l = Some u" "rank u < rank s" by blast
    from less.hyps [OF u(2) send_step_inv [OF less.prems u(1)]] obtain ls t where
      "length ls \<le> rank u" "run send_step u ls = Some t"
      "list_all (\<lambda>b. \<not> unsettled b) (branches t)" by blast
    with u show ?thesis by (intro exI [of _ "l # ls"] exI [of _ t]) simp
  qed
qed

lemma rank_start: "rank (send_start n) = 3 * n"
  by (induction n) (auto simp: rank_def send_start_def)

lemma send_result_inv:
  assumes "fanout_inv s"
  shows "send_result s = (Some (Ok ()) :: (unit, 'x error) result option) \<longleftrightarrow>
    \<not> aborted s \<and> branches s = replicate (length (branches s)) (Settled True)" (is "?L \<longleftrightarrow> ?R")
proof
  assume ?L
  then show ?R using assms settled_replicate [of "branches s"]
    by (auto simp: send_result_def fanout_inv_def all_settled_iff split: if_splits list.splits)
next
  assume ?R
  then have "list_all (\<lambda>b. \<not> unsettled b) (branches s)" "Settled False \<notin> set (branches s)"
    "Unsent \<notin> set (branches s)" "Swapped False \<notin> set (branches s)"
    using settled_replicate [of "branches s"] by (auto simp: list_all_iff)
  with assms \<open>?R\<close> show ?L by (simp add: send_result_def fanout_inv_def all_settled_iff)
qed

lemmas send_exec = send_start_def AckState_new_def send_step_def complete_swap_def set_branch_def
  lock_branch_def complete_locked_def

section \<open>Properties\<close>

text \<open>
  C5: \<open>Fanout::send\<close> returns \<open>Ok\<close> exactly when every destination acknowledged the batch with
  \<open>delivered\<close> as the first completion of its envelope (vacuously with no destination), for
  every interleaving of queueing, rejection, abandonment, completions, repeated
  completions and critical sections.
\<close>

theorem send_ok_iff_every_branch_delivered:
  assumes "run send_step (send_start n) ls = Some s"
  shows "send_result s = (Some (Ok ()) :: (unit, 'x error) result option) \<longleftrightarrow>
    n = 0 \<or> \<not> aborted s \<and> branches s = replicate n (Settled True)"
proof (cases "n = 0")
  case True
  with reachable_inv(2) [OF assms] show ?thesis by (simp add: send_result_def)
next
  case False
  with send_result_inv [of s] reachable_inv [OF assms] show ?thesis by simp
qed

theorem send_ok_iff_every_branch_delivered_witness:
  "send_result (the (run send_step (send_start 2)
     [Enqueue 0, Complete 0 True, Enqueue 1, Lock 0, Complete 1 True, Complete 1 False, Lock 1])) =
     (Some (Ok ()) :: (unit, unit error) result option)"
proof -
  have "run send_step (send_start 2)
     [Enqueue 0, Complete 0 True, Enqueue 1, Lock 0, Complete 1 True, Complete 1 False, Lock 1] =
     Some \<lparr>branches = replicate 2 (Settled True),
       ack_state = \<lparr>ack_remaining = 0, ack_delivered = True, ack_notify = False\<rparr>,
       sent = [True], send_error = False, aborted = False, panicked = False\<rparr>"
    by (simp add: send_exec numeral_2_eq_2)
  from send_ok_iff_every_branch_delivered [OF this] this show ?thesis by simp
qed

text \<open>
  C15: the shared acknowledgement state never underflows and notifies the source at most
  once: nothing is sent while a branch is unsettled, and once all are settled exactly one
  value has been sent, the conjunction of the branches' verdicts.
\<close>

theorem ack_notifies_exactly_once:
  assumes "run send_step (send_start n) ls = Some s" and "0 < n"
  shows "\<not> panicked s \<and>
    sent s = (if \<exists>b \<in> set (branches s). unsettled b then []
              else [\<forall>b \<in> set (branches s). b = Settled True])"
proof -
  have inv: "fanout_inv s" using reachable_inv(1) [OF assms] .
  have all: "(\<exists>b \<in> set (branches s). unsettled b) \<longleftrightarrow> ack_remaining (ack_state s) \<noteq> 0"
    using inv by (auto simp: fanout_inv_def filter_empty_conv)
  have "\<not> (\<exists>b \<in> set (branches s). unsettled b) \<Longrightarrow>
      Settled False \<notin> set (branches s) \<longleftrightarrow> (\<forall>b \<in> set (branches s). b = Settled True)"
    by (metis (full_types) branch.distinct(11) branch.inject(2) unsettled_iff)
  with inv all show ?thesis by (auto simp: fanout_inv_def)
qed

theorem ack_notifies_exactly_once_witness:
  "sent (the (run send_step (send_start 2)
     [Enqueue 0, Enqueue 1, Complete 1 False, Complete 0 True, Lock 0, Lock 1])) = [False]"
proof -
  have "run send_step (send_start 2)
     [Enqueue 0, Enqueue 1, Complete 1 False, Complete 0 True, Lock 0, Lock 1] =
     Some \<lparr>branches = [Settled True, Settled False],
       ack_state = \<lparr>ack_remaining = 0, ack_delivered = False, ack_notify = False\<rparr>,
       sent = [False], send_error = False, aborted = False, panicked = False\<rparr>"
    by (simp add: send_exec numeral_2_eq_2)
  from ack_notifies_exactly_once [OF this] this show ?thesis by simp
qed

text \<open>
  C16: a \<open>send\<close> cannot get stuck: from every state it can reach, at most three moves per
  destination settle all branches, and a settled, unaborted \<open>send\<close> has returned, never with
  the "acknowledgement channel closed" error.
\<close>

theorem send_always_resolves:
  assumes "run send_step (send_start n) ls = Some s" and "0 < n"
  shows "\<exists>ls' t. run send_step s ls' = Some t \<and> length ls' \<le> rank s \<and>
      (\<forall>b \<in> set (branches t). \<not> unsettled b) \<and>
      (aborted t \<or> send_result t \<in> {Some (Ok ()), Some (Err (Bail ''sink task stopped'')),
         Some (Err (Bail ''one or more sinks rejected the batch''))})"
proof -
  have inv: "fanout_inv s" using reachable_inv(1) [OF assms] .
  from send_can_finish [OF inv] obtain ls' t where t: "length ls' \<le> rank s"
    "run send_step s ls' = Some t" "list_all (\<lambda>b. \<not> unsettled b) (branches t)" by blast
  from fanout.run_keeps [OF inv t(2)] have "fanout_inv t" .
  then have "sent t = [ack_delivered (ack_state t)]" "branches t \<noteq> []" "Unsent \<notin> set (branches t)"
    using t(3) by (auto simp: fanout_inv_def all_settled_iff [symmetric] filter_empty_conv list_all_iff)
  with t show ?thesis
    by (intro exI [of _ ls'] exI [of _ t]) (auto simp: send_result_def list_all_iff)
qed

theorem send_always_resolves_witness:
  "\<exists>ls' t. run send_step (send_start 3) ls' = Some t \<and> length ls' \<le> rank (send_start 3) \<and>
      (\<forall>b \<in> set (branches t). \<not> unsettled b) \<and>
      (aborted t \<or> send_result t \<in> {Some (Ok ()), Some (Err (Bail ''sink task stopped'')),
         Some (Err (Bail ''one or more sinks rejected the batch'')) :: (unit, unit error) result option})"
  using send_always_resolves [of 3 "[]" "send_start 3"] by simp

text \<open>
  Completing all envelopes of a batch one after the other, in any order and with the
  \<open>Drop\<close> that follows each completion, never panics and sends exactly one notification:
  true if every verdict was true.
\<close>

theorem completions_send_one_conjunction:
  assumes "ds \<noteq> []"
  shows "\<exists>u. complete_each ds (AckState_new (length ds)) = Some (u, [\<forall>d \<in> set ds. d]) \<and>
    ack_remaining u = 0 \<and> \<not> ack_notify u"
proof -
  let ?s = "AckState_new (length ds)"
  from complete_each_settle_all [of ds ?s] obtain u vs where
    u: "complete_each ds ?s = Some (u, vs)" "ack.settle_all ds ?s = (u, length vs)"
    by (auto simp: AckState_new_def)
  have "length vs = 1 \<and> \<not> ack_notify u \<and> ack_remaining u = 0 \<and>
      ack_delivered u = foldl (\<and>) (ack_delivered ?s) ds"
    using ack.settle_all_fires_once [OF _ _ _ _ u(2)] assms
    by (auto simp: AckState_new_def sum_list_triv)
  with complete_each_values [OF u(1)] u(1) show ?thesis
    by (cases vs) (simp_all add: AckState_new_def foldl_conj)
qed

theorem completions_send_one_conjunction_witness:
  "\<exists>u. complete_each [True, False, True] (AckState_new 3) = Some (u, [False]) \<and>
    ack_remaining u = 0 \<and> \<not> ack_notify u"
  using completions_send_one_conjunction [of "[True, False, True]"]
  by (simp add: numeral_3_eq_3 del: complete_each.simps)

end
