(* ===== verification/Pipeline.thy ===== *)
theory Pipeline
  imports Topology Fanout
begin

text \<open>
  The components of one source's pipeline composed as \<open>run\<close> of \<open>src/topology.rs\<close> composes them:
  the Kafka source, the \<open>Fanout::send\<close> of each batch, and the sink tasks, synchronising
  through the channels, the completions of envelopes and the returns of the sends. The
  invariant ties a committed batch to its deliveries, and the pipeline is shown to implement
  an abstract at-least-once queue.
\<close>

section \<open>How one component's steps change what the others see\<close>

lemma source_step_frame:
  assumes "source_step E s ev = Some t"
  shows "prefix (batches s) (batches t) \<and> prefix (commit_log s) (commit_log t) \<and>
    acked t = acked s @ (case ev of SendDone i r \<Rightarrow> if is_ok r then [sending s ! i] else [] | _ \<Rightarrow> [])"
proof -
  have d: "batches u = b \<Longrightarrow> prefix b (batches (dispatch E u))"
    "commit_log (dispatch E u) = commit_log u" "acked (dispatch E u) = acked u" for u b
    by (cases rule: dispatch_cases [of E u]; simp)+
  have c: "batches (on_completion E now c u) = batches u" "acked (on_completion E now c u) = acked u"
    "commit_log u = b \<Longrightarrow> prefix b (commit_log (on_completion E now c u))" for now c u b
    by (auto simp: on_completion_def Let_def split: prod.splits result.splits)
  show ?thesis
  proof (cases ev)
    case (SrcPoll k now)
    with assms show ?thesis
      by (auto simp: source_step_def on_joined_def on_recv_def on_message_def Let_def c d
        split: if_splits result.splits list.splits prod.splits intro!: c(3) d(1))
  qed (use assms in \<open>auto simp: source_step_def split: if_splits\<close>)
qed

fun yes :: "branch \<Rightarrow> bool" where
  "yes (Swapped d) = d"
| "yes (Settled d) = d"
| "yes _ = False"

lemma send_step_branch:
  assumes "send_step s l = Some t" "k < length (branches s)"
  shows "(branches s ! k = Settled True \<longrightarrow> branches t ! k = Settled True) \<and>
    (branches s ! k \<noteq> Unsent \<longrightarrow> branches t ! k \<noteq> Unsent) \<and>
    (yes (branches t ! k) \<longrightarrow> yes (branches s ! k) \<or> l = Complete k True) \<and>
    length (branches t) = length (branches s)"
  using assms
  by (cases l) (auto simp: send_step_def complete_swap_def set_branch_def lock_branch_def nth_list_update
    split: if_splits branch.splits option.splits)

section \<open>The pipeline\<close>

text \<open>
  One source, its fan-outs and the sinks it feeds. \<open>p_sends\<close> holds the \<open>Fanout::send\<close> of every
  batch dispatched so far, by sequence number; \<open>p_sinks\<close> the tasks of the destinations, in
  the order of the senders. A sink may also receive envelopes of other sources: they carry
  the number 0, and the envelope of the \<open>b\<close>-th batch here carries \<open>b + 1\<close>.
\<close>

record ('y, 'e) sink_env =
  sk_write :: "'y \<Rightarrow> event_batch list \<Rightarrow> (write_outcome, 'e) result option"
  sk_batching :: batch_settings
  sk_settings :: delivery_settings
  sk_capacity :: usize

definition sink_step :: "('y, 'e) sink_env \<Rightarrow> 'e sink_task \<Rightarrow> 'y run_event \<Rightarrow> 'e sink_task option" where
  "sink_step K = run_step (sk_write K) (sk_batching K) (sk_settings K) (sk_capacity K)"

record ('l, 'x, 'm, 'c, 'e) pipeline =
  p_source :: "('l, 'x, 'm, 'c) source_task"
  p_sends :: "fanout list"
  p_sinks :: "'e sink_task list"

definition envelope_for :: "('l, 'x, 'm, 'c) source_env \<Rightarrow> event list list \<Rightarrow> nat \<Rightarrow> envelope" where
  "envelope_for E bs b = \<lparr>env_id = Suc b, env_batch = EventBatch_new (se_size_of E) (bs ! b)\<rparr>"

text \<open>
  Completing envelopes, as a sink task does through \<open>delivered\<close>, \<open>failed\<close> or \<open>drop\<close>: the swap of
  the branch's flag in the send the envelope belongs to. The critical section is a later
  step of that send.
\<close>

fun complete_envelopes :: "nat \<Rightarrow> (envelope \<times> bool) list \<Rightarrow> fanout list \<Rightarrow> fanout list" where
  "complete_envelopes k [] fs = fs"
| "complete_envelopes k ((e, d) # as) fs =
     complete_envelopes k as
       (case env_id e of 0 \<Rightarrow> fs | Suc b \<Rightarrow> fs[b := complete_swap k d (fs ! b)])"

datatype ('x, 'y) pipeline_event =
    AtSource "'x source_event"
  | AtSend nat send_label
  | Accept nat nat
  | AtSink nat "'y run_event"
  | OtherSource nat event_batch
  | SendReturns nat

text \<open>
  \<open>AtSource\<close>: a step of the source, which may dispatch a batch and so start its send.
  \<open>AtSend\<close>: a step of a send that involves nobody else, or a rejection because the sink has
  returned; a send is aborted only when the source has returned. \<open>Accept b k\<close>: the channel
  of sink \<open>k\<close> takes the envelope of batch \<open>b\<close>. \<open>AtSink\<close>: a step of a sink, whose completions
  reach the sends. \<open>SendReturns j\<close>: the \<open>j\<close>-th outstanding send of the source has returned.
\<close>

fun send_alone :: "('l, 'x, 'm, 'c, 'e) pipeline \<Rightarrow> send_label \<Rightarrow> bool" where
  "send_alone s (Reject k) \<longleftrightarrow> k < length (p_sinks s) \<and> returned (p_sinks s ! k)"
| "send_alone s (Abandon k) \<longleftrightarrow> True"
| "send_alone s Abort \<longleftrightarrow> src_result (p_source s) \<noteq> None"
| "send_alone s (Lock k) \<longleftrightarrow> True"
| "send_alone s _ \<longleftrightarrow> False"

fun from_send :: "'x source_event \<Rightarrow> bool" where
  "from_send (SendDone i r) \<longleftrightarrow> True"
| "from_send _ \<longleftrightarrow> False"

fun from_channel :: "'y run_event \<Rightarrow> bool" where
  "from_channel (Push e) \<longleftrightarrow> True"
| "from_channel _ \<longleftrightarrow> False"

definition push_to ::
  "('y, 'e) sink_env list \<Rightarrow> nat \<Rightarrow> envelope \<Rightarrow> ('l, 'x, 'm, 'c, 'e) pipeline \<Rightarrow> ('l, 'x, 'm, 'c, 'e) pipeline option" where
  "push_to Ks k e s =
     (if k < length (p_sinks s)
      then map_option (\<lambda>t. s\<lparr>p_sinks := (p_sinks s)[k := t]\<rparr>) (sink_step (Ks ! k) (p_sinks s ! k) (Push e))
      else None)"

definition pipeline_step ::
  "('l, 'x, 'm, 'c) source_env \<Rightarrow> ('y, 'e) sink_env list \<Rightarrow> ('l, 'x, 'm, 'c, 'e) pipeline \<Rightarrow>
   ('x, 'y) pipeline_event \<Rightarrow> ('l, 'x, 'm, 'c, 'e) pipeline option" where
  "pipeline_step E Ks s ev = (case ev of
     AtSource e \<Rightarrow>
       if from_send e then None
       else map_option (\<lambda>t. s\<lparr>p_source := t, p_sends := p_sends s @
           replicate (length (batches t) - length (batches (p_source s))) (send_start (length (p_sinks s)))\<rparr>)
         (source_step E (p_source s) e)
   | AtSend b l \<Rightarrow>
       if b < length (p_sends s) \<and> send_alone s l
       then map_option (\<lambda>f. s\<lparr>p_sends := (p_sends s)[b := f]\<rparr>) (send_step (p_sends s ! b) l)
       else None
   | Accept b k \<Rightarrow>
       if b < length (p_sends s) then
         (case send_step (p_sends s ! b) (Enqueue k) of
            None \<Rightarrow> None
          | Some f \<Rightarrow> map_option (\<lambda>t. t\<lparr>p_sends := (p_sends t)[b := f]\<rparr>)
              (push_to Ks k (envelope_for E (batches (p_source s)) b) s))
       else None
   | AtSink k e \<Rightarrow>
       if k < length (p_sinks s) \<and> \<not> from_channel e
       then map_option (\<lambda>t. s\<lparr>p_sinks := (p_sinks s)[k := t],
           p_sends := complete_envelopes k (drop (length (acks (p_sinks s ! k))) (acks t)) (p_sends s)\<rparr>)
         (sink_step (Ks ! k) (p_sinks s ! k) e)
       else None
   | OtherSource k eb \<Rightarrow> push_to Ks k \<lparr>env_id = 0, env_batch = eb\<rparr> s
   | SendReturns j \<Rightarrow>
       if j < length (sending (p_source s)) then
         let b = unat (bc_sequence (sending (p_source s) ! j)) in
         if b < length (p_sends s) then
           (case send_result (p_sends s ! b) of
              None \<Rightarrow> None
            | Some r \<Rightarrow> map_option (\<lambda>t. s\<lparr>p_source := t\<rparr>) (source_step E (p_source s) (SendDone j r)))
         else None
       else None)"

definition pipeline_start ::
  "('l, 'x, 'm, 'c) source_env \<Rightarrow> nat \<Rightarrow> duration \<Rightarrow> 'c \<Rightarrow> source_metrics \<Rightarrow> ('l, 'x, 'm, 'c, 'e) pipeline" where
  "pipeline_start E n now con m = \<lparr>p_source = source_start E now con m, p_sends = [],
     p_sinks = replicate n run_start\<rparr>"

section \<open>What the steps keep\<close>

lemma reaches_branch:
  assumes "reaches send_step s t" "k < length (branches s)"
  shows "(branches s ! k = Settled True \<longrightarrow> branches t ! k = Settled True) \<and>
    (branches s ! k \<noteq> Unsent \<longrightarrow> branches t ! k \<noteq> Unsent) \<and> length (branches t) = length (branches s)"
proof -
  from assms(1) obtain ls where "run send_step s ls = Some t" by (auto simp: reaches_def)
  then show ?thesis using assms(2)
  proof (induction ls arbitrary: s)
    case (Cons l ls)
    then obtain u where u: "send_step s l = Some u" "run send_step u ls = Some t" by (auto split: option.splits)
    from send_step_branch [OF u(1) Cons.prems(2)] Cons.IH [OF u(2)] Cons.prems(2) show ?case by auto
  qed simp
qed

lemma complete_swap_reaches:
  assumes "k < length (branches f)" "branches f ! k \<noteq> Unsent"
  shows "reaches send_step f (complete_swap k d f)"
    and "yes (branches (complete_swap k d f) ! j) \<Longrightarrow> yes (branches f ! j) \<or> j = k \<and> d"
  using assms reaches_step [of send_step f f "Complete k d"]
  by (auto simp: send_step_def complete_swap_def set_branch_def nth_update_if split: if_splits)

definition completes :: "nat \<Rightarrow> fanout list \<Rightarrow> envelope \<Rightarrow> bool" where
  "completes k fs e \<longleftrightarrow> env_id e = 0 \<or>
     (\<exists>b < length fs. env_id e = Suc b \<and> k < length (branches (fs ! b)) \<and> branches (fs ! b) ! k \<noteq> Unsent)"

lemma complete_envelopes_sends:
  assumes "\<forall>(e, d) \<in> set as. completes k fs e"
  shows "length (complete_envelopes k as fs) = length fs \<and>
    (\<forall>b < length fs. reaches send_step (fs ! b) (complete_envelopes k as fs ! b) \<and>
       (\<forall>j. yes (branches (complete_envelopes k as fs ! b) ! j) \<longrightarrow>
          yes (branches (fs ! b) ! j) \<or> j = k \<and> (\<exists>e. (e, True) \<in> set as \<and> env_id e = Suc b)))"
  using assms
proof (induction k as fs rule: complete_envelopes.induct)
  case (2 k e d as fs)
  let ?fs = "case env_id e of 0 \<Rightarrow> fs | Suc b \<Rightarrow> fs[b := complete_swap k d (fs ! b)]"
  have one: "length ?fs = length fs \<and> (\<forall>b < length fs. reaches send_step (fs ! b) (?fs ! b) \<and>
      (\<forall>j. yes (branches (?fs ! b) ! j) \<longrightarrow> yes (branches (fs ! b) ! j) \<or> j = k \<and> d \<and> env_id e = Suc b))"
  proof (cases "env_id e")
    case (Suc b)
    with "2.prems" have b: "b < length fs" "k < length (branches (fs ! b))" "branches (fs ! b) ! k \<noteq> Unsent"
      by (auto simp: completes_def)
    from complete_swap_reaches [OF b(2,3)] Suc show ?thesis by (auto simp: nth_update_if)
  qed simp
  have "completes k ?fs e'" if e': "completes k fs e'" for e'
  proof (cases "env_id e'")
    case (Suc b)
    with e' have b: "b < length fs" "k < length (branches (fs ! b))" "branches (fs ! b) ! k \<noteq> Unsent"
      by (auto simp: completes_def)
    from one b(1) have "reaches send_step (fs ! b) (?fs ! b)" "b < length ?fs" by auto
    with reaches_branch [OF this(1) b(2)] b Suc show ?thesis by (auto simp: completes_def)
  qed (simp add: completes_def)
  with "2.prems" have "\<forall>(e, d) \<in> set as. completes k ?fs e" by auto
  note IH = "2.IH" [OF this]
  have "reaches send_step (fs ! b) (complete_envelopes k as ?fs ! b) \<and>
      (yes (branches (complete_envelopes k as ?fs ! b) ! j) \<longrightarrow>
         yes (branches (fs ! b) ! j) \<or> j = k \<and> (\<exists>e'. (e', True) \<in> set ((e, d) # as) \<and> env_id e' = Suc b))"
    if "b < length fs" for b j
  proof -
    from one that have o: "b < length ?fs" "reaches send_step (fs ! b) (?fs ! b)"
      "yes (branches (?fs ! b) ! j) \<Longrightarrow> yes (branches (fs ! b) ! j) \<or> j = k \<and> d \<and> env_id e = Suc b" by auto
    with IH have "reaches send_step (?fs ! b) (complete_envelopes k as ?fs ! b)"
      "yes (branches (complete_envelopes k as ?fs ! b) ! j) \<Longrightarrow>
        yes (branches (?fs ! b) ! j) \<or> j = k \<and> (\<exists>e. (e, True) \<in> set as \<and> env_id e = Suc b)" by blast+
    with o(2,3) show ?thesis by (auto intro: reaches_trans)
  qed
  with IH one show ?case by simp
qed simp

lemma sink_step_push:
  "sink_step K s (Push e) = Some t \<Longrightarrow> received t = received s @ [e] \<and> acks t = acks s"
  by (auto simp: sink_step_def run_step_def split: if_splits)

lemma poll_received: "poll batching settings k s = Some t \<Longrightarrow> received t = received s"
  by (auto simp: poll_def reap_def return_with_def complete_all_def spawn_def drain_one_def Let_def
    split: run_phase.splits if_splits list.splits result.splits)

lemma sink_step_frame:
  assumes "sink_step K s ev = Some t" "\<not> from_channel ev"
  shows "received t = received s \<and> prefix (acks s) (acks t)"
proof (cases ev)
  case (Poll k)
  with assms have "poll (sk_batching K) (sk_settings K) k s = Some t" by (simp add: sink_step_def run_step_def)
  from poll_received [OF this] poll_acks [OF this] show ?thesis by auto
next
  case (Attempt i x)
  with assms obtain r where "t = attempt_end (sk_settings K) i r s"
    by (auto simp: sink_step_def run_step_def split: if_splits)
  then show ?thesis
    by (auto simp: attempt_end_acks) (auto simp: attempt_end_def attempt_done_def complete_all_def Let_def
      split: prod.splits option.splits result.splits)
qed (use assms in \<open>auto simp: sink_step_def run_step_def wake_def complete_all_def Let_def split: if_splits\<close>)

lemma sink_acks_received:
  assumes "reaches (sink_step K) run_start s" "(e, d) \<in> set (acks s)"
  shows "e \<in> set (received s)"
proof -
  from assms(1) have "conserved s"
    unfolding reaches_def sink_step_def by (auto simp: run_inv_def dest: run_reachable)
  then have "set (map fst (acks s)) \<subseteq> set (received s)"
    unfolding conserved_def by (metis mset_subset_eq_add_left set_mset_mono set_mset_mset subset_trans union_assoc)
  with assms(2) show ?thesis by force
qed

section \<open>The invariant of the pipeline\<close>

text \<open>Every component is in a state it can reach on its own.\<close>

definition wired ::
  "('l, 'x, 'm, 'c) source_env \<Rightarrow> ('y, 'e) sink_env list \<Rightarrow> ('l, 'x, 'm, 'c) source_task \<Rightarrow>
   ('l, 'x, 'm, 'c, 'e) pipeline \<Rightarrow> bool" where
  "wired E Ks s0 s \<longleftrightarrow> reaches (source_step E) s0 (p_source s) \<and>
     length (p_sends s) = length (batches (p_source s)) \<and> length (p_sinks s) = length Ks \<and>
     (\<forall>b < length (p_sends s). reaches send_step (send_start (length Ks)) (p_sends s ! b)) \<and>
     (\<forall>k < length Ks. reaches (sink_step (Ks ! k)) run_start (p_sinks s ! k))"

text \<open>
  A sink only holds envelopes of batches that were sent to it; a branch carries a positive
  verdict only if its sink acknowledged the envelope as delivered; and the source only
  counts a batch as acknowledged if all branches of its send are settled positively.
\<close>

definition owned :: "('l, 'x, 'm, 'c) source_env \<Rightarrow> ('l, 'x, 'm, 'c, 'e) pipeline \<Rightarrow> bool" where
  "owned E s \<longleftrightarrow> (\<forall>k < length (p_sinks s). \<forall>e \<in> set (received (p_sinks s ! k)). env_id e = 0 \<or>
     (\<exists>b < length (p_sends s). e = envelope_for E (batches (p_source s)) b \<and>
        branches (p_sends s ! b) ! k \<noteq> Unsent))"

definition vouched :: "('l, 'x, 'm, 'c) source_env \<Rightarrow> ('l, 'x, 'm, 'c, 'e) pipeline \<Rightarrow> bool" where
  "vouched E s \<longleftrightarrow> (\<forall>b < length (p_sends s). \<forall>k < length (p_sinks s).
     yes (branches (p_sends s ! b) ! k) \<longrightarrow>
     (envelope_for E (batches (p_source s)) b, True) \<in> set (acks (p_sinks s ! k)))"

definition acked_settled :: "('l, 'x, 'm, 'c) source_env \<Rightarrow> ('l, 'x, 'm, 'c, 'e) pipeline \<Rightarrow> bool" where
  "acked_settled E s \<longleftrightarrow> (length (batches (p_source s)) < 2 ^ 64 \<longrightarrow>
     (\<forall>c \<in> set (acked (p_source s)). \<exists>b < length (p_sends s). c = completion_of E b (batches (p_source s) ! b) \<and>
        (\<forall>k < length (p_sinks s). branches (p_sends s ! b) ! k = Settled True)))"

lemma envelope_for_prefix:
  "prefix bs cs \<Longrightarrow> b < length bs \<Longrightarrow> envelope_for E cs b = envelope_for E bs b"
  by (auto simp: envelope_for_def prefix_def nth_append)

lemma envelope_for_simps [simp]: "env_id (envelope_for E bs b) = Suc b"
  by (simp add: envelope_for_def)

lemma push_to_cases:
  assumes "push_to Ks k e s = Some t"
  obtains u where "k < length (p_sinks s)" "sink_step (Ks ! k) (p_sinks s ! k) (Push e) = Some u"
    "t = s\<lparr>p_sinks := (p_sinks s)[k := u]\<rparr>"
  using assms by (auto simp: push_to_def split: if_splits)

text \<open>The step, one case per event, with the guards that matter.\<close>

lemma pipeline_step_cases:
  assumes "pipeline_step E Ks s ev = Some t"
  obtains (source) e u n where "ev = AtSource e" "\<not> from_send e" "source_step E (p_source s) e = Some u"
      "t = s\<lparr>p_source := u, p_sends := p_sends s @ replicate n (send_start (length (p_sinks s)))\<rparr>"
      "n = length (batches u) - length (batches (p_source s))"
  | (send) b l f where "ev = AtSend b l" "b < length (p_sends s)" "\<And>k d. l \<noteq> Complete k d"
      "send_step (p_sends s ! b) l = Some f" "t = s\<lparr>p_sends := (p_sends s)[b := f]\<rparr>"
  | (accept) b k f u where "ev = Accept b k" "b < length (p_sends s)" "k < length (p_sinks s)"
      "send_step (p_sends s ! b) (Enqueue k) = Some f"
      "sink_step (Ks ! k) (p_sinks s ! k) (Push (envelope_for E (batches (p_source s)) b)) = Some u"
      "t = s\<lparr>p_sinks := (p_sinks s)[k := u], p_sends := (p_sends s)[b := f]\<rparr>"
  | (sink) k e u where "ev = AtSink k e" "k < length (p_sinks s)" "\<not> from_channel e"
      "sink_step (Ks ! k) (p_sinks s ! k) e = Some u"
      "t = s\<lparr>p_sinks := (p_sinks s)[k := u],
         p_sends := complete_envelopes k (drop (length (acks (p_sinks s ! k))) (acks u)) (p_sends s)\<rparr>"
  | (other) k eb u where "ev = OtherSource k eb" "k < length (p_sinks s)"
      "sink_step (Ks ! k) (p_sinks s ! k) (Push \<lparr>env_id = 0, env_batch = eb\<rparr>) = Some u"
      "t = s\<lparr>p_sinks := (p_sinks s)[k := u]\<rparr>"
  | (return) j b r u where "ev = SendReturns j" "j < length (sending (p_source s))"
      "b = unat (bc_sequence (sending (p_source s) ! j))" "b < length (p_sends s)"
      "send_result (p_sends s ! b) = Some r" "source_step E (p_source s) (SendDone j r) = Some u"
      "t = s\<lparr>p_source := u\<rparr>"
proof (cases ev)
  case (AtSource e)
  with assms source show ?thesis by (auto simp: pipeline_step_def split: if_splits)
next
  case (AtSend b l)
  with assms have "send_alone s l" by (auto simp: pipeline_step_def split: if_splits)
  then have "\<And>k d. l \<noteq> Complete k d" by auto
  with AtSend assms send show ?thesis by (auto simp: pipeline_step_def split: if_splits)
next
  case (Accept b k)
  with assms obtain f t' where "b < length (p_sends s)" "send_step (p_sends s ! b) (Enqueue k) = Some f"
    and p: "push_to Ks k (envelope_for E (batches (p_source s)) b) s = Some t'"
    and "t = t'\<lparr>p_sends := (p_sends t')[b := f]\<rparr>"
    by (auto simp: pipeline_step_def split: if_splits option.splits)
  with Accept show ?thesis by (cases rule: push_to_cases [OF p]) (auto intro: accept)
next
  case (AtSink k e)
  with assms sink show ?thesis by (auto simp: pipeline_step_def split: if_splits)
next
  case (OtherSource k eb)
  with assms have p: "push_to Ks k \<lparr>env_id = 0, env_batch = eb\<rparr> s = Some t" by (simp add: pipeline_step_def)
  from OtherSource show ?thesis by (cases rule: push_to_cases [OF p]) (auto intro: other)
next
  case (SendReturns j)
  with assms return show ?thesis by (auto simp: pipeline_step_def Let_def split: if_splits option.splits)
qed

lemmas send_reaches = reaches_step [where step = send_step]
  and source_reaches = reaches_step [where step = "source_step E" for E]
  and sink_reaches = reaches_step [where step = "sink_step K" for K]

lemma owned_completes:
  assumes "wired E Ks s0 s" "owned E s" "k < length (p_sinks s)" "e \<in> set (received (p_sinks s ! k))"
  shows "completes k (p_sends s) e"
proof -
  have "k < length (branches (p_sends s ! b))" if "b < length (p_sends s)" for b
    using assms(1,3) that reachable_inv(2) [of "length Ks" _ "p_sends s ! b"]
    by (auto simp: wired_def reaches_def)
  with assms(2-4) show ?thesis by (fastforce simp: owned_def completes_def)
qed

lemma sink_completions:
  assumes w: "wired E Ks s0 s" "owned E s" and k: "k < length (p_sinks s)"
    and st: "sink_step (Ks ! k) (p_sinks s ! k) e = Some u" "\<not> from_channel e"
  shows "\<forall>(e, d) \<in> set (drop (length (acks (p_sinks s ! k))) (acks u)). completes k (p_sends s) e"
proof -
  have "reaches (sink_step (Ks ! k)) run_start (p_sinks s ! k)" using w(1) k by (simp add: wired_def)
  note r = sink_reaches [OF this st(1)]
  have "completes k (p_sends s) e'" if "(e', d) \<in> set (acks u)" for e' d
    using sink_acks_received [OF r that] sink_step_frame [OF st] owned_completes [OF w k] by simp
  then show ?thesis by (auto dest: in_set_dropD)
qed

text \<open>Nothing that was dispatched, sent or acknowledged is ever taken back.\<close>

definition extends :: "('l, 'x, 'm, 'c, 'e) pipeline \<Rightarrow> ('l, 'x, 'm, 'c, 'e) pipeline \<Rightarrow> bool" where
  "extends s t \<longleftrightarrow> prefix (batches (p_source s)) (batches (p_source t)) \<and>
     prefix (commit_log (p_source s)) (commit_log (p_source t)) \<and>
     length (p_sends s) \<le> length (p_sends t) \<and> length (p_sinks t) = length (p_sinks s) \<and>
     (\<forall>b < length (p_sends s). reaches send_step (p_sends s ! b) (p_sends t ! b)) \<and>
     (\<forall>k < length (p_sinks s). prefix (acks (p_sinks s ! k)) (acks (p_sinks t ! k)))"

lemma step_extends:
  assumes "pipeline_step E Ks s ev = Some t" "wired E Ks s0 s" "owned E s"
  shows "extends s t"
  using assms(1)
proof (cases rule: pipeline_step_cases)
  case (source e u n)
  with source_step_frame [OF source(3)] show ?thesis by (simp add: extends_def nth_append)
next
  case (send b l f)
  with send_reaches [OF reaches_refl send(4)] show ?thesis by (auto simp: extends_def nth_update_if)
next
  case (accept b k f u)
  with send_reaches [OF reaches_refl accept(4)] sink_step_push [OF accept(5)] show ?thesis
    by (auto simp: extends_def nth_update_if)
next
  case (sink k e u)
  with sink_step_frame [OF sink(4,3)] complete_envelopes_sends [OF sink_completions [OF assms(2,3) sink(2,4,3)]]
  show ?thesis by (auto simp: extends_def nth_update_if)
next
  case (other k eb u)
  with sink_step_push [OF other(3)] show ?thesis by (auto simp: extends_def nth_update_if)
next
  case (return j b r u)
  with source_step_frame [OF return(6)] show ?thesis by (simp add: extends_def)
qed

lemma wired_step:
  assumes "pipeline_step E Ks s ev = Some t" "wired E Ks s0 s" "owned E s"
  shows "wired E Ks s0 t"
  using assms(1)
proof (cases rule: pipeline_step_cases)
  case (source e u n)
  from source_step_frame [OF source(3)] have "prefix (batches (p_source s)) (batches u)" by blast
  then have "length (batches u) = length (batches (p_source s)) + n"
    using source(5) prefix_length_le by fastforce
  moreover have "reaches (source_step E) s0 u" using assms(2) source_reaches [OF _ source(3)] by (simp add: wired_def)
  ultimately show ?thesis using assms(2) unfolding source(4) by (auto simp: wired_def nth_append)
next
  case (send b l f)
  with assms(2) send_reaches [OF _ send(4)] show ?thesis by (auto simp: wired_def nth_update_if)
next
  case (accept b k f u)
  with assms(2) send_reaches [OF _ accept(4)] sink_reaches [OF _ accept(5)] show ?thesis
    by (auto simp: wired_def nth_update_if)
next
  case (sink k e u)
  let ?fs = "complete_envelopes k (drop (length (acks (p_sinks s ! k))) (acks u)) (p_sends s)"
  from complete_envelopes_sends [OF sink_completions [OF assms(2,3) sink(2,4,3)]]
  have fs: "length ?fs = length (p_sends s)"
    "\<And>b. b < length (p_sends s) \<Longrightarrow> reaches send_step (p_sends s ! b) (?fs ! b)" by auto
  have "reaches send_step (send_start (length Ks)) (?fs ! b)" if "b < length (p_sends s)" for b
    by (rule reaches_trans [OF _ fs(2) [OF that]]) (use assms(2) that in \<open>simp add: wired_def\<close>)
  with sink assms(2) fs(1) sink_reaches [OF _ sink(4)] show ?thesis by (auto simp: wired_def nth_update_if)
next
  case (other k eb u)
  with assms(2) sink_reaches [OF _ other(3)] show ?thesis by (auto simp: wired_def nth_update_if)
next
  case (return j b r u)
  from return(6) have "batches u = batches (p_source s)" by (auto simp: source_step_def split: if_splits)
  with return assms(2) source_reaches [OF _ return(6)] show ?thesis by (auto simp: wired_def)
qed

lemma owned_step:
  assumes st: "pipeline_step E Ks s ev = Some t" and w: "wired E Ks s0 s" "owned E s"
  shows "owned E t"
proof -
  note ext = step_extends [OF st w]
  have keep: "\<exists>b < length (p_sends t). e = envelope_for E (batches (p_source t)) b \<and> branches (p_sends t ! b) ! k \<noteq> Unsent"
    if "b < length (p_sends s)" "e = envelope_for E (batches (p_source s)) b" "branches (p_sends s ! b) ! k \<noteq> Unsent"
      "k < length (p_sinks s)" for b e k
  proof -
    have "k < length (branches (p_sends s ! b))" "b < length (batches (p_source s))"
      using w(1) that reachable_inv(2) [of "length Ks" _ "p_sends s ! b"] by (auto simp: wired_def reaches_def)
    with that ext reaches_branch [of "p_sends s ! b" "p_sends t ! b" k] show ?thesis
      by (intro exI [of _ b]) (auto simp: extends_def envelope_for_prefix)
  qed
  have new: "received (p_sinks t ! k) = received (p_sinks s ! k) \<or>
      (\<exists>e. received (p_sinks t ! k) = received (p_sinks s ! k) @ [e] \<and> (env_id e = 0 \<or>
        (\<exists>b < length (p_sends t). e = envelope_for E (batches (p_source t)) b \<and> branches (p_sends t ! b) ! k \<noteq> Unsent)))"
    if "k < length (p_sinks s)" for k
    using st
  proof (cases rule: pipeline_step_cases)
    case (accept b j f u)
    from accept(4) have "branches f ! j \<noteq> Unsent"
      by (auto simp: send_step_def set_branch_def split: if_splits)
    with accept sink_step_push [OF accept(5)] show ?thesis by (auto simp: nth_update_if)
  next
    case (sink j e u)
    with sink_step_frame [OF sink(4,3)] show ?thesis by (auto simp: nth_update_if)
  next
    case (other j eb u)
    with sink_step_push [OF other(3)] show ?thesis by (auto simp: nth_update_if)
  qed auto
  show ?thesis unfolding owned_def
  proof (intro allI impI ballI)
    fix k e assume k: "k < length (p_sinks t)" and e: "e \<in> set (received (p_sinks t ! k))"
    then have k': "k < length (p_sinks s)" using ext by (simp add: extends_def)
    show "env_id e = 0 \<or> (\<exists>b < length (p_sends t). e = envelope_for E (batches (p_source t)) b \<and>
        branches (p_sends t ! b) ! k \<noteq> Unsent)"
    proof (cases "e \<in> set (received (p_sinks s ! k))")
      case True
      with w(2) k' keep show ?thesis unfolding owned_def by blast
    next
      case False
      with new [OF k'] e show ?thesis by auto
    qed
  qed
qed

lemma wired_branches:
  "wired E Ks s0 s \<Longrightarrow> b < length (p_sends s) \<Longrightarrow> length (branches (p_sends s ! b)) = length (p_sinks s)"
  using reachable_inv(2) [of "length Ks" _ "p_sends s ! b"] by (auto simp: wired_def reaches_def)

lemma vouched_step:
  assumes st: "pipeline_step E Ks s ev = Some t" and w: "wired E Ks s0 s" "owned E s" and v: "vouched E s"
  shows "vouched E t"
  unfolding vouched_def
proof (intro allI impI)
  fix b k assume b: "b < length (p_sends t)" and k: "k < length (p_sinks t)" and y: "yes (branches (p_sends t ! b) ! k)"
  note ext = step_extends [OF st w]
  then have k': "k < length (p_sinks s)" using k by (simp add: extends_def)
  from st have "b < length (p_sends s) \<and> yes (branches (p_sends s ! b) ! k) \<or>
      (envelope_for E (batches (p_source t)) b, True) \<in> set (acks (p_sinks t ! k))"
  proof (cases rule: pipeline_step_cases)
    case (source e u n)
    then show ?thesis using b y k' by (auto simp: nth_append send_start_def split: if_splits)
  next
    case (send c l f)
    with send_step_branch [OF send(4), of k] wired_branches [OF w(1) send(2)] y b k' show ?thesis
      by (auto simp: nth_update_if split: if_splits)
  next
    case (accept c j f u)
    with send_step_branch [OF accept(4), of k] wired_branches [OF w(1) accept(2)] y b k' show ?thesis
      by (auto simp: nth_update_if split: if_splits)
  next
    case (sink j e u)
    let ?new = "drop (length (acks (p_sinks s ! j))) (acks u)"
    note cs = complete_envelopes_sends [OF sink_completions [OF w sink(2,4,3)]]
    from cs sink b have b': "b < length (p_sends s)" by simp
    show ?thesis
    proof (cases "yes (branches (p_sends s ! b) ! k)")
      case False
      with cs b' y sink obtain e' where e': "j = k" "(e', True) \<in> set ?new" "env_id e' = Suc b" by auto
      from e'(2) have a: "(e', True) \<in> set (acks u)" by (rule in_set_dropD)
      have "reaches (sink_step (Ks ! j)) run_start (p_sinks s ! j)" using w(1) sink(2) by (simp add: wired_def)
      from sink_acks_received [OF sink_reaches [OF this sink(4)] a] sink_step_frame [OF sink(4,3)] e'(1)
      have "e' \<in> set (received (p_sinks s ! k))" by simp
      with w(2) k' e'(3) have "e' = envelope_for E (batches (p_source s)) b" by (fastforce simp: owned_def)
      with a e'(1) sink k' show ?thesis by simp
    qed (use b' in simp)
  next
    case (other j eb u)
    then show ?thesis using b y by simp
  next
    case (return j c r u)
    then show ?thesis using b y by simp
  qed
  then show "(envelope_for E (batches (p_source t)) b, True) \<in> set (acks (p_sinks t ! k))"
  proof
    assume o: "b < length (p_sends s) \<and> yes (branches (p_sends s ! b) ! k)"
    then have "(envelope_for E (batches (p_source s)) b, True) \<in> set (acks (p_sinks s ! k))"
      using v k' by (simp add: vouched_def)
    moreover have "b < length (batches (p_source s))" using o w(1) by (simp add: wired_def)
    moreover have "set (acks (p_sinks s ! k)) \<subseteq> set (acks (p_sinks t ! k))"
      using ext k' by (simp add: extends_def set_mono_prefix)
    ultimately show ?thesis using ext by (auto simp: extends_def envelope_for_prefix)
  qed
qed

lemma send_ok_settled:
  assumes "reaches send_step (send_start n) f" "send_result f = Some (Ok ())" "k < n"
  shows "branches f ! k = Settled True"
proof -
  from assms(1) obtain ls where "run send_step (send_start n) ls = Some f" by (auto simp: reaches_def)
  with send_result_inv [of f] reachable_inv [OF this] assms(2,3)
  have "branches f = replicate n (Settled True)" by auto
  with assms(3) show ?thesis by (metis nth_replicate)
qed

lemma sending_issued:
  assumes "in_order E s" "length (batches s) < 2 ^ 64" "j < length (sending s)"
  shows "\<exists>b < length (batches s). sending s ! j = completion_of E b (batches s ! b) \<and>
    unat (bc_sequence (sending s ! j)) = b"
proof -
  have "sending s ! j \<in># live s" using assms(3) by (simp add: live_def)
  with assms(1) have "sending s ! j \<in># mset (drop (length (commit_log s)) (issued E (batches s)))"
    unfolding in_order_def by (meson mset_subset_eqD)
  then have "sending s ! j \<in> set (issued E (batches s))" by (auto dest: in_set_dropD)
  then obtain b where "b < length (batches s)" "sending s ! j = completion_of E b (batches s ! b)"
    by (auto simp: in_set_conv_nth issued_nth)
  with assms(2) unat_of_nat_u64 [of b] show ?thesis by (auto simp: completion_of_def)
qed

lemma acked_settled_step:
  assumes st: "pipeline_step E Ks s ev = Some t" and w: "wired E Ks s0 s" "owned E s"
    and a: "acked_settled E s" and o: "ordered E (p_source s)"
  shows "acked_settled E t"
  unfolding acked_settled_def
proof (intro impI ballI)
  fix c assume len: "length (batches (p_source t)) < 2 ^ 64" and c: "c \<in> set (acked (p_source t))"
  note ext = step_extends [OF st w]
  then have len': "length (batches (p_source s)) < 2 ^ 64"
    using len by (auto simp: extends_def dest: prefix_length_le)
  from st c have "c \<in> set (acked (p_source s)) \<or> (\<exists>j b. j < length (sending (p_source s)) \<and>
      b = unat (bc_sequence (sending (p_source s) ! j)) \<and> b < length (p_sends s) \<and>
      send_result (p_sends s ! b) = Some (Ok () :: (unit, 'b error) result) \<and> c = sending (p_source s) ! j)"
  proof (cases rule: pipeline_step_cases)
    case (source e u n)
    with source_step_frame [OF source(3)] c show ?thesis by (cases e) auto
  next
    case (return j b r u)
    with source_step_frame [OF return(6)] c show ?thesis by (cases r) auto
  qed auto
  then have "\<exists>b < length (p_sends s). c = completion_of E b (batches (p_source s) ! b) \<and>
      (\<forall>k < length (p_sinks s). branches (p_sends s ! b) ! k = Settled True)"
  proof
    assume "c \<in> set (acked (p_source s))"
    with a len' show ?thesis by (simp add: acked_settled_def)
  next
    assume "\<exists>j b. j < length (sending (p_source s)) \<and>
      b = unat (bc_sequence (sending (p_source s) ! j)) \<and> b < length (p_sends s) \<and>
      send_result (p_sends s ! b) = Some (Ok () :: (unit, 'b error) result) \<and> c = sending (p_source s) ! j"
    then obtain j b where j: "j < length (sending (p_source s))" "b = unat (bc_sequence (sending (p_source s) ! j))"
      "b < length (p_sends s)" "send_result (p_sends s ! b) = Some (Ok () :: (unit, 'b error) result)"
      "c = sending (p_source s) ! j" by blast
    from sending_issued [OF _ len' j(1)] o len' j(2,5) have "c = completion_of E b (batches (p_source s) ! b)"
      by (auto simp: ordered_def)
    moreover have "branches (p_sends s ! b) ! k = Settled True" if "k < length (p_sinks s)" for k
      by (rule send_ok_settled [OF _ j(4), of "length Ks"]) (use w(1) j(3) that in \<open>auto simp: wired_def\<close>)
    ultimately show ?thesis using j(3) by blast
  qed
  then obtain b where b: "b < length (p_sends s)" "c = completion_of E b (batches (p_source s) ! b)"
    "\<forall>k < length (p_sinks s). branches (p_sends s ! b) ! k = Settled True" by blast
  have "branches (p_sends t ! b) ! k = Settled True" if "k < length (p_sinks t)" for k
    using ext b that reaches_branch [of "p_sends s ! b" "p_sends t ! b" k] wired_branches [OF w(1) b(1)]
    by (simp add: extends_def)
  moreover have "batches (p_source t) ! b = batches (p_source s) ! b"
    using ext b(1) w(1) by (auto simp: extends_def wired_def prefix_def nth_append)
  ultimately show "\<exists>b < length (p_sends t). c = completion_of E b (batches (p_source t) ! b) \<and>
      (\<forall>k < length (p_sinks t). branches (p_sends t ! b) ! k = Settled True)"
    using b ext by (intro exI [of _ b]) (auto simp: extends_def)
qed

definition pipeline_inv ::
  "('l, 'x, 'm, 'c) source_env \<Rightarrow> ('y, 'e) sink_env list \<Rightarrow> ('l, 'x, 'm, 'c) source_task \<Rightarrow>
   ('l, 'x, 'm, 'c, 'e) pipeline \<Rightarrow> bool" where
  "pipeline_inv E Ks s0 s \<longleftrightarrow> wired E Ks s0 s \<and> owned E s \<and> vouched E s \<and> acked_settled E s"

lemma wired_ordered: "wired E Ks (source_start E now con m) s \<Longrightarrow> ordered E (p_source s)"
  using source_reachable [of E now con m _ "p_source s" 0]
  by (auto simp: wired_def reaches_def source_inv_def)

interpretation pipeline_run: step_invariant "pipeline_step E Ks" "pipeline_inv E Ks (source_start E now con m)"
  for E Ks now con m
  by unfold_locales (auto simp: pipeline_inv_def dest: wired_ordered
    intro: wired_step owned_step vouched_step acked_settled_step)

lemma pipeline_start_inv:
  "pipeline_inv E Ks (source_start E now con m) (pipeline_start E (length Ks) now con m)"
  by (simp add: pipeline_inv_def pipeline_start_def wired_def owned_def vouched_def acked_settled_def
    source_start_def run_start_def)

lemmas pipeline_reachable = pipeline_run.run_keeps [OF pipeline_start_inv]

section \<open>Deliveries in the pipeline's trace\<close>

lemma step_new_delivery:
  assumes st: "pipeline_step E Ks s ev = Some t" and k: "k < length (p_sinks s)"
    and e: "(e, True) \<in> set (acks (p_sinks t ! k))" "(e, True) \<notin> set (acks (p_sinks s ! k))"
  shows "\<exists>i x out. ev = AtSink k (Attempt i x) \<and> i < length (running (p_sinks s ! k)) \<and>
    e \<in> set (task_envelopes (running (p_sinks s ! k) ! i)) \<and>
    sk_write (Ks ! k) x (map env_batch (task_envelopes (running (p_sinks s ! k) ! i))) = Some (Ok out)"
  using st
proof (cases rule: pipeline_step_cases)
  case (accept b j f u)
  with sink_step_push [OF accept(5)] e k show ?thesis by (auto simp: nth_update_if split: if_splits)
next
  case (other j eb u)
  with sink_step_push [OF other(3)] e k show ?thesis by (auto simp: nth_update_if split: if_splits)
next
  case (sink j ev' u)
  show ?thesis
  proof (cases "j = k")
    case True
    with sink e have "(e, True) \<in> set (acks u)" by simp
    from new_delivery [OF sink(4) [unfolded sink_step_def] this] e(2) True sink(1) show ?thesis by auto
  qed (use sink e in simp)
qed (use e in auto)

lemma pipeline_delivery_traced:
  assumes "run (pipeline_step E Ks) s0 ls = Some s" "k < length (p_sinks s0)"
    and "(e, True) \<in> set (acks (p_sinks s ! k))" "(e, True) \<notin> set (acks (p_sinks s0 ! k))"
    and "wired E Ks q s0" "owned E s0"
  shows "\<exists>ls1 i x ls2 s1 out. ls = ls1 @ AtSink k (Attempt i x) # ls2 \<and>
    run (pipeline_step E Ks) s0 ls1 = Some s1 \<and> i < length (running (p_sinks s1 ! k)) \<and>
    e \<in> set (task_envelopes (running (p_sinks s1 ! k) ! i)) \<and>
    sk_write (Ks ! k) x (map env_batch (task_envelopes (running (p_sinks s1 ! k) ! i))) = Some (Ok out)"
  using assms
proof (induction ls arbitrary: s0)
  case (Cons ev ls)
  then obtain s' where s': "pipeline_step E Ks s0 ev = Some s'" "run (pipeline_step E Ks) s' ls = Some s"
    by (auto split: option.splits)
  show ?case
  proof (cases "(e, True) \<in> set (acks (p_sinks s' ! k))")
    case True
    from step_new_delivery [OF s'(1) Cons.prems(2) True Cons.prems(4)] show ?thesis
      by (elim exE) (rule exI [of _ "[]"], auto)
  next
    case False
    have "k < length (p_sinks s')"
      using step_extends [OF s'(1) Cons.prems(5,6)] Cons.prems(2) by (simp add: extends_def)
    from Cons.IH [OF s'(2) this Cons.prems(3) False wired_step [OF s'(1) Cons.prems(5,6)]
      owned_step [OF s'(1) Cons.prems(5,6)]] obtain ls1 i x ls2 s1 out where
      "ls = ls1 @ AtSink k (Attempt i x) # ls2" "run (pipeline_step E Ks) s' ls1 = Some s1"
      "i < length (running (p_sinks s1 ! k))" "e \<in> set (task_envelopes (running (p_sinks s1 ! k) ! i))"
      "sk_write (Ks ! k) x (map env_batch (task_envelopes (running (p_sinks s1 ! k) ! i))) = Some (Ok out)" by blast
    with s'(1) show ?thesis by (intro exI [of _ "ev # ls1"]) auto
  qed
qed simp

text \<open>A committed batch was acknowledged as delivered by every sink.\<close>

lemma committed_delivered:
  assumes inv: "pipeline_inv E Ks (source_start E now con m) s" and len: "length (batches (p_source s)) < 2 ^ 64"
    and i: "i < length (commit_log (p_source s))" and k: "k < length (p_sinks s)"
  shows "(envelope_for E (batches (p_source s)) i, True) \<in> set (acks (p_sinks s ! k))"
proof -
  let ?s = "p_source s"
  from inv have w: "wired E Ks (source_start E now con m) s" and v: "vouched E s" and a: "acked_settled E s"
    by (simp_all add: pipeline_inv_def)
  from wired_ordered [OF w] len have o: "in_order E ?s" by (simp add: ordered_def)
  then have C: "length (commit_log ?s) \<le> length (batches ?s)"
    "commit_log ?s = take (length (commit_log ?s)) (issued E (batches ?s))"
    "set (commit_log ?s) \<subseteq> set (acked ?s)" by (simp_all add: in_order_def)
  have "commit_log ?s ! i = issued E (batches ?s) ! i" using C(2) i by (metis nth_take)
  then have l: "i < length (batches ?s)" "commit_log ?s ! i = completion_of E i (batches ?s ! i)"
    using C(1) i by (simp_all add: issued_nth)
  have "commit_log ?s ! i \<in> set (acked ?s)" using C(3) i nth_mem by blast
  with l a len obtain b where b: "b < length (p_sends s)" "completion_of E i (batches ?s ! i) = completion_of E b (batches ?s ! b)"
    "\<forall>k < length (p_sinks s). branches (p_sends s ! b) ! k = Settled True"
    by (auto simp: acked_settled_def)
  have "b < length (batches ?s)" using b(1) w by (simp add: wired_def)
  with b(2) l(1) len have "b = i" using of_nat_u64_inj [of i b] by (simp add: completion_of_def)
  with b k v show ?thesis by (simp add: vouched_def)
qed

section \<open>The specification: at least once, in order\<close>

text \<open>
  What the pipeline promises, without its mechanisms: the state is the number of batches
  committed and the deliveries (of a batch to a sink) so far; a delivery may happen at any
  time, any number of times; the next batch may be committed once every sink has it.
\<close>

inductive at_least_once :: "nat \<Rightarrow> nat \<times> (nat \<times> nat) set \<Rightarrow> nat \<times> (nat \<times> nat) set \<Rightarrow> bool" for n where
  deliver: "k < n \<Longrightarrow> at_least_once n (c, D) (c, insert (b, k) D)"
| commit: "(\<And>k. k < n \<Longrightarrow> (c, k) \<in> D) \<Longrightarrow> at_least_once n (c, D) (Suc c, D)"

definition abstraction :: "('l, 'x, 'm, 'c) source_env \<Rightarrow> ('l, 'x, 'm, 'c, 'e) pipeline \<Rightarrow> nat \<times> (nat \<times> nat) set" where
  "abstraction E s = (length (commit_log (p_source s)),
     {(b, k). b < length (batches (p_source s)) \<and> k < length (p_sinks s) \<and>
        (envelope_for E (batches (p_source s)) b, True) \<in> set (acks (p_sinks s ! k))})"

lemma deliver_many:
  assumes "finite A" "\<forall>(b, k) \<in> A. k < n"
  shows "(at_least_once n)\<^sup>*\<^sup>* (c, D) (c, A \<union> D)"
  using assms
proof (induction A rule: finite_induct)
  case (insert x A)
  obtain b k where x: "x = (b, k)" by fastforce
  with insert.prems have "at_least_once n (c, A \<union> D) (c, insert (b, k) (A \<union> D))" by (simp add: deliver)
  with insert x show ?case by (auto intro: rtranclp.rtrancl_into_rtrancl)
qed simp

lemma commit_many:
  assumes "c \<le> c'" "\<And>b k. b < c' \<Longrightarrow> k < n \<Longrightarrow> (b, k) \<in> D"
  shows "(at_least_once n)\<^sup>*\<^sup>* (c, D) (c', D)"
  using assms
proof (induction c' rule: dec_induct)
  case (step c')
  then have "at_least_once n (c', D) (Suc c', D)" by (simp add: commit)
  with step show ?case by (auto intro: rtranclp.rtrancl_into_rtrancl)
qed simp

lemma abstraction_finite: "finite (snd (abstraction E s))"
proof -
  have "snd (abstraction E s) \<subseteq> {..< length (batches (p_source s))} \<times> {..< length (p_sinks s)}"
    by (auto simp: abstraction_def)
  then show ?thesis by (rule finite_subset) simp
qed

lemma abstraction_step:
  assumes st: "pipeline_step E Ks s ev = Some t"
    and inv: "pipeline_inv E Ks (source_start E now con m) s" "pipeline_inv E Ks (source_start E now con m) t"
    and len: "length (batches (p_source t)) < 2 ^ 64"
  shows "(at_least_once (length Ks))\<^sup>*\<^sup>* (abstraction E s) (abstraction E t)"
proof -
  obtain c D c' D' where a: "abstraction E s = (c, D)" "abstraction E t = (c', D')" by fastforce
  from inv have w: "wired E Ks (source_start E now con m) s" "owned E s" "length (p_sinks t) = length Ks"
    by (simp_all add: pipeline_inv_def wired_def)
  note ext = step_extends [OF st w(1,2)]
  have "set (acks (p_sinks s ! k)) \<subseteq> set (acks (p_sinks t ! k))" if "k < length (p_sinks s)" for k
    using ext that by (simp add: extends_def set_mono_prefix)
  with ext have sub: "D \<subseteq> D'"
    using a by (auto simp: abstraction_def extends_def envelope_for_prefix dest: prefix_length_le) blast
  have cc: "c \<le> c'" using ext a by (auto simp: abstraction_def extends_def dest: prefix_length_le)
  have "finite D'" "\<forall>(b, k) \<in> D'. k < length Ks"
    using abstraction_finite [of E t] a w(3) by (auto simp: abstraction_def)
  from deliver_many [OF this, of c D] sub have "(at_least_once (length Ks))\<^sup>*\<^sup>* (c, D) (c, D')"
    by (simp add: Un_absorb2)
  moreover have "(b, k) \<in> D'" if "b < c'" "k < length Ks" for b k
  proof -
    have i: "b < length (commit_log (p_source t))" using a that by (simp add: abstraction_def)
    have "in_order E (p_source t)"
      using inv(2) len wired_ordered [of E Ks now con m t] by (simp add: pipeline_inv_def ordered_def)
    with i have "b < length (batches (p_source t))" by (simp add: in_order_def)
    with committed_delivered [OF inv(2) len i] that(2) w(3) a show ?thesis by (auto simp: abstraction_def)
  qed
  ultimately show ?thesis using commit_many [OF cc, of "length Ks" D'] a by auto
qed

end
