(* ===== verification/Source_Progress.thy ===== *)
theory Source_Progress
  imports Kafka_Source
begin

text \<open>
  Progress of the source: every dispatched batch is accounted for until its commit, and once the
  outstanding sends succeed everything dispatched gets committed.
\<close>

section \<open>Nothing is lost on the way to its commit\<close>

text \<open>
  While the source runs, every dispatched batch is committed, alive, or a failed send not yet joined, and
  the completion that would be committed next is not among those that wait.
\<close>

definition accounted :: "('l, 'x, 'm, 'c) source_env \<Rightarrow> ('l, 'x, 'm, 'c) source_task \<Rightarrow> bool" where
  "accounted E s \<longleftrightarrow> (length (batches s) < 2 ^ 64 \<and> src_result s = None \<longrightarrow>
     bt_get (completed s) (next_commit_sequence s) = None \<and>
     size (live s) + length (filter (\<lambda>r. \<not> is_ok r) (joinable s)) + length (commit_log s) = length (batches s))"

lemma accounted_frame [simp]:
  "accounted E (s\<lparr>src_counters := cnt\<rparr>) = accounted E s"
  "accounted E (s\<lparr>src_cancelled := x\<rparr>) = accounted E s" "accounted E (s\<lparr>src_deadline := x\<rparr>) = accounted E s"
  "accounted E (s\<lparr>arrivals := rs\<rparr>) = accounted E s"
  by (simp_all add: accounted_def live_def)

lemma accounted_stopped [simp]: "accounted E (s\<lparr>src_result := Some r\<rparr>)"
  by (simp add: accounted_def)

lemma dispatch_accounted: "accounted E s \<Longrightarrow> accounted E (dispatch E s)"
  by (cases rule: dispatch_cases [of E s]) (simp_all add: accounted_def live_def)

lemma on_recv_accounted:
  assumes "accounted E s"
  shows "accounted E (on_recv E r s)"
proof (cases r)
  case (Ok m)
  obtain e d where d: "to_event (se_bytes E) (se_id E) (src_decoder s) m = (e, d)" by fastforce
  let ?s = "s\<lparr>src_deadline := (if pending s = [] then False else src_deadline s),
    pending := pending s @ [e], src_decoder := d, consumed := consumed s @ [m]\<rparr>"
  have "accounted E ?s" using assms by (simp add: accounted_def live_def)
  from dispatch_accounted [OF this] this d Ok show ?thesis by (simp add: on_recv_def on_message_def Let_def)
qed (simp add: on_recv_def)

lemma send_done_accounted:
  assumes "accounted E s" "i < length (sending s)"
  shows "accounted E (s\<lparr>sending := remove_nth i (sending s),
      joinable := joinable s @ [bind_result r (\<lambda>_. Ok (sending s ! i))],
      acked := acked s @ (if is_ok r then [sending s ! i] else [])\<rparr>)"
  using assms by (cases r) (auto simp: accounted_def live_def)

lemma filter_remove_nth:
  assumes "k < length xs" "\<not> P (xs ! k)"
  shows "filter P (remove_nth k xs) = filter P xs"
  using assms(2) by (subst (2) id_take_nth_drop [OF assms(1)]) (simp add: remove_nth_def)

lemma on_joined_accounted:
  assumes ord: "ordered E s" and acc: "accounted E s" and k: "k < length (joinable s)" and run: "src_result s = None"
  shows "accounted E (on_joined E now k s)"
proof (cases "joinable s ! k")
  case (Ok c)
  let ?s = "s\<lparr>joinable := remove_nth k (joinable s)\<rparr>"
  let ?cnt = "(src_counters ?s)\<lparr>in_flight_bytes := of_nat (src_in_flight_bytes ?s - bc_bytes c),
         in_flight_batches := of_nat (in_flight_len ?s)\<rparr>"
  obtain r con m' nx cnt lg where cc: "commit_contiguous (se_commit E) (src_consumer ?s) (completed ?s)
      (next_commit_sequence ?s) c ?cnt = (r, con, m', nx, cnt, lg)" by (metis prod.exhaust)
  note fields = on_completion_fields [OF cc, of now]
  have j: "on_joined E now k s = on_completion E now c ?s" by (simp add: on_joined_def Ok)
  show ?thesis unfolding accounted_def j
  proof (intro impI)
    assume a: "length (batches (on_completion E now c ?s)) < 2 ^ 64 \<and> src_result (on_completion E now c ?s) = None"
    then have b: "length (batches s) < 2 ^ 64" and "is_ok r" using fields(1,13) run by simp_all
    then obtain ev bt where r: "r = Ok (ev, bt)" by (cases r) auto
    from ord b have io: "in_order E s" by (simp add: ordered_def)
    then have keyed: "keyed (completed s)" by (simp add: in_order_def)
    have oks: "mset (oks (joinable s)) = add_mset c (mset (oks (remove_nth k (joinable s))))"
      using mset_oks_remove [OF k] Ok by simp
    have "add_mset c (mset (map snd (completed s))) \<subseteq># live s" by (simp add: live_def oks)
    with io have "add_mset c (mset (map snd (completed s))) \<subseteq>#
        mset (drop (length (commit_log s)) (issued E (batches s)))"
      by (auto simp: in_order_def intro: subset_mset.order_trans)
    from fresh_key [OF numbered_issued [OF b] keyed this]
    have ins: "mset (map snd (bt_insert (bc_sequence c) c (completed s))) =
        add_mset c (mset (map snd (completed s)))" by (rule mset_bt_insert)
    have "bt_inv (bt_insert (bc_sequence c) c (completed ?s))"
      using keyed by (simp add: keyed_def bt_inv_insert)
    from commit_loop_run [OF cc [unfolded commit_contiguous_def r] this]
    have loop: "bt_get m' nx = None"
      "mset (map snd (bt_insert (bc_sequence c) c (completed s))) = mset lg + mset (map snd m')"
      by auto
    from arg_cong [OF loop(2), of size] ins have len: "Suc (length (completed s)) = length lg + length m'"
      by (metis add_mset_add_single length_map size_add_mset size_mset size_union)
    from arg_cong [OF oks, of size] have lo: "length (oks (joinable s)) = Suc (length (oks (remove_nth k (joinable s))))"
      by simp
    have er: "filter (\<lambda>r. \<not> is_ok r) (remove_nth k (joinable s)) = filter (\<lambda>r. \<not> is_ok r) (joinable s)"
      using filter_remove_nth [OF k, of "\<lambda>r. \<not> is_ok r"] Ok by simp
    from acc b run have "size (live s) + length (filter (\<lambda>r. \<not> is_ok r) (joinable s)) + length (commit_log s) = length (batches s)"
      by (simp add: accounted_def)
    with len lo er loop(1) fields show "bt_get (completed (on_completion E now c ?s))
        (next_commit_sequence (on_completion E now c ?s)) = None \<and>
      size (live (on_completion E now c ?s)) + length (filter (\<lambda>r. \<not> is_ok r) (joinable (on_completion E now c ?s))) +
        length (commit_log (on_completion E now c ?s)) = length (batches (on_completion E now c ?s))"
      by (simp add: live_def)
  qed
qed (simp add: on_joined_def)

lemma accounted_step:
  assumes "ordered E s" "accounted E s" "source_step E s ev = Some t"
  shows "accounted E t"
proof (cases ev)
  case (SendDone i r)
  with assms(2,3) send_done_accounted [of E s i r] show ?thesis by (auto simp: source_step_def split: if_splits)
next
  case (SrcPoll k now)
  have run: "src_result s = None" using assms(3) by (simp add: source_step_def split: if_splits)
  from assms(3) [unfolded SrcPoll] show ?thesis
    by (cases rule: source_poll_cases)
      (use assms(1,2) run in \<open>auto intro: dispatch_accounted on_joined_accounted on_recv_accounted\<close>)
qed (use assms in \<open>auto simp: source_step_def split: if_splits\<close>)

interpretation source_accounts: step_invariant "source_step E" "\<lambda>s. ordered E s \<and> accounted E s" for E
  by unfold_locales (auto intro: ordered_step accounted_step)

lemma source_start_accounted: "ordered E (source_start E now con m) \<and> accounted E (source_start E now con m)"
  using source_start_ordered by (simp add: accounted_def live_def source_start_def bt_get_def)

section \<open>Draining\<close>

lemma commit_loop_ok:
  assumes "\<forall>con l. is_ok (fst (commit con l))"
  shows "is_ok (fst (commit_loop commit con m nx cnt ev bt))"
  using assms
proof (induction commit con m nx cnt ev bt rule: commit_loop.induct)
  case (1 commit con m nx cnt ev bt)
  show ?case
  proof (cases "bt_get m nx")
    case None
    then show ?thesis by (simp add: commit_loop.simps [of commit con])
  next
    case (Some c)
    obtain u con1 where u: "commit con (bc_offsets c) = (Ok u, con1)"
      using 1(2) by (metis fst_conv is_ok.elims(2) surj_pair)
    from 1(1) [OF Some refl u [symmetric] refl 1(2)] Some u show ?thesis
      by (simp add: commit_loop.simps [of commit con] split_beta Let_def)
  qed
qed

text \<open>Nothing in flight and nothing to join: everything dispatched has been committed.\<close>

lemma quiescent_committed:
  assumes "ordered E s" "accounted E s" "length (batches s) < 2 ^ 64" "src_result s = None"
    and "sending s = []" "joinable s = []"
  shows "commit_log s = issued E (batches s)" "completed s = []"
proof -
  let ?n = "length (commit_log s)" and ?iss = "issued E (batches s)"
  from assms(1,3) have io: "in_order E s" by (simp add: ordered_def)
  then have n: "?n \<le> length ?iss" "next_commit_sequence s = of_nat ?n" "keyed (completed s)"
    "commit_log s = take ?n ?iss" "mset (map snd (completed s)) \<subseteq># mset (drop ?n ?iss)"
    using assms(5,6) by (simp_all add: in_order_def live_def)
  have gap: "bt_get (completed s) (of_nat ?n) = None"
    and sz: "length (completed s) + ?n = length ?iss"
    using assms n(2) by (simp_all add: accounted_def live_def)
  have all: "mset (map snd (completed s)) = mset (drop ?n ?iss)"
  proof (rule ccontr)
    assume "mset (map snd (completed s)) \<noteq> mset (drop ?n ?iss)"
    with n(5) have "mset (map snd (completed s)) \<subset># mset (drop ?n ?iss)"
      by (simp add: subset_mset.less_le)
    from mset_subset_size [OF this] sz show False by simp
  qed
  have "\<not> ?n < length ?iss"
  proof
    assume lt: "?n < length ?iss"
    then have "?iss ! ?n \<in> set (drop ?n ?iss)" by (simp add: Cons_nth_drop_Suc [symmetric])
    with mset_eq_setD [OF all] have "?iss ! ?n \<in> snd ` set (completed s)" by simp
    then obtain k where k: "(k, ?iss ! ?n) \<in> set (completed s)" by force
    with n(3) have "k = of_nat ?n" using numbered_issued [OF assms(3), of E] lt
      by (auto simp: keyed_def numbered_def)
    with k n(3) bt.iter_get [of "completed s"] gap show False by (auto simp: keyed_def)
  qed
  with n(1) have "?n = length ?iss" by simp
  with n(4) sz show "commit_log s = ?iss" "completed s = []" by simp_all
qed

lemma join_one:
  assumes commits: "\<forall>con l. is_ok (fst (se_commit E con l))"
    and run: "src_result s = None" "\<not> src_cancelled s" "joinable s = Ok c # js"
  obtains t where "source_step E s (SrcPoll 0 0) = Some t" "src_result t = None" "\<not> src_cancelled t"
    "joinable t = js" "sending t = sending s" "batches t = batches s" "consumed t = consumed s"
proof -
  let ?s = "s\<lparr>joinable := js\<rparr>"
  have step: "source_step E s (SrcPoll 0 0) = Some (on_completion E 0 c ?s)"
    using run by (simp add: source_step_def on_joined_def remove_nth_def)
  obtain r con m' nx cnt lg where cc: "commit_contiguous (se_commit E) (src_consumer ?s) (completed ?s)
      (next_commit_sequence ?s) c ((src_counters ?s)\<lparr>in_flight_bytes := of_nat (src_in_flight_bytes ?s - bc_bytes c),
         in_flight_batches := of_nat (in_flight_len ?s)\<rparr>) = (r, con, m', nx, cnt, lg)" by (metis prod.exhaust)
  have "is_ok r" using commit_loop_ok [OF commits] cc by (metis commit_contiguous_def fst_conv)
  moreover have "src_cancelled (on_completion E 0 c ?s) = src_cancelled s"
    by (auto simp: on_completion_def Let_def split: result.splits prod.splits)
  ultimately show thesis using that [OF step] on_completion_fields [OF cc, of 0] run by simp
qed

lemma send_one:
  assumes "src_result s = None" "\<not> src_cancelled s" "sending s = c # cs"
  obtains t where "source_step E s (SendDone 0 (Ok ())) = Some t" "src_result t = None" "\<not> src_cancelled t"
    "joinable t = joinable s @ [Ok c]" "sending t = cs" "batches t = batches s" "consumed t = consumed s"
  using that [of "s\<lparr>sending := cs, joinable := joinable s @ [Ok c], acked := acked s @ [c]\<rparr>"] assms
  by (simp add: source_step_def remove_nth_def)

lemma drains:
  assumes commits: "\<forall>con l. is_ok (fst (se_commit E con l))"
    and "ordered E s" "accounted E s" "length (batches s) < 2 ^ 64" "src_result s = None" "\<not> src_cancelled s"
    and "list_all is_ok (joinable s)"
  shows "\<exists>ls t. run (source_step E) s ls = Some t \<and> length ls = 2 * length (sending s) + length (joinable s) \<and>
    src_result t = None \<and> batches t = batches s \<and> consumed t = consumed s \<and>
    in_flight_len t = 0 \<and> completed t = [] \<and> commit_log t = issued E (batches s)"
  using assms(2-)
proof (induction "2 * length (sending s) + length (joinable s)" arbitrary: s rule: less_induct)
  case less
  have step: ?case if st: "source_step E s l = Some t"
    and t: "src_result t = None" "\<not> src_cancelled t" "list_all is_ok (joinable t)" "batches t = batches s" "consumed t = consumed s"
      "2 * length (sending s) + length (joinable s) = Suc (2 * length (sending t) + length (joinable t))" for l t
  proof -
    have "ordered E t" "accounted E t" using ordered_step accounted_step less.prems(1,2) st by blast+
    with less.hyps [of t] less.prems(3) t obtain ls u where
      "run (source_step E) t ls = Some u" "length ls = 2 * length (sending t) + length (joinable t)"
      "src_result u = None" "batches u = batches s" "consumed u = consumed s"
      "in_flight_len u = 0" "completed u = []" "commit_log u = issued E (batches s)" by auto
    with st t(6) show ?thesis by (intro exI [of _ "l # ls"] exI [of _ u]) simp
  qed
  show ?case
  proof (cases "joinable s")
    case (Cons r js)
    with less.prems(6) obtain c where r: "r = Ok c" by (cases r) auto
    from join_one [OF commits less.prems(4,5) Cons [unfolded r]] obtain t where
      "source_step E s (SrcPoll 0 0) = Some t" "src_result t = None" "\<not> src_cancelled t"
      "joinable t = js" "sending t = sending s" "batches t = batches s" "consumed t = consumed s" by blast
    with Cons less.prems(6) show ?thesis by (intro step [of "SrcPoll 0 0" t]) simp_all
  next
    case Nil
    show ?thesis
    proof (cases "sending s")
      case (Cons c cs)
      from send_one [OF less.prems(4,5) Cons] obtain t where
        "source_step E s (SendDone 0 (Ok ())) = Some t" "src_result t = None" "\<not> src_cancelled t"
        "joinable t = joinable s @ [Ok c]" "sending t = cs" "batches t = batches s" "consumed t = consumed s" by blast
      with Cons Nil show ?thesis by (intro step [of "SendDone 0 (Ok ())" t]) simp_all
    next
      case Nil': Nil
      from quiescent_committed [OF less.prems(1-4) Nil' Nil] Nil Nil' less.prems(4) show ?thesis
        by (intro exI [of _ "[]"] exI [of _ s]) (simp add: in_flight_len_def)
    qed
  qed
qed

section \<open>Properties\<close>

text \<open>
  C24: committing makes progress: from every reachable state in which the source runs and no send has
  failed, it is enough that the outstanding sends succeed and the consumer accepts commits: after two steps
  per outstanding send everything dispatched so far has been committed, in order, nothing waits any
  more, the window is empty and the source still runs. No order of earlier completions can leave a batch
  behind that is never committed.
\<close>

theorem source_can_always_drain:
  assumes "run (source_step E) (source_start E now con m0) ls = Some s"
    and "src_result s = None" "\<not> src_cancelled s" "list_all is_ok (joinable s)"
    and "\<forall>con l. is_ok (fst (se_commit E con l))" and "length (batches s) < 2 ^ 64"
  shows "\<exists>ls' t. run (source_step E) s ls' = Some t \<and> length ls' = 2 * length (sending s) + length (joinable s) \<and>
    src_result t = None \<and> batches t = batches s \<and> consumed t = consumed s \<and>
    in_flight_len t = 0 \<and> completed t = [] \<and> commit_log t = issued E (batches s)"
  using source_accounts.run_keeps [OF source_start_accounted assms(1)] drains [OF assms(5)] assms by blast

theorem source_can_always_drain_witness:
  "\<exists>s ls' t. run (source_step demo_env) (source_start demo_env 0 [] SourceMetrics_default) (take 6 demo_run) = Some s \<and>
     commit_log s = [] \<and> run (source_step demo_env) s ls' = Some t \<and> commit_log t = issued demo_env (batches t) \<and>
     length (commit_log t) = 2"
proof -
  obtain s where s: "run (source_step demo_env) (source_start demo_env 0 [] SourceMetrics_default) (take 6 demo_run) = Some s"
    "src_result s = None" "\<not> src_cancelled s" "joinable s = []" "length (batches s) = 2" "commit_log s = []"
    unfolding demo_run_def by (simp add: source_exec demo_env_def demo_message_def SourceMetrics_default_def Let_def)
  have "\<forall>con l. is_ok (fst (se_commit demo_env con l))" by (simp add: demo_env_def)
  from source_can_always_drain [OF s(1-3) _ this] s(4,5) obtain ls' t where
    "run (source_step demo_env) s ls' = Some t" "batches t = batches s" "commit_log t = issued demo_env (batches s)" by auto
  with s show ?thesis by (intro exI [of _ s] exI [of _ ls'] exI [of _ t]) simp
qed

end
