(* ===== verification/Source_Types.thy ===== *)
theory Source_Types
  imports Kafka_Source
begin

text \<open>
  The integers of the source within their Rust types. The model keeps \<open>i32\<close>, \<open>i64\<close> and \<open>usize\<close> values as
  unbounded numbers with the wrap-around or saturation written out; here it is shown that the
  positions, byte counts and collection sizes of every reachable state fit the code's types.
\<close>

section \<open>Ranges\<close>

definition is_i32 :: "int \<Rightarrow> bool" where
  "is_i32 x \<longleftrightarrow> - (2 ^ 31) \<le> x \<and> x < 2 ^ 31"

definition message_typed :: "message \<Rightarrow> bool" where
  "message_typed m \<longleftrightarrow> is_i32 (msg_partition m) \<and> is_i64 (msg_offset m) \<and> pred_option is_i64 (msg_timestamp m)"

definition event_typed :: "event \<Rightarrow> bool" where
  "event_typed e \<longleftrightarrow> is_i32 (partition (source e)) \<and> is_i64 (offset (source e)) \<and> pred_option is_i64 (timestamp_ms e)"

definition offsets_typed :: "('l, 'x) tpl_ops \<Rightarrow> 'l \<Rightarrow> bool" where
  "offsets_typed T l \<longleftrightarrow> (\<forall>t p n. tpl_find T l t p = Some n \<longrightarrow> is_i32 p \<and> is_i64 n)"

text \<open>Every completion the source holds or has committed.\<close>

definition completions :: "('l, 'x, 'm, 'c) source_task \<Rightarrow> 'l batch_completion set" where
  "completions s = set (sending s) \<union> set (oks (joinable s)) \<union> snd ` set (completed s) \<union> set (commit_log s)"

lemma event_of_typed: "message_typed m \<Longrightarrow> event_typed (event_of c m)"
  by (simp add: message_typed_def event_typed_def event_of_def)

lemma offsets_for_typed:
  assumes "tpl_laws T" "offsets_for T es = Ok l" "list_all event_typed es"
  shows "offsets_typed T l"
  unfolding offsets_typed_def
proof (intro allI impI)
  fix t p n
  assume "tpl_find T l t p = Some n"
  with offsets_for_correct [OF assms(1,2)] have "commit_offset es t p = Some n" by simp
  then obtain e where "e \<in> set es" "same_partition t p e" "n = wrap_i64 (offset (source e) + 1)"
    by (rule commit_offset_SomeD)
  with assms(3) wrap_i64_range show "is_i32 p \<and> is_i64 n"
    by (auto simp: list_all_iff same_partition_def event_typed_def)
qed

lemma completions_issued:
  assumes "in_order E s" "c \<in> completions s"
  obtains i where "i < length (batches s)" "c = completion_of E i (batches s ! i)"
proof -
  let ?n = "length (commit_log s)"
  from assms(1) have l: "live s \<subseteq># mset (drop ?n (issued E (batches s)))"
    and log: "commit_log s = take ?n (issued E (batches s))" by (simp_all add: in_order_def)
  have "c \<in># live s \<or> c \<in> set (commit_log s)" using assms(2) by (auto simp: completions_def live_def)
  then have "c \<in> set (issued E (batches s))"
  proof
    assume "c \<in># live s"
    with l show ?thesis by (auto dest!: mset_subset_eqD in_set_dropD)
  next
    assume "c \<in> set (commit_log s)"
    with log show ?thesis by (metis in_set_takeD)
  qed
  then show thesis using that by (auto simp: issued_def)
qed

lemma completion_of_bytes: "bc_bytes (completion_of E i es) \<le> usize_MAX"
  unfolding completion_of_def using batch_bytes_range by simp

text \<open>The byte counter is a \<open>usize\<close>, and the reporter never divides by zero.\<close>

definition scalars_typed :: "('l, 'x, 'm, 'c) source_task \<Rightarrow> bool" where
  "scalars_typed s \<longleftrightarrow> src_in_flight_bytes s \<le> usize_MAX \<and> rep_every (src_reporter s) \<noteq> 0"

lemma scalars_typed_frame [simp]:
  "scalars_typed (s\<lparr>src_counters := cnt\<rparr>) = scalars_typed s"
  "scalars_typed (s\<lparr>src_cancelled := x\<rparr>) = scalars_typed s" "scalars_typed (s\<lparr>src_deadline := x\<rparr>) = scalars_typed s"
  "scalars_typed (s\<lparr>arrivals := rs\<rparr>) = scalars_typed s" "scalars_typed (s\<lparr>src_result := r\<rparr>) = scalars_typed s"
  "scalars_typed (s\<lparr>sending := cs, joinable := js, acked := as\<rparr>) = scalars_typed s"
  "scalars_typed (s\<lparr>sending := cs, joinable := js\<rparr>) = scalars_typed s"
  by (simp_all add: scalars_typed_def)

lemma dispatch_scalars: "scalars_typed s \<Longrightarrow> scalars_typed (dispatch E s)"
  by (cases rule: dispatch_cases [of E s]) (simp_all add: scalars_typed_def saturating_add_def)

lemma on_joined_scalars: "scalars_typed s \<Longrightarrow> scalars_typed (on_joined E now k s)"
  by (auto simp: on_joined_def on_completion_def record_events_def Let_def scalars_typed_def
    split: result.splits prod.splits if_splits)

lemma on_recv_scalars:
  assumes "scalars_typed s"
  shows "scalars_typed (on_recv E r s)"
proof (cases r)
  case (Ok m)
  obtain e d where d: "to_event (se_bytes E) (se_id E) (src_decoder s) m = (e, d)" by fastforce
  let ?s = "s\<lparr>src_deadline := (if pending s = [] then False else src_deadline s),
    pending := pending s @ [e], src_decoder := d, consumed := consumed s @ [m]\<rparr>"
  have "scalars_typed ?s" using assms by (simp add: scalars_typed_def)
  from dispatch_scalars [OF this] this d Ok show ?thesis by (simp add: on_recv_def on_message_def Let_def)
qed (use assms in \<open>simp add: on_recv_def\<close>)

lemma scalars_step:
  assumes "scalars_typed s" "source_step E s ev = Some t"
  shows "scalars_typed t"
proof (cases ev)
  case (SrcPoll k now)
  from assms(2) [unfolded SrcPoll] show ?thesis
    by (cases rule: source_poll_cases)
      (use assms(1) in \<open>auto intro: dispatch_scalars on_joined_scalars on_recv_scalars\<close>)
qed (use assms in \<open>auto simp: source_step_def split: if_splits\<close>)

interpretation source_scalars: step_invariant "source_step E" scalars_typed for E
  by unfold_locales (rule scalars_step)

text \<open>
  The collections the run loop keeps are bounded by the configuration: the window, the pending
  batch, which is dispatched as soon as it is full, and every dispatched batch.
\<close>

definition sizes_bounded :: "('l, 'x, 'm, 'c) source_env \<Rightarrow> ('l, 'x, 'm, 'c) source_task \<Rightarrow> bool" where
  "sizes_bounded E s \<longleftrightarrow> in_flight_len s \<le> ks_max_in_flight_batches (se_config E) \<and>
     length (pending s) < ks_batch_size (se_config E) \<and>
     (\<forall>b \<in> set (batches s). length b \<le> ks_batch_size (se_config E))"

lemma sizes_bounded_frame [simp]:
  "sizes_bounded E (s\<lparr>src_counters := cnt\<rparr>) = sizes_bounded E s"
  "sizes_bounded E (s\<lparr>src_cancelled := x\<rparr>) = sizes_bounded E s" "sizes_bounded E (s\<lparr>src_deadline := x\<rparr>) = sizes_bounded E s"
  "sizes_bounded E (s\<lparr>arrivals := rs\<rparr>) = sizes_bounded E s" "sizes_bounded E (s\<lparr>src_result := r\<rparr>) = sizes_bounded E s"
  by (simp_all add: sizes_bounded_def in_flight_len_def)

lemma dispatch_sizes:
  assumes "0 < ks_batch_size (se_config E)" "admits_batch E s" "length (pending s) \<le> ks_batch_size (se_config E)"
    "\<forall>b \<in> set (batches s). length b \<le> ks_batch_size (se_config E)"
  shows "sizes_bounded E (dispatch E s)"
  using assms by (cases rule: dispatch_cases [of E s])
    (auto simp: sizes_bounded_def admits_batch_def in_flight_len_def)

lemma on_joined_sizes:
  assumes "sizes_bounded E s" "k < length (joinable s)"
  shows "sizes_bounded E (on_joined E now k s)"
proof (cases "joinable s ! k")
  case (Err e)
  with assms show ?thesis by (auto simp: on_joined_def sizes_bounded_def in_flight_len_def)
next
  case (Ok c)
  let ?s = "s\<lparr>joinable := remove_nth k (joinable s)\<rparr>"
  obtain r con m' nx cnt lg where cc: "commit_contiguous (se_commit E) (src_consumer ?s) (completed ?s)
      (next_commit_sequence ?s) c ((src_counters ?s)\<lparr>in_flight_bytes := of_nat (src_in_flight_bytes ?s - bc_bytes c),
         in_flight_batches := of_nat (in_flight_len ?s)\<rparr>) = (r, con, m', nx, cnt, lg)"
    by (metis prod.exhaust)
  have "on_joined E now k s = on_completion E now c ?s" by (simp add: on_joined_def Ok)
  with assms on_completion_fields [OF cc, of now] show ?thesis
    by (auto simp: sizes_bounded_def in_flight_len_def)
qed

lemma on_recv_sizes:
  assumes "0 < ks_batch_size (se_config E)" "sizes_bounded E s" "admits_batch E s"
  shows "sizes_bounded E (on_recv E r s)"
proof (cases r)
  case (Ok m)
  obtain e d where d: "to_event (se_bytes E) (se_id E) (src_decoder s) m = (e, d)" by fastforce
  let ?s = "s\<lparr>src_deadline := (if pending s = [] then False else src_deadline s),
    pending := pending s @ [e], src_decoder := d, consumed := consumed s @ [m]\<rparr>"
  have "admits_batch E ?s" "length (pending ?s) \<le> ks_batch_size (se_config E)"
    "\<forall>b \<in> set (batches ?s). length b \<le> ks_batch_size (se_config E)"
    using assms by (auto simp: sizes_bounded_def admits_batch_def in_flight_len_def)
  from dispatch_sizes [OF assms(1) this] d Ok assms(2) show ?thesis
    by (simp add: on_recv_def on_message_def Let_def sizes_bounded_def in_flight_len_def)
qed (use assms in \<open>simp add: on_recv_def\<close>)

lemma sizes_step:
  assumes pos: "0 < ks_batch_size (se_config E)" and "sizes_bounded E s" "source_step E s ev = Some t"
  shows "sizes_bounded E t"
proof (cases ev)
  case (SrcPoll k now)
  have bs: "length (pending s) \<le> ks_batch_size (se_config E)"
    "\<forall>b \<in> set (batches s). length b \<le> ks_batch_size (se_config E)"
    using assms(2) by (auto simp: sizes_bounded_def)
  from assms(3) [unfolded SrcPoll] show ?thesis
  proof (cases rule: source_poll_cases)
    case (recv r rest)
    have "admits_batch E (s\<lparr>arrivals := rest\<rparr>)" using recv(2) by (simp add: admits_batch_def in_flight_len_def)
    from on_recv_sizes [OF pos _ this] recv(4) assms(2) show ?thesis by simp
  qed (use assms(2) bs in \<open>auto intro: dispatch_sizes [OF pos] on_joined_sizes\<close>)
next
  case (SendDone i r)
  with assms(2,3) show ?thesis
    by (auto simp: source_step_def sizes_bounded_def in_flight_len_def split: if_splits)
qed (use assms in \<open>auto simp: source_step_def split: if_splits\<close>)

interpretation source_sizes: step_invariant "source_step E"
    "\<lambda>s. 0 < ks_batch_size (se_config E) \<longrightarrow> sizes_bounded E s" for E
  by unfold_locales (auto intro: sizes_step)

section \<open>Properties\<close>

text \<open>
  C26: the positions, byte counts and collection sizes of the source stay within their Rust types.
  The client's messages carry \<open>i32\<close> partitions and \<open>i64\<close> offsets and timestamps, which is what
  their types give; then so do all pending and dispatched events and, with the increment wrapped,
  every offset to commit of every batch in flight, waiting or committed. The byte count of each
  such batch and the in-flight byte counter are \<open>usize\<close> values, the window, the pending batch and
  every dispatched batch stay within the configured sizes, and the throughput report never
  divides by zero.
\<close>

theorem source_state_is_well_typed:
  assumes run: "run (source_step E) (source_start E now con m0) ls = Some s"
    and laws: "bytes_mut_laws (se_bytes E)" "tpl_laws (se_tpl E)" "0 < ks_batch_size (se_config E)"
    and typed: "list_all message_typed (consumed s)" and bound: "length (batches s) < 2 ^ 64"
  shows "list_all event_typed (concat (batches s) @ pending s) \<and>
    (\<forall>c \<in> completions s. offsets_typed (se_tpl E) (bc_offsets c) \<and> bc_bytes c \<le> usize_MAX) \<and>
    scalars_typed s \<and> sizes_bounded E s"
proof (intro conjI ballI)
  from source_reachable [OF run, of 0] bound laws have ord: "in_order E s" and str: "stream E s"
    by (simp_all add: source_inv_def ordered_def)
  from str obtain rest where "map (event_of (se_id E)) (consumed s) = concat (batches s) @ pending s @ rest"
    by (auto simp: stream_def)
  moreover have "list_all event_typed (map (event_of (se_id E)) (consumed s))"
    using typed by (auto simp: list_all_iff intro: event_of_typed)
  ultimately show ev: "list_all event_typed (concat (batches s) @ pending s)" by simp
  fix c assume "c \<in> completions s"
  with ord obtain i where i: "i < length (batches s)" "c = completion_of E i (batches s ! i)"
    by (rule completions_issued)
  then have mem: "batches s ! i \<in> set (batches s)" by simp
  with str obtain l where l: "offsets_for (se_tpl E) (batches s ! i) = Ok l" by (auto simp: stream_def is_ok_iff)
  from mem ev have bt: "list_all event_typed (batches s ! i)" by (auto simp: list_all_iff)
  from i(2) completion_of_bytes show "bc_bytes c \<le> usize_MAX" by simp
  from offsets_for_typed [OF laws(2) l bt] i(2) l show "offsets_typed (se_tpl E) (bc_offsets c)"
    by (simp add: completion_of_def)
next
  have "scalars_typed (source_start E now con m0)"
    by (simp add: source_start_def scalars_typed_def Reporter_new_def REPORT_EVERY_def)
  from source_scalars.run_keeps [OF this run] show "scalars_typed s" .
next
  have "0 < ks_batch_size (se_config E) \<longrightarrow> sizes_bounded E (source_start E now con m0)"
    by (simp add: source_start_def sizes_bounded_def in_flight_len_def)
  from source_sizes.run_keeps [OF this run] laws(3) show "sizes_bounded E s" by simp
qed

theorem source_state_is_well_typed_witness:
  "\<exists>s. run (source_step demo_env) (source_start demo_env 0 [] SourceMetrics_default) demo_run = Some s \<and>
     commit_log s \<noteq> [] \<and> list_all event_typed (concat (batches s) @ pending s) \<and>
     (\<exists>c. c \<in> completions s \<and> offsets_typed (se_tpl demo_env) (bc_offsets c) \<and> bc_bytes c \<le> usize_MAX) \<and>
     sizes_bounded demo_env s"
proof -
  obtain s where s: "run (source_step demo_env) (source_start demo_env 0 [] SourceMetrics_default) demo_run = Some s"
    "length (batches s) = 2" "consumed s = [demo_message 7, demo_message 8]"
    "map bc_offsets (commit_log s) = [[(''t'', 0, 8)], [(''t'', 0, 9)]]"
    by (rule demo_exec)
  from s(4) have log: "commit_log s \<noteq> []" by auto
  have "list_all message_typed (consumed s)"
    by (simp add: s(3) message_typed_def demo_message_def is_i32_def is_i64_def)
  from source_state_is_well_typed [OF s(1) demo_env_laws this] s(2)
  have t: "list_all event_typed (concat (batches s) @ pending s)"
    "\<forall>c \<in> completions s. offsets_typed (se_tpl demo_env) (bc_offsets c) \<and> bc_bytes c \<le> usize_MAX"
    "sizes_bounded demo_env s" by simp_all
  from log have "hd (commit_log s) \<in> completions s" by (simp add: completions_def)
  with t(2) have "\<exists>c. c \<in> completions s \<and> offsets_typed (se_tpl demo_env) (bc_offsets c) \<and> bc_bytes c \<le> usize_MAX"
    by blast
  with s(1) log t(1,3) show ?thesis by (intro exI [of _ s] conjI)
qed

end
