(* ===== verification/Benchmark.thy ===== *)
theory Benchmark
  imports Sink_Runtime
begin

text \<open>
  The benchmark binary (\<open>src/src/bin/benchmark.rs\<close>): the counting sink, which is another provider of
  the sink contract beside the two of the router, the generation of the load and the window of sends.
  Timing and printing are not modelled.
\<close>

section \<open>The counting sink\<close>

record counting =
  cnt_events :: u64
  cnt_bytes :: u64

fun counting_add :: "event_batch list \<Rightarrow> counting \<Rightarrow> counting" where
  "counting_add [] c = c"
| "counting_add (b # bs) c = counting_add bs
     (c\<lparr>cnt_events := cnt_events c + of_nat (batch_len b), cnt_bytes := cnt_bytes c + of_nat (batch_bytes b)\<rparr>)"

definition counting_write :: "event_batch list \<Rightarrow> counting \<Rightarrow> (write_outcome, 'e) result \<times> counting" where
  "counting_write bs c = (Ok (WriteOutcome_written (sum_list (map (\<lambda>b. of_nat (batch_len b)) bs))), counting_add bs c)"

definition counting_batch_settings :: batch_settings where
  "counting_batch_settings = \<lparr>max_events = 10000, max_bytes = 16 * 1024 * 1024, linger = 5000000\<rparr>"

text \<open>The delivery settings of the three sink tasks (one millisecond is 1000000 ns).\<close>

definition bench_settings :: delivery_settings where
  "bench_settings = \<lparr>max_concurrent_writes = 1, retry_max_attempts = 1,
     retry_initial_backoff = 1000000, retry_max_backoff = 1000000\<rparr>"

lemma sum_list_of_nat: "sum_list (map (\<lambda>b. of_nat (f b)) bs) = (of_nat (sum_list (map f bs)) :: u64)"
  by (induction bs) simp_all

interpretation counting: sink_contract "\<lambda>c bs. Some (fst (counting_write bs c))"
  by unfold_locales (auto simp: counting_write_def WriteOutcome_written_def sum_list_of_nat length_flat_events)

lemma counting_add_events:
  "cnt_events (counting_add bs c) = cnt_events c + sum_list (map (\<lambda>b. of_nat (batch_len b)) bs)"
  by (induction bs c rule: counting_add.induct) (simp_all add: add.assoc)

text \<open>What a write reports as written is what it added to the shared counter.\<close>

lemma counting_write_reports:
  "counting_write bs c = (Ok out, c') \<Longrightarrow> cnt_events c' = cnt_events c + written out \<and> dropped out = 0"
  by (auto simp: counting_write_def counting_add_events WriteOutcome_written_def)

section \<open>The load\<close>

definition DEFAULT_MESSAGE_COUNT :: u64 where "DEFAULT_MESSAGE_COUNT = 1000000"
definition PAYLOAD_SIZE :: usize where "PAYLOAD_SIZE = 1024"
definition OUTPUT_COUNT :: usize where "OUTPUT_COUNT = 3"
definition BATCH_SIZE :: usize where "BATCH_SIZE = 1000"
definition QUEUE_CAPACITY :: usize where "QUEUE_CAPACITY = 32"
definition MAX_IN_FLIGHT :: usize where "MAX_IN_FLIGHT = 8"

text \<open>\<open>str::parse::<u64>\<close>: an optional plus sign, then decimal digits of a value that fits.\<close>

definition parse_u64 :: "string \<Rightarrow> u64 option" where
  "parse_u64 s =
     (let ds = (case s of c # d # rest \<Rightarrow> if c = CHR ''+'' then d # rest else s | _ \<Rightarrow> s) in
      if ds \<noteq> [] \<and> list_all is_digit ds \<and> read_nat ds < 2 ^ 64 then Some (of_nat (read_nat ds)) else None)"

definition message_count :: "string option \<Rightarrow> u64" where
  "message_count var = unwrap_or (Option.bind var parse_u64) DEFAULT_MESSAGE_COUNT"

definition to_be_bytes :: "u64 \<Rightarrow> bytes" where
  "to_be_bytes w = map (\<lambda>i. char_of (unat w div 256 ^ i mod 256)) [7, 6, 5, 4, 3, 2, 1, 0 :: nat]"

definition bench_event ::
  "'m bytes_mut_ops \<Rightarrow> u64 \<Rightarrow> nat \<Rightarrow> 'm batch_buffer \<Rightarrow> 'm batch_buffer \<times> event" where
  "bench_event ops produced off buf =
     (let (buf, k) = copy ops buf (to_be_bytes (produced + of_nat off));
          (buf, p) = copy ops buf (replicate PAYLOAD_SIZE (CHR 0x2A))
      in (buf, \<lparr>key = Some k, payload = p, timestamp_ms = None,
            source = \<lparr>component_id = ''benchmark'', topic = ''input'',
              partition = int (unat produced mod 6),
              offset = wrap_i64 (int (unat (produced + of_nat off)))\<rparr>\<rparr>))"

fun bench_batch ::
  "'m bytes_mut_ops \<Rightarrow> u64 \<Rightarrow> nat list \<Rightarrow> 'm batch_buffer \<Rightarrow> 'm batch_buffer \<times> event list" where
  "bench_batch ops produced [] buf = (buf, [])"
| "bench_batch ops produced (off # offs) buf =
     (let (buf, e) = bench_event ops produced off buf; (buf, es) = bench_batch ops produced offs buf
      in (buf, e # es))"

text \<open>
  What the \<open>while produced < message_count\<close> loop generates: the batches for \<open>fanout.send\<close>, in order, as
  long as no send fails.
\<close>

function bench_loop ::
  "'m bytes_mut_ops \<Rightarrow> usize \<Rightarrow> u64 \<Rightarrow> u64 \<Rightarrow> 'm batch_buffer \<Rightarrow> event_batch list" where
  "bench_loop ops size_of cnt produced buf =
     (if produced < cnt then
        let n = min BATCH_SIZE (unat (cnt - produced));
            (buf, es) = bench_batch ops produced [0..<n] buf
        in EventBatch_new size_of es # bench_loop ops size_of cnt (produced + of_nat n) buf
      else [])"
  by pat_completeness auto

lemma bench_take:
  fixes cnt produced :: u64
  assumes "produced < cnt" "n = min BATCH_SIZE (unat (cnt - produced))"
  shows "unat (cnt - produced) = unat cnt - unat produced" "0 < n" "unat (produced + of_nat n) = unat produced + n"
    "unat produced + n \<le> unat cnt"
proof -
  from assms(1) have lt: "unat produced < unat cnt" by (simp add: word_less_nat_alt)
  show d: "unat (cnt - produced) = unat cnt - unat produced"
    by (rule unat_sub) (use assms(1) in simp)
  show "0 < n" using assms(2) d lt by (simp add: BATCH_SIZE_def)
  show "unat produced + n \<le> unat cnt" using assms(2) d lt by simp
  moreover have "unat cnt < 2 ^ 64" using unsigned_less [of cnt, where ?'a = nat] by simp
  ultimately show "unat (produced + of_nat n) = unat produced + n"
    by (simp add: unat_word_ariths unat_of_nat take_bit_nat_eq_self)
qed

lemma bench_progress:
  fixes cnt produced :: u64
  assumes "produced < cnt" "n = min BATCH_SIZE (unat (cnt - produced))"
  shows "unat cnt - unat (produced + of_nat n) < unat cnt - unat produced"
  using bench_take [OF assms] by linarith

termination bench_loop
  by (relation "measure (\<lambda>(_, _, cnt, produced, _). unat cnt - unat produced)") (auto intro: bench_progress)

declare bench_loop.simps [simp del]

text \<open>
  The sends of the loop and the draining after it, with the number of sends in flight and the results
  in the order in which \<open>join_next\<close> yields them: the batches whose send was spawned, and what this part of
  \<open>main\<close> returns (\<open>None\<close>: it is waiting for a send).
\<close>

function bench_send ::
  "event_batch list \<Rightarrow> usize \<Rightarrow> (unit, 'e) result list \<Rightarrow> event_batch list \<times> (unit, 'e) result option" where
  "bench_send bs in_flight rs =
     (if bs \<noteq> [] \<and> in_flight < MAX_IN_FLIGHT then
        let (sent, r) = bench_send (tl bs) (in_flight + 1) rs in (hd bs # sent, r)
      else if bs = [] \<and> in_flight = 0 then ([], Some (Ok ()))
      else case rs of
          [] \<Rightarrow> ([], None)
        | Err e # _ \<Rightarrow> ([], Some (Err e))
        | Ok _ # rs \<Rightarrow> bench_send bs (in_flight - 1) rs)"
  by pat_completeness auto

termination bench_send
  by (relation "measure (\<lambda>(bs, _, rs). length bs + length rs)") auto

declare bench_send.simps [simp del]

text \<open>The event with a given number, as the arena-free reference has it.\<close>

definition numbered_event :: "u64 \<Rightarrow> nat \<Rightarrow> event" where
  "numbered_event produced i = \<lparr>key = Some (to_be_bytes (of_nat i)), payload = replicate PAYLOAD_SIZE (CHR 0x2A),
     timestamp_ms = None, source = \<lparr>component_id = ''benchmark'', topic = ''input'',
       partition = int (unat produced mod 6), offset = wrap_i64 (int i)\<rparr>\<rparr>"

text \<open>What identifies a message: its key, its payload and its offset.\<close>

definition event_data :: "event \<Rightarrow> bytes option \<times> bytes \<times> int" where
  "event_data e = (key e, payload e, offset (source e))"

definition numbered_data :: "nat \<Rightarrow> bytes option \<times> bytes \<times> int" where
  "numbered_data i = (Some (to_be_bytes (of_nat i)), replicate PAYLOAD_SIZE (CHR 0x2A), wrap_i64 (int i))"

lemma bench_batch_events:
  assumes laws: "bytes_mut_laws ops" and inv: "arena_inv ops buf"
    and fits: "\<forall>off \<in> set offs. unat produced + off < 2 ^ 64"
    and b: "bench_batch ops produced offs buf = (buf', es)"
  shows "es = map (\<lambda>off. numbered_event produced (unat produced + off)) offs \<and> arena_inv ops buf'"
  using inv fits b
proof (induction offs arbitrary: buf buf' es)
  case (Cons off offs)
  obtain b1 k where c1: "copy ops buf (to_be_bytes (produced + of_nat off)) = (b1, k)" by fastforce
  obtain b2 p where c2: "copy ops b1 (replicate PAYLOAD_SIZE (CHR 0x2A)) = (b2, p)" by fastforce
  note copy_correct [OF laws Cons.prems(1) c1] copy_correct [OF laws _ c2]
  then have kp: "k = to_be_bytes (produced + of_nat off)" "p = replicate PAYLOAD_SIZE (CHR 0x2A)" "arena_inv ops b2"
    by auto
  obtain b3 es' where r: "bench_batch ops produced offs b2 = (b3, es')" by fastforce
  have u: "produced + of_nat off = of_nat (unat produced + off)"
    "unat (produced + of_nat off) = unat produced + off"
    using Cons.prems(2) by (simp_all add: unat_word_ariths unat_of_nat take_bit_nat_eq_self)
  have "bench_event ops produced off buf = (b2, numbered_event produced (unat produced + off))"
    unfolding bench_event_def numbered_event_def u(2) using c1 c2 kp(1,2) u(1) by (simp del: of_nat_add)
  with Cons.IH [OF kp(3) _ r] Cons.prems(2,3) r show ?case by auto
qed simp

lemma bench_loop_numbers:
  assumes "bytes_mut_laws ops" "arena_inv ops buf" "produced \<le> cnt"
  shows "map event_data (flat_events (bench_loop ops z cnt produced buf)) =
      map numbered_data [unat produced..<unat cnt] \<and>
    (\<forall>b \<in> set (bench_loop ops z cnt produced buf). 0 < batch_len b \<and> batch_len b \<le> BATCH_SIZE)"
  using assms
proof (induction ops z cnt produced buf rule: bench_loop.induct)
  case (1 ops z cnt produced buf)
  show ?case
  proof (cases "produced < cnt")
    case True
    define n where "n = min BATCH_SIZE (unat (cnt - produced))"
    note t = bench_take [OF True n_def]
    obtain buf' es where b: "bench_batch ops produced [0..<n] buf = (buf', es)" by fastforce
    have "unat cnt < 2 ^ 64" using unsigned_less [of cnt, where ?'a = nat] by simp
    with bench_batch_events [OF "1.prems"(1,2) _ b] t(4)
    have es: "es = map (\<lambda>off. numbered_event produced (unat produced + off)) [0..<n]" "arena_inv ops buf'" by auto
    have le: "produced + of_nat n \<le> cnt" using t(3,4) by (simp add: word_le_nat_alt)
    have IH: "map event_data (flat_events (bench_loop ops z cnt (produced + of_nat n) buf')) =
        map numbered_data [unat (produced + of_nat n)..<unat cnt] \<and>
      (\<forall>b \<in> set (bench_loop ops z cnt (produced + of_nat n) buf'). 0 < batch_len b \<and> batch_len b \<le> BATCH_SIZE)"
      using "1.IH" [OF True n_def b [symmetric] refl "1.prems"(1) es(2) le] .
    have up: "map (\<lambda>i. f (unat produced + i)) [0..<n] @ map f [unat produced + n..<unat cnt] =
        map f [unat produced..<unat cnt]" for f :: "nat \<Rightarrow> bytes option \<times> bytes \<times> int"
    proof -
      have "map (\<lambda>i. f (unat produced + i)) [0..<n] = map f [unat produced..<unat produced + n]"
        by (simp add: map_add_upt [symmetric] comp_def add.commute)
      with upt_add_eq_append [of "unat produced" "unat produced + n" "unat cnt - (unat produced + n)"] t(4)
      show ?thesis by (simp flip: map_append)
    qed
    have "bench_loop ops z cnt produced buf =
        EventBatch_new z es # bench_loop ops z cnt (produced + of_nat n) buf'"
      using True b by (subst bench_loop.simps) (simp add: n_def Let_def)
    moreover have "map event_data es = map (\<lambda>i. numbered_data (unat produced + i)) [0..<n]"
      unfolding es(1) by (simp add: event_data_def numbered_data_def numbered_event_def comp_def del: of_nat_add)
    moreover have "length es = n" "n \<le> BATCH_SIZE" by (simp_all add: es(1) n_def)
    ultimately show ?thesis using IH up [of numbered_data] t(2,3)
      by (simp del: of_nat_add)
  next
    case False
    with "1.prems"(3) show ?thesis by (simp add: bench_loop.simps)
  qed
qed

lemma bench_loop_total:
  assumes "bytes_mut_laws ops"
  shows "sum_list (map batch_len (bench_loop ops z cnt 0 (BatchBuffer_default ops))) = unat cnt"
proof -
  from bench_loop_numbers [OF assms arena_inv_default [OF assms], of 0 cnt z]
  have "map event_data (flat_events (bench_loop ops z cnt 0 (BatchBuffer_default ops))) =
      map numbered_data [0..<unat cnt]" by simp
  from arg_cong [OF this, of length] show ?thesis by (simp add: length_flat_events)
qed

text \<open>The sends succeed exactly when there is a successful result for each, and then all were spawned.\<close>

lemma all_ok_Cons: "n \<noteq> 0 \<Longrightarrow> (n \<le> length (Ok () # rs) \<and> take n (Ok () # rs) = replicate n (Ok ())) \<longleftrightarrow>
    n - 1 \<le> length rs \<and> take (n - 1) rs = replicate (n - 1) (Ok ())"
  by (cases n) auto

lemma bench_send_outcome:
  "prefix (fst (bench_send bs n rs)) bs \<and>
   (snd (bench_send bs n rs) = Some (Ok ()) \<longleftrightarrow>
      n + length bs \<le> length rs \<and> take (n + length bs) rs = replicate (n + length bs) (Ok ())) \<and>
   (snd (bench_send bs n rs) = Some (Ok ()) \<longrightarrow> fst (bench_send bs n rs) = bs)"
proof (induction bs n rs rule: bench_send.induct)
  case (1 bs n rs)
  consider (spawn) "bs \<noteq> []" "n < MAX_IN_FLIGHT" | (finished) "bs = []" "n = 0"
    | (join) "\<not> (bs \<noteq> [] \<and> n < MAX_IN_FLIGHT)" "n \<noteq> 0"
    by (cases "n = 0") (auto simp: MAX_IN_FLIGHT_def)
  then show ?case
  proof cases
    case spawn
    then obtain b bs' where b: "bs = b # bs'" by (cases bs) auto
    obtain sent r where t: "bench_send bs' (n + 1) rs = (sent, r)" by fastforce
    then have u: "bench_send bs n rs = (b # sent, r)" using spawn b by (subst bench_send.simps) simp
    have l: "n + length bs = n + 1 + length bs'" using b by simp
    from 1(1) [OF conjI [OF spawn]] have "prefix sent bs' \<and>
        (r = Some (Ok ()) \<longleftrightarrow> n + 1 + length bs' \<le> length rs \<and>
           take (n + 1 + length bs') rs = replicate (n + 1 + length bs') (Ok ())) \<and>
        (r = Some (Ok ()) \<longrightarrow> sent = bs')" unfolding b list.sel t fst_conv snd_conv .
    then show ?thesis unfolding l u fst_conv snd_conv by (simp only: b prefix_Cons Cons_prefix_Cons list.inject) blast
  next
    case finished
    then have "bench_send bs n rs = ([], Some (Ok ()))" by (subst bench_send.simps) simp
    with finished show ?thesis by simp
  next
    case join
    show ?thesis
    proof (cases rs)
      case Nil
      with join have "bench_send bs n rs = ([], None)" by (subst bench_send.simps) auto
      with join(2) Nil show ?thesis by simp
    next
      case (Cons r rs')
      show ?thesis
      proof (cases r)
        case (Ok u)
        have u: "bench_send bs n rs = bench_send bs (n - 1) rs'"
          using join Cons Ok by (subst bench_send.simps) auto
        from 1(2) [OF _ _ Cons Ok] join all_ok_Cons [of "n + length bs" rs'] show ?thesis
          unfolding u unfolding Cons by (simp add: Ok)
      next
        case (Err e)
        with join Cons have "bench_send bs n rs = ([], Some (Err e))" by (subst bench_send.simps) auto
        with join(2) Cons Err show ?thesis by (cases n) auto
      qed
    qed
  qed
qed

text \<open>
  The closing assertion of the benchmark, on what the sinks report as written (which is what
  \<^const>\<open>counting_write\<close> adds to the shared counter): when the sink tasks have acknowledged the batches of the
  load, each once and in any order, the reports add up to the message count times the outputs.
\<close>

lemma counting_sinks_add_up:
  assumes "bytes_mut_laws ops" and "length ss = OUTPUT_COUNT"
    and "\<forall>s \<in> set ss. \<exists>ls. run (run_step (\<lambda>c bs. Some (fst (counting_write bs c) :: (write_outcome, 'e) result))
        counting_batch_settings bench_settings QUEUE_CAPACITY) run_start ls = Some s"
    and "\<forall>s \<in> set ss. mset (map env_batch (delivered_of (acks s))) =
        mset (bench_loop ops z cnt 0 (BatchBuffer_default ops))"
  shows "(\<forall>s \<in> set ss. events_out (counters s) + events_dropped (counters s) = cnt) \<and>
    sum_list (map (\<lambda>s. events_out (counters s) + events_dropped (counters s)) ss) = cnt * of_nat OUTPUT_COUNT"
proof -
  have "events_out (counters s) + events_dropped (counters s) = cnt" if "s \<in> set ss" for s
  proof -
    from assms(3) that obtain ls where
      "run (run_step (\<lambda>c bs. Some (fst (counting_write bs c) :: (write_outcome, 'e) result))
        counting_batch_settings bench_settings QUEUE_CAPACITY) run_start ls = Some s" by blast
    note counting.run_counts [OF this]
    moreover have "group_events (delivered_of (acks s)) =
        sum_list (map batch_len (map env_batch (delivered_of (acks s))))"
      by (simp add: group_events_def comp_def)
    moreover have "\<dots> = sum_list (map batch_len (bench_loop ops z cnt 0 (BatchBuffer_default ops)))"
      using assms(4) that by (metis mset_map sum_mset_sum_list)
    ultimately show ?thesis using bench_loop_total [OF assms(1), of z cnt] by simp
  qed
  moreover from this have "sum_list (map (\<lambda>s. events_out (counters s) + events_dropped (counters s)) ss) =
      sum_list (map (\<lambda>_. cnt) ss)" by (metis (no_types, lifting) map_eq_conv)
  ultimately show ?thesis using assms(2) by (simp add: sum_list_triv mult.commute)
qed

lemma length_le_sum_list: "list_all (\<lambda>x. 0 < f x) xs \<Longrightarrow> length xs \<le> sum_list (map f xs)" for f :: "'a \<Rightarrow> nat"
  by (induction xs) auto

section \<open>Properties\<close>

text \<open>
  The load that the benchmark generates is complete: for every message count the loop ends, its
  batches carry exactly the messages numbered from 0 up to the count, in order and each once (key, payload
  and offset of each), and each holds between 1 and \<open>BATCH_SIZE\<close> messages. Whatever
  order the sends finish in, what is sent is a prefix of it, the sending part ends with \<open>Ok\<close> exactly
  when every send of the load succeeded, and then all of it was sent.
\<close>

theorem benchmark_load_is_complete:
  assumes "bytes_mut_laws ops"
  shows "\<exists>load. load = bench_loop ops z cnt 0 (BatchBuffer_default ops) \<and>
    map event_data (flat_events load) = map numbered_data [0..<unat cnt] \<and>
    list_all (\<lambda>b. 0 < batch_len b \<and> batch_len b \<le> BATCH_SIZE) load \<and>
    prefix (fst (bench_send load 0 rs)) load \<and>
    (snd (bench_send load 0 rs) = Some (Ok ()) \<longleftrightarrow>
       length load \<le> length rs \<and> take (length load) rs = replicate (length load) (Ok ())) \<and>
    (snd (bench_send load 0 rs) = Some (Ok ()) \<longrightarrow> fst (bench_send load 0 rs) = load)"
proof -
  from bench_loop_numbers [OF assms arena_inv_default [OF assms], of 0 cnt z]
    bench_send_outcome [of "bench_loop ops z cnt 0 (BatchBuffer_default ops)" 0 rs]
  show ?thesis by (simp add: list_all_iff)
qed

theorem benchmark_load_is_complete_witness:
  "map event_data (flat_events (fst (bench_send
      (bench_loop list_bytes_mut 96 (message_count (Some ''+2'')) 0 (BatchBuffer_default list_bytes_mut)) 0
      [Ok (), Ok () :: (unit, nat) result]))) =
     [numbered_data 0, numbered_data 1] \<and> fst (numbered_data 1) = Some (replicate 7 (CHR 0x00) @ [CHR 0x01])"
proof -
  let ?load = "bench_loop list_bytes_mut 96 2 0 (BatchBuffer_default list_bytes_mut)"
  let ?rs = "[Ok (), Ok () :: (unit, nat) result]"
  have c: "message_count (Some ''+2'') = 2"
    by (simp add: message_count_def parse_u64_def is_digit_def read_nat_def digit_value_def unwrap_or_def)
  have k: "to_be_bytes 1 = replicate 7 (CHR 0x00) @ [CHR 0x01]"
  proof -
    have "char_of (0 :: nat) = CHR 0x00" "char_of (Suc 0) = CHR 0x01" by code_simp+
    moreover have "replicate 7 (CHR 0x00) = [CHR 0x00, CHR 0x00, CHR 0x00, CHR 0x00, CHR 0x00, CHR 0x00, CHR 0x00]"
      by code_simp
    ultimately show ?thesis by (simp add: to_be_bytes_def)
  qed
  note w = benchmark_load_is_complete [OF list_bytes_mut_laws, of 96 2 ?rs]
  then have d: "map event_data (flat_events ?load) = [numbered_data 0, numbered_data 1]"
    and n: "list_all (\<lambda>b. 0 < batch_len b) ?load" by (auto simp: upt_rec list_all_iff)
  from arg_cong [OF d, of length] length_le_sum_list [OF n] have "length ?load \<le> 2"
    by (simp add: length_flat_events)
  moreover have "length xs \<le> 2 \<Longrightarrow> take (length xs) ?rs = replicate (length xs) (Ok ())" for xs :: "event_batch list"
    by (cases xs; cases "tl xs") auto
  ultimately have "fst (bench_send ?load 0 ?rs) = ?load" using w by auto
  then show ?thesis using d k unfolding c by (simp add: numbered_data_def)
qed

end
