(* ===== verification/Tools.thy ===== *)
theory Tools
  imports Topology Benchmark
begin

text \<open>
  The command-line tools beside the router: \<open>src/src/bin/kafka_load.rs\<close> (filling a topic),
  \<open>src/examples/normalize_ab.rs\<close> (the arena against one allocation per field) and
  \<open>src/examples/ch_schema_probe.rs\<close> (does a table accept the sink's rows). The environment, the
  arguments, the Kafka producer and the ClickHouse server are arguments; timing and the wording of
  what is printed are not modelled.
\<close>

section \<open>Environment and numbers\<close>

definition env_or :: "(string \<rightharpoonup> string) \<Rightarrow> string \<Rightarrow> string \<Rightarrow> string" where
  "env_or env k fallback = unwrap_or (env k) fallback"

text \<open>The big-endian reading of a byte string, which \<open>to_be_bytes\<close> inverts.\<close>

definition from_be_bytes :: "bytes \<Rightarrow> nat" where
  "from_be_bytes bs = foldl (\<lambda>n c. 256 * n + of_char c) 0 bs"

lemma be_digits:
  "foldl (\<lambda>a c. 256 * a + of_char c) acc (map (\<lambda>i. char_of (n div 256 ^ i mod 256)) (rev [0..<k])) =
     acc * 256 ^ k + n mod 256 ^ k" for n :: nat
proof (induction k arbitrary: acc)
  case (Suc k)
  have "n mod 256 ^ Suc k = 256 ^ k * (n div 256 ^ k mod 256) + n mod 256 ^ k"
    using mod_mult2_eq [of n "256 ^ k" 256] by (simp add: mult.commute)
  with Suc show ?case by (simp add: algebra_simps)
qed simp

lemma from_to_be_bytes: "from_be_bytes (to_be_bytes w) = unat w"
proof -
  have "[7, 6, 5, 4, 3, 2, 1, 0] = rev [0..<8 :: nat]" by (simp add: upt_rec)
  then have "from_be_bytes (to_be_bytes w) = unat w mod 256 ^ 8"
    using be_digits [of 0 "unat w" 8] by (simp add: from_be_bytes_def to_be_bytes_def)
  also have "\<dots> = unat w" using unsigned_less [of w, where ?'a = nat] by (intro mod_less) simp
  finally show ?thesis .
qed

lemma to_be_bytes_inj [simp]: "to_be_bytes v = to_be_bytes w \<longleftrightarrow> v = w"
  by (metis from_to_be_bytes word_unat_eq_iff)

section \<open>The load generator\<close>

datatype parse_int_error = ParseIntError

definition env_number ::
  "(string \<rightharpoonup> string) \<Rightarrow> string \<Rightarrow> string \<Rightarrow> (u64, (parse_int_error + 'x) error) result" where
  "env_number env k fallback =
     (case parse_u64 (env_or env k fallback) of
        None \<Rightarrow> Err (Context (''invalid '' @ k) (Foreign (Inl ParseIntError)))
      | Some n \<Rightarrow> Ok n)"

definition load_client_settings :: "string \<Rightarrow> (string \<times> string) list" where
  "load_client_settings brokers = [
     (''bootstrap.servers'', brokers),
     (''enable.idempotence'', ''true''),
     (''compression.type'', ''lz4''),
     (''linger.ms'', ''5'')]"

definition load_record :: "string \<Rightarrow> bytes \<Rightarrow> u64 \<Rightarrow> base_record" where
  "load_record t content i = \<lparr>rec_topic = t, rec_payload = content, rec_key = Some (to_be_bytes i), rec_timestamp = None\<rparr>"

fun collect_results :: "('a, 'e) result list \<Rightarrow> ('a list, 'e) result" where
  "collect_results [] = Ok []"
| "collect_results (Err e # _) = Err e"
| "collect_results (Ok a # rs) = bind_result (collect_results rs) (\<lambda>as. Ok (a # as))"

text \<open>
  \<open>create\<close> makes the producer from its settings; \<open>buffer_unordered\<close> sends the records with the given
  concurrency and yields their results in the order in which they finish, all of them before any is
  looked at. The result of \<open>main\<close>, and the records it sent. The kind of a number's parse error is not kept.
\<close>

definition kafka_load ::
  "((string \<times> string) list \<Rightarrow> (unit, 'x) result) \<Rightarrow> (usize \<Rightarrow> base_record list \<Rightarrow> ('d, 'x) result list) \<Rightarrow>
   (string \<rightharpoonup> string) \<Rightarrow> (unit, (parse_int_error + 'x) error) result \<times> base_record list" where
  "kafka_load create buffer_unordered env =
     (let brokers = env_or env ''KAFKA_BROKERS'' ''localhost:9092'';
          t = env_or env ''KAFKA_TOPIC'' ''rustper-input'' in
      case env_number env ''MESSAGE_COUNT'' ''100000'' of
        Err e \<Rightarrow> (Err e, [])
      | Ok cnt \<Rightarrow>
      (case env_number env ''CONCURRENCY'' ''1000'' of
        Err e \<Rightarrow> (Err e, [])
      | Ok concurrency \<Rightarrow>
      (case env_number env ''PAYLOAD_SIZE'' ''1024'' of
        Err e \<Rightarrow> (Err e, [])
      | Ok payload_size \<Rightarrow>
      (case create (load_client_settings brokers) of
        Err e \<Rightarrow> (Err (Context ''cannot create load producer'' (Foreign (Inr e))), [])
      | Ok _ \<Rightarrow>
          let content = replicate (unat payload_size) (CHR 0x2A);
              records = map (\<lambda>i. load_record t content (of_nat i)) [0..<unat cnt]
          in (case collect_results (buffer_unordered (unat concurrency) records) of
                Err e \<Rightarrow> Err (Foreign (Inr e))
              | Ok _ \<Rightarrow> Ok (), records)))))"

lemma collect_results_ok: "is_ok (collect_results rs) \<longleftrightarrow> list_all is_ok rs"
  by (induction rs rule: collect_results.induct) (auto simp: ok_iff)

text \<open>The records of a load: as many as asked for, numbered, so that no two have the same key.\<close>

lemma kafka_load_outcome:
  assumes "env_number env ''MESSAGE_COUNT'' ''100000'' = (Ok cnt :: (u64, (parse_int_error + 'x) error) result)"
    "env_number env ''CONCURRENCY'' ''1000'' = (Ok concurrency :: (u64, (parse_int_error + 'x) error) result)"
    "env_number env ''PAYLOAD_SIZE'' ''1024'' = (Ok payload_size :: (u64, (parse_int_error + 'x) error) result)"
    "create (load_client_settings (env_or env ''KAFKA_BROKERS'' ''localhost:9092'')) = Ok ()"
  shows "\<exists>r records. kafka_load create bu env = (r :: (unit, (parse_int_error + 'x) error) result, records) \<and>
    map rec_key records = map (\<lambda>i. Some (to_be_bytes (of_nat i))) [0..<unat cnt] \<and> distinct (map rec_key records) \<and>
    (is_ok r \<longleftrightarrow> list_all is_ok (bu (unat concurrency) records))"
proof -
  have "inj_on (\<lambda>i. Some (to_be_bytes (of_nat i))) {0..<unat cnt}"
    using unsigned_less [of cnt, where ?'a = nat] by (auto intro!: inj_onI dest!: of_nat_u64_inj [THEN iffD1, rotated 2])
  then have "distinct (map (\<lambda>i. Some (to_be_bytes (of_nat i))) [0..<unat cnt])" by (simp add: distinct_map)
  with assms show ?thesis
    by (auto simp: kafka_load_def Let_def load_record_def comp_def collect_results_ok [symmetric] split: result.splits)
qed

section \<open>Arena against one allocation per field\<close>

definition AB_MESSAGES :: usize where "AB_MESSAGES = 5000000"
definition AB_BATCH :: usize where "AB_BATCH = 1000"

definition ab_event ::
  "'m bytes_mut_ops \<Rightarrow> bool \<Rightarrow> nat \<Rightarrow> 'm batch_buffer \<Rightarrow> 'm batch_buffer \<times> event" where
  "ab_event ops arena n buf =
     (let k = to_be_bytes (of_nat n); p = replicate 1024 (CHR 0x2A);
          (buf, k, p) = (if arena then
             let (buf, k) = copy ops buf k; (buf, p) = copy ops buf p in (buf, k, p)
           else (buf, k, p))
      in (buf, \<lparr>key = Some k, payload = p, timestamp_ms = Some 1,
            source = \<lparr>component_id = ''source'', topic = ''input'', partition = 0, offset = wrap_i64 (int n)\<rparr>\<rparr>))"

fun ab_events ::
  "'m bytes_mut_ops \<Rightarrow> bool \<Rightarrow> nat list \<Rightarrow> 'm batch_buffer \<Rightarrow> 'm batch_buffer \<times> event list" where
  "ab_events ops arena [] buf = (buf, [])"
| "ab_events ops arena (n # ns) buf =
     (let (buf, e) = ab_event ops arena n buf; (buf, es) = ab_events ops arena ns buf in (buf, e # es))"

fun ab_batches ::
  "'m bytes_mut_ops \<Rightarrow> usize \<Rightarrow> bool \<Rightarrow> nat list \<Rightarrow> 'm batch_buffer \<Rightarrow> event_batch list" where
  "ab_batches ops z arena [] buf = []"
| "ab_batches ops z arena (b # bs) buf =
     (let (buf, es) = ab_events ops arena (map (\<lambda>i. b * AB_BATCH + i) [0..<AB_BATCH]) buf
      in EventBatch_new z es # ab_batches ops z arena bs buf)"

definition ab_round :: "'m bytes_mut_ops \<Rightarrow> usize \<Rightarrow> bool \<Rightarrow> event_batch list" where
  "ab_round ops z arena = ab_batches ops z arena [0..<AB_MESSAGES div AB_BATCH] (BatchBuffer_default ops)"

lemma ab_events_plain: "ab_events ops False ns buf = (buf, map (\<lambda>n. snd (ab_event ops False n buf)) ns)"
  by (induction ns) (auto simp: ab_event_def Let_def split_beta)

lemma ab_event_arena:
  assumes "bytes_mut_laws ops" "arena_inv ops buf"
  shows "snd (ab_event ops True n buf) = snd (ab_event ops False n buf') \<and> arena_inv ops (fst (ab_event ops True n buf))"
proof -
  obtain b1 k where c1: "copy ops buf (to_be_bytes (of_nat n)) = (b1, k)" by fastforce
  obtain b2 p where c2: "copy ops b1 (replicate 1024 (CHR 0x2A)) = (b2, p)" by fastforce
  from copy_correct [OF assms c1] copy_correct [OF assms(1) _ c2] c1 c2 show ?thesis
    by (auto simp: ab_event_def Let_def)
qed

lemma ab_events_arena:
  assumes "bytes_mut_laws ops" "arena_inv ops buf"
  shows "snd (ab_events ops True ns buf) = snd (ab_events ops False ns buf') \<and> arena_inv ops (fst (ab_events ops True ns buf))"
  using assms(2)
proof (induction ns arbitrary: buf buf')
  case (Cons n ns)
  from ab_event_arena [OF assms(1) Cons.prems, of n buf']
    Cons.IH [of "fst (ab_event ops True n buf)" "fst (ab_event ops False n buf')"] show ?case
    by (simp add: split_beta Let_def)
qed simp

lemma ab_batches_arena:
  assumes "bytes_mut_laws ops" "arena_inv ops buf"
  shows "ab_batches ops z True bs buf = ab_batches ops z False bs buf'"
  using assms(2)
proof (induction bs arbitrary: buf buf')
  case (Cons b bs)
  let ?ns = "map (\<lambda>i. b * AB_BATCH + i) [0..<AB_BATCH]"
  from ab_events_arena [OF assms(1) Cons.prems, of ?ns buf'] Cons.IH [of "fst (ab_events ops True ?ns buf)"] show ?case
    by (simp add: split_beta Let_def)
qed simp

lemma ab_batches_len: "sum_list (map batch_len (ab_batches ops z False bs buf)) = length bs * AB_BATCH"
  by (induction bs arbitrary: buf) (simp_all add: ab_events_plain)

section \<open>The schema probe\<close>

definition probe_config :: "(string \<rightharpoonup> string) \<Rightarrow> string \<Rightarrow> clickhouse_schema \<Rightarrow> sink_config" where
  "probe_config env tbl sch = SinkClickhouse \<lparr>
     ch_inputs = [''probe''],
     ch_endpoint = env_or env ''CLICKHOUSE_URL'' ''http://localhost:8123'',
     ch_database = env_or env ''CLICKHOUSE_DB'' ''default'',
     ch_table = tbl,
     ch_user = env_or env ''CLICKHOUSE_USER'' ''default'',
     ch_password = env_or env ''CLICKHOUSE_PASSWORD'' ''rustper'',
     ch_buffer_capacity = 1,
     ch_batch_max_events = 1,
     ch_batch_max_bytes = 2 ^ 20,
     ch_batch_linger_ms = 0,
     ch_schema = sch,
     ch_metadata_columns = MetadataColumnsConfig_default,
     ch_allow_errors_num = 0,
     ch_allow_errors_ratio = Finite 0,
     ch_max_concurrent_writes = 1,
     ch_retry_max_attempts = 1,
     ch_retry_initial_backoff_ms = 1,
     ch_retry_max_backoff_ms = 1\<rparr>"

definition probe_event :: event where
  "probe_event = \<lparr>key = Some ''PROBE-KEY'', payload = ''PROBE-PAYLOAD'', timestamp_ms = Some 1700000000123,
     source = \<lparr>component_id = ''PROBE-COMPONENT'', topic = ''PROBE-TOPIC'', partition = 42, offset = 99\<rparr>\<rparr>"

definition probe_batch :: "usize \<Rightarrow> event_batch" where
  "probe_batch z = EventBatch_new z [probe_event]"

text \<open>What the probe prints, up to the wording, and the exit code that goes with it.\<close>

datatype ('x, 'k) probe_report =
    Usage
  | UnknownSchema string
  | CannotBuild "'x error"
  | AcceptsSchema string write_outcome
  | RejectsSchema string "'k error"

datatype exit_code = SUCCESS | FAILURE

fun exit_code_of :: "('x, 'k) probe_report \<Rightarrow> exit_code" where
  "exit_code_of (AcceptsSchema _ _) = SUCCESS"
| "exit_code_of _ = FAILURE"

definition probe_schema :: "string list \<Rightarrow> (clickhouse_schema, string) result" where
  "probe_schema args =
     (if length args \<le> 2 \<or> args ! 2 = ''event'' then Ok SchemaEvent
      else if args ! 2 = ''json'' then Ok SchemaJson
      else Err (args ! 2))"

text \<open>
  \<open>main\<close>: the report and the calls made to the ClickHouse client. A panic of the write would be
  \<open>None\<close>; \<open>build\<close> makes no Kafka sink from this configuration.
\<close>

definition schema_probe ::
  "((string \<times> string) list \<Rightarrow> (unit, 'x) result) \<Rightarrow> usize \<Rightarrow> 'k ch_answers \<Rightarrow> (string \<rightharpoonup> string) \<Rightarrow> string list \<Rightarrow>
   (('x, 'k) probe_report \<times> ch_call list) option" where
  "schema_probe create z ans env args =
     (if length args \<le> 1 then Some (Usage, [])
      else
        let tbl = args ! 1 in
        case probe_schema args of
          Err other \<Rightarrow> Some (UnknownSchema other, [])
        | Ok sch \<Rightarrow>
            (case sink_build create ''probe'' (probe_config env tbl sch) of
               Err e \<Rightarrow> Some (CannotBuild e, [])
             | Ok (BuiltKafka _) \<Rightarrow> None
             | Ok (BuiltClickhouse sink) \<Rightarrow>
                 map_option (\<lambda>(r, calls, _).
                     (case r of Ok out \<Rightarrow> AcceptsSchema tbl out | Err e \<Rightarrow> RejectsSchema tbl e, calls))
                   (ch_write sink ans [probe_batch z])))"

lemma probe_payload_rejected: "object_body ''PROBE-PAYLOAD'' = Some (Err NotAnObject)"
  by code_simp

lemma schema_probe_json:
  assumes "1 < length args" "probe_schema args = Ok SchemaJson"
  shows "schema_probe create z ans env args = Some (AcceptsSchema (args ! 1) \<lparr>written = 0, dropped = 1\<rparr>, [])"
  using assms
  by (simp add: schema_probe_def sink_build_def probe_config_def ClickhouseSink_new_def Let_def
    ch_write_def write_json_rows_def probe_batch_def json_start_def WriteOutcome_default_def write_row_def
    probe_event_def probe_payload_rejected)

text \<open>The row the probe writes: a distinctive value for each of the seven columns.\<close>

lemma probe_row:
  "row_for probe_event = \<lparr>row_timestamp_ms = 1700000000123, row_source_component = ''PROBE-COMPONENT'',
     row_source_topic = ''PROBE-TOPIC'', row_source_partition = 42, row_source_offset = 99,
     row_key = ''PROBE-KEY'', row_payload = ''PROBE-PAYLOAD''\<rparr>"
  by (simp add: row_for_def probe_event_def)

lemma schema_probe_event:
  assumes "1 < length args" "probe_schema args = Ok SchemaEvent"
  shows "\<exists>rep calls. schema_probe create z ans env args = Some (rep, calls) \<and> calls \<noteq> [] \<and>
     prefix calls [Insert (args ! 1), Write_row (row_for probe_event), End_insert] \<and>
     (exit_code_of rep = SUCCESS \<longleftrightarrow>
        is_ok (ans [Insert (args ! 1)]) \<and> is_ok (ans [Insert (args ! 1), Write_row (row_for probe_event)]) \<and>
        is_ok (ans [Insert (args ! 1), Write_row (row_for probe_event), End_insert]))"
  using assms
  by (auto simp: schema_probe_def sink_build_def probe_config_def ClickhouseSink_new_def Let_def
    ch_write_def write_event_rows_def probe_batch_def call_def split: result.splits)

text \<open>The two ways to ask for a schema, and everything else.\<close>

lemma probe_schema_cases:
  "probe_schema args = Ok SchemaEvent \<longleftrightarrow> length args \<le> 2 \<or> args ! 2 = ''event''"
  "probe_schema args = Ok SchemaJson \<longleftrightarrow> 2 < length args \<and> args ! 2 = ''json''"
  by (auto simp: probe_schema_def)

lemma schema_probe_refuses:
  assumes "length args \<le> 1 \<or> 2 < length args \<and> args ! 2 \<noteq> ''event'' \<and> args ! 2 \<noteq> ''json''"
  shows "\<exists>rep. schema_probe create z ans env args = Some (rep, []) \<and> exit_code_of rep = FAILURE"
  using assms by (auto simp: schema_probe_def probe_schema_def)

section \<open>Properties\<close>

text \<open>
  C38: what the schema probe does for any command line and any behaviour of the server. Asked for the
  event schema, by name or by default, it sends at most the insert of one row with a distinctive
  value in each of the seven columns, and succeeds exactly when the insert, the row and the end
  of the insert were all accepted. Asked for \<open>json\<close> it always succeeds without calling the server,
  because its payload is not a JSON object and is dropped. Without a table or with any other schema
  it fails without a call. The example's own documentation and the README say otherwise of \<open>json\<close>:
  one real write is promised.
\<close>

theorem schema_probe_outcome:
  "\<exists>rep calls. schema_probe create z ans env args = Some (rep, calls) \<and>
    (let row = \<lparr>row_timestamp_ms = 1700000000123, row_source_component = ''PROBE-COMPONENT'',
           row_source_topic = ''PROBE-TOPIC'', row_source_partition = 42, row_source_offset = 99,
           row_key = ''PROBE-KEY'', row_payload = ''PROBE-PAYLOAD''\<rparr>;
         event = (length args = 2 \<or> 2 < length args \<and> args ! 2 = ''event'');
         json = (2 < length args \<and> args ! 2 = ''json'')
     in (exit_code_of rep = SUCCESS \<longleftrightarrow>
           event \<and> is_ok (ans [Insert (args ! 1)]) \<and> is_ok (ans [Insert (args ! 1), Write_row row]) \<and>
             is_ok (ans [Insert (args ! 1), Write_row row, End_insert]) \<or> json) \<and>
        (calls \<noteq> [] \<longleftrightarrow> event) \<and> prefix calls [Insert (args ! 1), Write_row row, End_insert] \<and>
        (json \<longrightarrow> rep = AcceptsSchema (args ! 1) \<lparr>written = 0, dropped = 1\<rparr>))"
proof -
  let ?event = "length args = 2 \<or> 2 < length args \<and> args ! 2 = ''event''"
  let ?json = "2 < length args \<and> args ! 2 = ''json''"
  consider (event) ?event | (json) ?json
    | (none) "length args \<le> 1 \<or> 2 < length args \<and> args ! 2 \<noteq> ''event'' \<and> args ! 2 \<noteq> ''json''" by linarith
  then show ?thesis
  proof cases
    case event
    then have "1 < length args" "probe_schema args = Ok SchemaEvent" "\<not> ?json" by (auto simp: probe_schema_cases)
    from schema_probe_event [OF this(1,2), of create z ans env] this(3) event show ?thesis
      unfolding probe_row by (auto simp: Let_def)
  next
    case json
    then have "1 < length args" "probe_schema args = Ok SchemaJson" by (auto simp: probe_schema_cases)
    from schema_probe_json [OF this, of create z ans env] json show ?thesis by (simp add: Let_def)
  next
    case none
    then have "\<not> ?event" "\<not> ?json" by auto
    with schema_probe_refuses [OF none, of create z ans env] show ?thesis by (auto simp: Let_def)
  qed
qed

theorem schema_probe_outcome_witness:
  "\<exists>rep calls. schema_probe (\<lambda>_. Ok () :: (unit, string) result) 96
       (\<lambda>h. if length h = 3 then Err ''no such column'' else Ok ()) Map.empty [''probe'', ''t'', ''event''] = Some (rep, calls) \<and>
     exit_code_of rep = FAILURE \<and> calls \<noteq> []"
  using schema_probe_outcome [of "\<lambda>_. Ok () :: (unit, string) result" 96
    "\<lambda>h. if length h = 3 then Err ''no such column'' else Ok ()" Map.empty "[''probe'', ''t'', ''event'']"]
  by (auto simp: Let_def) (metis exit_code.exhaust)

text \<open>
  The arena is an optimisation only: the batches normalised through the arena are equal to those with
  one allocation per field, and each round of the comparison handles all its messages.
\<close>

theorem arena_equals_per_message_copies:
  assumes "bytes_mut_laws ops"
  shows "ab_round ops z True = ab_round ops z False \<and>
    sum_list (map batch_len (ab_round ops z arena)) = AB_MESSAGES"
proof -
  note eq = ab_batches_arena [OF assms arena_inv_default [OF assms], of z _ "BatchBuffer_default ops"]
  then have "ab_round ops z arena = ab_round ops z False" by (cases arena) (simp_all add: ab_round_def)
  moreover have "sum_list (map batch_len (ab_round ops z False)) = AB_MESSAGES"
    unfolding ab_round_def ab_batches_len by (simp add: AB_MESSAGES_def AB_BATCH_def)
  ultimately show ?thesis using eq by (simp add: ab_round_def)
qed

theorem arena_equals_per_message_copies_witness:
  "ab_round list_bytes_mut 96 True = ab_round list_bytes_mut 96 False"
  using arena_equals_per_message_copies [OF list_bytes_mut_laws] by blast

end
