(* ===== verification/Unit_Tests.thy ===== *)
theory Unit_Tests
  imports Topology Fanout
begin

text \<open>
  The repository's unit tests, run on the model: each test whose assertions need no third-party code is a
  predicate with the test's name and inputs, and a lemma per module says that the model passes them. A
  test that fails in the code and passes here, or the other way round, would show a definition that is not
  what the code does. The general theorems are in the component theories.
\<close>

section \<open>event.rs\<close>

definition event_fixture :: "bytes \<Rightarrow> event" where
  "event_fixture p = \<lparr>key = None, payload = p, timestamp_ms = None,
     source = \<lparr>component_id = ''source'', topic = ''topic'', partition = 0, offset = 0\<rparr>\<rparr>"

definition arena_views_keep_their_own_contents :: "'m bytes_mut_ops \<Rightarrow> bool" where
  "arena_views_keep_their_own_contents ops \<longleftrightarrow>
     (let srcs = map (\<lambda>i. replicate 5 (char_of i)) [0..<8 :: nat];
          (_, views) = copy_all ops (with_chunk ops 16) srcs
      in list_all2 (\<lambda>i view. view = replicate 5 (char_of i)) [0..<8 :: nat] views)"

definition arena_handles_values_larger_than_a_chunk :: "'m bytes_mut_ops \<Rightarrow> bool" where
  "arena_handles_values_larger_than_a_chunk ops \<longleftrightarrow>
     (let big = replicate 100 (CHR 0x07);
          (buf, v) = copy ops (with_chunk ops 8) big;
          (_, w) = copy ops buf []
      in v = big \<and> w = [])"

definition batch_size_counts_payload_and_struct_overhead :: "usize \<Rightarrow> bool" where
  "batch_size_counts_payload_and_struct_overhead z \<longleftrightarrow>
     (let batch = EventBatch_new z [event_fixture ''abcd'', event_fixture ''ef'']
      in batch_len batch = 2 \<and> batch_bytes batch = wrap_usize (sum_list (map (estimated_size z) (batch_events batch))) \<and>
         6 < batch_bytes batch)"

lemma event_tests_pass:
  assumes "bytes_mut_laws ops"
  shows "arena_views_keep_their_own_contents ops" "arena_handles_values_larger_than_a_chunk ops"
    and "0 < z \<Longrightarrow> z < 2 ^ 62 \<Longrightarrow> batch_size_counts_payload_and_struct_overhead z"
proof -
  let ?srcs = "map (\<lambda>i. replicate 5 (char_of i)) [0..<8 :: nat]"
  obtain b vs where c: "copy_all ops (with_chunk ops 16) ?srcs = (b, vs)" by fastforce
  from copy_all_correct [OF assms _ c] assms have "vs = ?srcs" by simp
  with c show "arena_views_keep_their_own_contents ops"
    by (simp add: arena_views_keep_their_own_contents_def Let_def list_all2_conv_all_nth)
  obtain b v where c: "copy ops (with_chunk ops 8) (replicate 100 (CHR 0x07)) = (b, v)" by fastforce
  from copy_correct [OF assms _ c] assms c show "arena_handles_values_larger_than_a_chunk ops"
    by (simp add: arena_handles_values_larger_than_a_chunk_def copy_def [of ops b])
  show "batch_size_counts_payload_and_struct_overhead z" if "0 < z" "z < 2 ^ 62"
    using that by (simp add: batch_size_counts_payload_and_struct_overhead_def event_fixture_def estimated_size_def)
qed

section \<open>source/kafka.rs\<close>

definition source_event_fixture :: "string \<Rightarrow> i32 \<Rightarrow> i64 \<Rightarrow> event" where
  "source_event_fixture t p n = \<lparr>key = None, payload = ''x'', timestamp_ms = None,
     source = \<lparr>component_id = ''source'', topic = t, partition = p, offset = n\<rparr>\<rparr>"

definition next_offset_is_highest_consumed_offset_plus_one :: "(next_offset list, 'x) tpl_ops \<Rightarrow> bool" where
  "next_offset_is_highest_consumed_offset_plus_one T \<longleftrightarrow>
     (case offsets_for T [source_event_fixture ''a'' 0 10, source_event_fixture ''a'' 0 12,
         source_event_fixture ''a'' 1 5, source_event_fixture ''b'' 0 3] of
        Err _ \<Rightarrow> False
      | Ok l \<Rightarrow> tpl_find T l ''a'' 0 = Some 13 \<and> tpl_find T l ''a'' 1 = Some 6 \<and> tpl_find T l ''b'' 0 = Some 4)"

definition out_of_order_offsets_never_move_a_commit_backwards :: "(next_offset list, 'x) tpl_ops \<Rightarrow> bool" where
  "out_of_order_offsets_never_move_a_commit_backwards T \<longleftrightarrow>
     (case offsets_for T [source_event_fixture ''a'' 0 12, source_event_fixture ''a'' 0 4,
         source_event_fixture ''a'' 0 9] of
        Err _ \<Rightarrow> False
      | Ok l \<Rightarrow> tpl_find T l ''a'' 0 = Some 13)"

definition empty_events_yield_no_offsets :: "('l, 'x) tpl_ops \<Rightarrow> bool" where
  "empty_events_yield_no_offsets T \<longleftrightarrow> offsets_for T [] = Ok (tpl_new T)"

definition topic_cache_returns_one_shared_arc_per_topic :: bool where
  "topic_cache_returns_one_shared_arc_per_topic \<longleftrightarrow>
     (let (first, s) = intern ''a'' (0, TopicCache_default); (second, s) = intern ''a'' s;
          (other, s) = intern ''b'' s; (first_again, s) = intern ''a'' s
      in arc_addr first = arc_addr second \<and> arc_addr first = arc_addr first_again \<and> arc_text other = ''b'')"

lemma source_tests_pass:
  "next_offset_is_highest_consumed_offset_plus_one list_tpl"
  "out_of_order_offsets_never_move_a_commit_backwards list_tpl"
  "empty_events_yield_no_offsets T"
  "topic_cache_returns_one_shared_arc_per_topic"
  by (simp_all add: next_offset_is_highest_consumed_offset_plus_one_def
    out_of_order_offsets_never_move_a_commit_backwards_def empty_events_yield_no_offsets_def
    topic_cache_returns_one_shared_arc_per_topic_def source_event_fixture_def offsets_for_def next_offsets_def
    list_tpl_def wrap_i64_def intern_def TopicCache_default_def Let_def)

section \<open>sink/kafka.rs\<close>

text \<open>A settlement wakes the waiting write when its second component is true; \<open>done.await\<close> then returns.\<close>

definition a_write_completes_once_every_record_is_settled :: bool where
  "a_write_completes_once_every_record_is_settled \<longleftrightarrow>
     (let (s, d1) = settle (1, None) (BatchTracker_new 3); (s, d2) = settle (1, None) s;
          (s, d3) = settle (1, None) s
      in (d1 \<or> d2 \<or> d3) \<and> fst (take_error s) = (None :: string option))"

definition the_first_delivery_error_is_reported :: bool where
  "the_first_delivery_error_is_reported \<longleftrightarrow>
     (let (s, d1) = settle (1, Some ''Message timed out'') (BatchTracker_new 3);
          (s, d2) = settle (1, Some ''Queue full'') s; (s, d3) = settle (1, None) s
      in (d1 \<or> d2 \<or> d3) \<and> fst (take_error s) = Some ''Message timed out'')"

definition abandoned_records_still_release_the_write :: bool where
  "abandoned_records_still_release_the_write \<longleftrightarrow>
     (let (s, d1) = settle (4, None :: string option) (BatchTracker_new 10); (s, d2) = settle (6, None) s in d1 \<or> d2)"

lemma tracker_tests_pass:
  "a_write_completes_once_every_record_is_settled"
  "the_first_delivery_error_is_reported"
  "abandoned_records_still_release_the_write"
  by (simp_all add: a_write_completes_once_every_record_is_settled_def the_first_delivery_error_is_reported_def
    abandoned_records_still_release_the_write_def settle_def record_error_def take_error_def BatchTracker_new_def)

section \<open>sink/mod.rs\<close>

text \<open>The sink of these tests fails until it has been called often enough; its state is the number of calls.\<close>

definition flaky_write :: "nat \<Rightarrow> event_batch list \<Rightarrow> nat \<Rightarrow> (write_outcome, string) result \<times> nat" where
  "flaky_write fail_until bs attempts =
     (let attempt = attempts + 1 in
      if attempt \<le> fail_until then (Err (''transient failure '' @ nat_to_string attempt), attempt)
      else (Ok (WriteOutcome_written (sum_list (map (\<lambda>b. of_nat (batch_len b)) bs))), attempt))"

definition retry_settings :: "u32 \<Rightarrow> delivery_settings" where
  "retry_settings max_attempts = \<lparr>max_concurrent_writes = 1, retry_max_attempts = max_attempts,
     retry_initial_backoff = 1000000, retry_max_backoff = 2000000\<rparr>"

definition retry_batch :: "usize \<Rightarrow> event_batch list" where
  "retry_batch z = [EventBatch_new z [\<lparr>key = None, payload = ''x'', timestamp_ms = None,
     source = \<lparr>component_id = ''s'', topic = ''t'', partition = 0, offset = 0\<rparr>\<rparr>]]"

definition transient_failures_are_retried :: "usize \<Rightarrow> bool" where
  "transient_failures_are_retried z \<longleftrightarrow>
     (case write_with_retry (flaky_write 2 (retry_batch z)) (retry_settings 5) SinkMetrics_default 0 of
        Some (Ok outcome, m, attempts, _) \<Rightarrow>
          attempts = 3 \<and> outcome = WriteOutcome_written 1 \<and> retries m = 2 \<and> write_errors m = 0
      | _ \<Rightarrow> False)"

definition exhausted_retries_surface_the_error :: "usize \<Rightarrow> bool" where
  "exhausted_retries_surface_the_error z \<longleftrightarrow>
     (case write_with_retry (flaky_write usize_MAX (retry_batch z)) (retry_settings 3) SinkMetrics_default 0 of
        Some (Err e, m, attempts, _) \<Rightarrow>
          attempts = 3 \<and> sublist ''transient failure 3'' e \<and> retries m = 2 \<and> write_errors m = 1
      | _ \<Rightarrow> False)"

lemma three: "nat_to_string (Suc (Suc (Suc 0))) = ''3''"
  by code_simp

lemma retry_tests_pass: "transient_failures_are_retried z" "exhausted_retries_surface_the_error z"
  by (simp_all add: transient_failures_are_retried_def exhausted_retries_surface_the_error_def write_with_retry_def
    retry_loop.simps flaky_write_def retry_batch_def retry_settings_def after_attempt_def SinkMetrics_default_def
    WriteOutcome_written_def usize_MAX_def three)

section \<open>topology.rs\<close>

text \<open>
  One schedule of each test: the sends are accepted, the test completes the envelopes, and the result
  of \<open>send\<close> is looked at where the test looks at it.
\<close>

definition waits_for_every_fanout_branch :: bool where
  "waits_for_every_fanout_branch \<longleftrightarrow>
     (case run send_step (send_start 2) [Enqueue 0, Enqueue 1, Complete 0 True, Lock 0] of
        None \<Rightarrow> False
      | Some s \<Rightarrow> (send_result s :: (unit, string error) result option) = None \<and>
          (case run send_step s [Complete 1 True, Lock 1] of
             None \<Rightarrow> False
           | Some t \<Rightarrow> (send_result t :: (unit, string error) result option) = Some (Ok ())))"

definition one_failed_branch_rejects_the_batch :: bool where
  "one_failed_branch_rejects_the_batch \<longleftrightarrow>
     (case run send_step (send_start 2) [Enqueue 0, Enqueue 1, Complete 0 True, Lock 0, Complete 1 False, Lock 1] of
        None \<Rightarrow> False
      | Some s \<Rightarrow> map_option is_ok (send_result s :: (unit, string error) result option) = Some False)"

definition a_dropped_envelope_fails_the_batch :: bool where
  "a_dropped_envelope_fails_the_batch \<longleftrightarrow>
     (case run send_step (send_start 1) [Enqueue 0, Complete 0 False, Lock 0] of
        None \<Rightarrow> False
      | Some s \<Rightarrow> map_option is_ok (send_result s :: (unit, string error) result option) = Some False)"

lemma fanout_tests_pass:
  "waits_for_every_fanout_branch" "one_failed_branch_rejects_the_batch" "a_dropped_envelope_fails_the_batch"
  by (simp_all add: waits_for_every_fanout_branch_def one_failed_branch_rejects_the_batch_def
    a_dropped_envelope_fails_the_batch_def send_step_def send_start_def AckState_new_def set_branch_def
    complete_swap_def lock_branch_def complete_locked_def send_result_def numeral_2_eq_2)

section \<open>metrics.rs\<close>

text \<open>
  Floating-point numbers are rationals here, exact for the values of these tests; a second is
  1000000000 ns. \<open>store\<close> replaces a counter of a registered component.
\<close>

definition rat_ops :: "rat f64_ops" where
  "rat_ops = \<lparr>u64_as_f64 = (\<lambda>n. of_nat (unat n)), f64_div = (/), f64_zero = 0, f64_gt_zero = (\<lambda>x. 0 < x),
     as_secs_f64 = (\<lambda>d. of_nat d / 1000000000)\<rparr>"

definition metrics_fixture :: metrics where
  "metrics_fixture = Metrics_new [''src''] [''a'', ''b'']"

definition store_source :: "string \<Rightarrow> (source_metrics \<Rightarrow> source_metrics) \<Rightarrow> metrics \<Rightarrow> metrics" where
  "store_source sid f m = m\<lparr>metric_sources := map (\<lambda>(k, c). (k, if k = sid then f c else c)) (metric_sources m)\<rparr>"

definition store_sink :: "string \<Rightarrow> (sink_metrics \<Rightarrow> sink_metrics) \<Rightarrow> metrics \<Rightarrow> metrics" where
  "store_sink sid f m = m\<lparr>metric_sinks := map (\<lambda>(k, c). (k, if k = sid then f c else c)) (metric_sinks m)\<rparr>"

definition rates_come_from_the_delta_not_the_running_total :: "duration \<Rightarrow> bool" where
  "rates_come_from_the_delta_not_the_running_total now \<longleftrightarrow>
     (let m = store_source ''src'' (\<lambda>c. c\<lparr>events_in := 1000\<rparr>) metrics_fixture;
          first = metrics_snapshot now m;
          m = store_source ''src'' (\<lambda>c. c\<lparr>events_in := 11000\<rparr>) m;
          second = (metrics_snapshot now m)\<lparr>taken_at := taken_at first + 2000000000\<rparr>;
          rates = rates_since rat_ops second first
      in map_option sr_events_per_second (bt_get (rate_sources rates) ''src'') = Some 5000 \<and>
         map_option sr_events_total (bt_get (rate_sources rates) ''src'') = Some 11000)"

definition a_zero_length_interval_reports_zero_instead_of_dividing_by_zero :: "duration \<Rightarrow> bool" where
  "a_zero_length_interval_reports_zero_instead_of_dividing_by_zero now \<longleftrightarrow>
     (let first = metrics_snapshot now metrics_fixture;
          m = store_source ''src'' (\<lambda>c. c\<lparr>events_in := 500\<rparr>) metrics_fixture;
          second = (metrics_snapshot now m)\<lparr>taken_at := taken_at first\<rparr>;
          rates = rates_since rat_ops second first
      in map_option sr_events_per_second (bt_get (rate_sources rates) ''src'') = Some 0 \<and> elapsed rates = 0)"

definition snapshots_passed_in_the_wrong_order_do_not_panic :: "duration \<Rightarrow> bool" where
  "snapshots_passed_in_the_wrong_order_do_not_panic now \<longleftrightarrow>
     (let m = store_sink ''a'' (\<lambda>c. c\<lparr>events_out := 10\<rparr>) metrics_fixture;
          later = metrics_snapshot now m;
          m = store_sink ''a'' (\<lambda>c. c\<lparr>events_out := 0\<rparr>) m;
          earlier = (metrics_snapshot now m)\<lparr>taken_at := taken_at later + 1000000000\<rparr>
      in map_option kr_events_per_second (bt_get (rate_sinks (rates_since rat_ops earlier later)) ''a'') = Some 0)"

definition dropped_rows_are_reported_separately_from_written_ones :: "duration \<Rightarrow> bool" where
  "dropped_rows_are_reported_separately_from_written_ones now \<longleftrightarrow>
     (let first = metrics_snapshot now metrics_fixture;
          m = store_sink ''a'' (\<lambda>c. c\<lparr>events_dropped := 10\<rparr>)
            (store_sink ''a'' (\<lambda>c. c\<lparr>events_out := 90\<rparr>) metrics_fixture);
          second = (metrics_snapshot now m)\<lparr>taken_at := taken_at first + 1000000000\<rparr>;
          rates = bt_get (rate_sinks (rates_since rat_ops second first)) ''a''
      in map_option kr_events_per_second rates = Some 90 \<and> map_option kr_dropped_per_second rates = Some 10 \<and>
         map_option kr_dropped_total rates = Some 10)"

definition every_exposed_series_name_is_unique :: bool where
  "every_exposed_series_name_is_unique \<longleftrightarrow>
     (let names = map fst SOURCE_SERIES @ map fst SINK_SERIES in length (remdups names) = length names)"

definition an_unregistered_component_is_a_wiring_bug :: bool where
  "an_unregistered_component_is_a_wiring_bug \<longleftrightarrow> metrics_sink metrics_fixture ''nope'' = None"

lemma metrics_fixture_eq:
  "metrics_fixture = \<lparr>metric_sources = [(''src'', SourceMetrics_default)],
     metric_sinks = [(''a'', SinkMetrics_default), (''b'', SinkMetrics_default)]\<rparr>"
  by (simp add: metrics_fixture_def Metrics_new_def bt_collect_def less_char_def)

lemma metrics_tests_pass:
  "rates_come_from_the_delta_not_the_running_total now"
  "a_zero_length_interval_reports_zero_instead_of_dividing_by_zero now"
  "snapshots_passed_in_the_wrong_order_do_not_panic now"
  "dropped_rows_are_reported_separately_from_written_ones now"
  "every_exposed_series_name_is_unique"
  "an_unregistered_component_is_a_wiring_bug"
  by (simp_all add: rates_come_from_the_delta_not_the_running_total_def
    a_zero_length_interval_reports_zero_instead_of_dividing_by_zero_def
    snapshots_passed_in_the_wrong_order_do_not_panic_def dropped_rows_are_reported_separately_from_written_ones_def
    every_exposed_series_name_is_unique_def an_unregistered_component_is_a_wiring_bug_def
    metrics_fixture_eq store_source_def store_sink_def metrics_snapshot_def rates_since_def source_rates_since_def
    sink_rates_since_def per_second_def rat_ops_def Let_def bt_get_def bt_collect_def unwrap_or_def load_source_def
    load_sink_def SourceMetrics_default_def SinkMetrics_default_def u64_saturating_sub_def metrics_sink_def
    SOURCE_SERIES_def SINK_SERIES_def less_char_def)

section \<open>config.rs\<close>

text \<open>What serde makes of the \<open>MINIMAL\<close> text: the required keys given, every other at its default.\<close>

definition MINIMAL :: config where
  "MINIMAL = \<lparr>cfg_sources = [(''in'', SourceKafka (kafka_source_required ''localhost:9092'' ''router'' [''input'']))],
     cfg_sinks = [(''out'', SinkKafka (kafka_sink_required [''in''] ''localhost:9092'' ''output''))],
     cfg_metrics = MetricsConfig_default\<rparr>"

definition parses_vector_style_topology :: bool where
  "parses_vector_style_topology \<longleftrightarrow> validate MINIMAL = Ok () \<and> length (cfg_sources MINIMAL) = 1 \<and>
     map_option sink_buffer_capacity (map_of (cfg_sinks MINIMAL) ''out'') = Some 32"

definition delivery_defaults_preserve_sequential_ordering :: bool where
  "delivery_defaults_preserve_sequential_ordering \<longleftrightarrow>
     (case map_of (cfg_sinks MINIMAL) ''out'' of
        None \<Rightarrow> False
      | Some sink \<Rightarrow> max_concurrent_writes (runtime_settings sink) = 1 \<and> retry_max_attempts (runtime_settings sink) = 5)"

definition backwards_backoff_window_is_rejected :: bool where
  "backwards_backoff_window_is_rejected \<longleftrightarrow>
     \<not> is_ok (validate (MINIMAL\<lparr>cfg_sinks := [(''out'', SinkKafka ((kafka_sink_required [''in''] ''localhost:9092''
        ''output'')\<lparr>kk_retry_initial_backoff_ms := 9000\<rparr>))]\<rparr>))"

lemma config_tests_pass:
  "parses_vector_style_topology" "delivery_defaults_preserve_sequential_ordering" "backwards_backoff_window_is_rejected"
  by (simp_all add: parses_vector_style_topology_def delivery_defaults_preserve_sequential_ordering_def
    backwards_backoff_window_is_rejected_def MINIMAL_def validate_def validate_sink_def contains_key_def
    kafka_sink_required_def kafka_source_required_def from_millis_def default_defs)

section \<open>sink/clickhouse/json.rs\<close>

text \<open>
  Where a test asks a JSON parser whether a row is valid, the row's bytes are compared instead;
  that every row is a JSON object is proved in theory Json.
\<close>

definition json_event_fixture :: "bytes \<Rightarrow> event" where
  "json_event_fixture p = \<lparr>key = Some ''k1'', payload = p, timestamp_ms = Some 1700000000123,
     source = \<lparr>component_id = ''src'', topic = ''orders'', partition = 3, offset = 42\<rparr>\<rparr>"

text \<open>The row of a payload, or why it was rejected; the outer \<open>None\<close> would be a panic.\<close>

definition json_row :: "bytes \<Rightarrow> metadata_columns \<Rightarrow> (bytes, rejection) result option" where
  "json_row p m = map_option (\<lambda>(out, r). bind_result r (\<lambda>_. Ok out)) (write_row [] (json_event_fixture p) m)"

definition no_metadata :: metadata_columns where
  "no_metadata = \<lparr>mc_topic = None, mc_partition = None, mc_offset = None, mc_timestamp = None, mc_key = None\<rparr>"

definition all_metadata :: metadata_columns where
  "all_metadata = \<lparr>mc_topic = Some ''_topic'', mc_partition = Some ''_partition'', mc_offset = Some ''_offset'',
     mc_timestamp = Some ''_ts'', mc_key = Some ''_key''\<rparr>"

definition non_objects_are_rejected_rather_than_corrupting_the_batch :: bool where
  "non_objects_are_rejected_rather_than_corrupting_the_batch \<longleftrightarrow>
     json_row [] all_metadata = Some (Err Empty) \<and>
     json_row (''   '' @ [CHR 0x0A] @ '' '') all_metadata = Some (Err Empty) \<and>
     json_row ''not json'' all_metadata = Some (Err NotAnObject) \<and>
     json_row ''[1,2,3]'' all_metadata = Some (Err NotAnObject) \<and>
     json_row ([CHR 0x22] @ ''a string'' @ [CHR 0x22]) all_metadata = Some (Err NotAnObject) \<and>
     json_row (''{'' @ [CHR 0x22] @ ''a'' @ [CHR 0x22] @ '':1'') all_metadata = Some (Err NotAnObject)"

definition without_metadata_the_payload_passes_through :: bool where
  "without_metadata_the_payload_passes_through \<longleftrightarrow>
     (let q = [CHR 0x22]; p = ''{'' @ q @ ''a'' @ q @ '':1,'' @ q @ ''b'' @ q @ '':'' @ q @ ''x'' @ q @ ''}''
      in json_row p no_metadata = Some (Ok (p @ [CHR 0x0A])))"

definition rows_accumulate_into_one_buffer :: bool where
  "rows_accumulate_into_one_buffer \<longleftrightarrow>
     (let q = [CHR 0x22]; r1 = ''{'' @ q @ ''a'' @ q @ '':1}''; r2 = ''{'' @ q @ ''a'' @ q @ '':2}'' in
      case write_row [] (json_event_fixture r1) no_metadata of
        Some (out, Ok _) \<Rightarrow> write_row out (json_event_fixture r2) no_metadata =
          Some (r1 @ [CHR 0x0A] @ r2 @ [CHR 0x0A], Ok ())
      | _ \<Rightarrow> False)"

lemma json_tests_pass:
  "non_objects_are_rejected_rather_than_corrupting_the_batch" "without_metadata_the_payload_passes_through"
  "rows_accumulate_into_one_buffer"
  by code_simp+

end
