(* ===== verification/Spec2Isabelle.thy ===== *)
theory Spec2Isabelle
  imports Pipeline Source_Progress Source_Types Benchmark Tools Unit_Tests
begin

text \<open>
  A verification development for rustper, a Kafka fan-out router written in Rust
  (\<open>src/src/\<close>). One source consumes Kafka messages, normalises them into events and cuts
  them into batches; every batch is handed to all sinks that list the source as an input; the
  source commits the offsets of the contiguous prefix of batches that every one of its sinks
  has acknowledged. The promise is at-least-once delivery.

  \<^bold>\<open>Parts and theories.\<close> The theories follow the source files, from the bottom up.

  \<^item> \<open>Prelude\<close>: results and \<open>anyhow\<close> errors, runs of labelled step functions with their
    invariants (locale \<open>step_invariant\<close>), the countdown latch shared by the two places where the
    code counts down to a single notification (locale \<open>latch\<close>), lists and 64-bit words.
  \<^item> \<open>Std_Text\<close>, \<open>BTree\<close>: what the code uses of Rust's standard library, namely decimal,
    hexadecimal and debug printing, UTF-8 decoding, and \<open>BTreeMap\<close> as a sorted list.
  \<^item> \<open>Event\<close> (\<open>event.rs\<close>): events, batches with their byte counts, and the \<open>BatchBuffer\<close> arena:
    copies are faithful and allocations bounded.
  \<^item> \<open>Config\<close> (\<open>config.rs\<close>): the structs with their defaults, accessors, \<open>load\<close> and \<open>validate\<close>,
    which accepts exactly the valid configurations and reports real defects.
  \<^item> \<open>Metrics\<close> (\<open>metrics.rs\<close>, \<open>metrics/server.rs\<close>): counters, snapshots, rates, the Prometheus text
    and a reader of it, the reporter loop and the endpoint, which no failed connection ends.
  \<^item> \<open>Fanout\<close> (\<open>topology.rs\<close>, \<open>AckState\<close> to \<open>Fanout::send\<close>): the acknowledgement protocol at the
    granularity of its atomic actions. A send returns \<open>Ok\<close> exactly when every branch was
    delivered, notifies once, and never gets stuck.
  \<^item> \<open>Sink_Runtime\<close> (\<open>sink/mod.rs\<close>): \<open>write_with_retry\<close> and the sink task. It loses no envelope,
    completes none twice, calls one delivered only after a successful write, keeps to its
    limits, and can always be shut down. The locale \<open>sink_contract\<close> states what the accounting
    needs of a sink and is interpreted for both sinks and the benchmark's.
  \<^item> \<open>Kafka_Sink\<close> (\<open>sink/kafka.rs\<close>): the delivery tracker, atomically and as interleaved callbacks,
    the queue-full loop and \<open>write_batches\<close>.
  \<^item> \<open>Json\<close>, \<open>Clickhouse_Sink\<close> (\<open>sink/clickhouse/json.rs\<close>, \<open>sink/clickhouse/mod.rs\<close>): building JSON
    rows, proved against a grammar of RFC 8259, and the two write modes.
  \<^item> \<open>Kafka_Source\<close> (\<open>source/kafka.rs\<close>): the topic cache, decoding, offsets, the contiguous commit and
    the source task.
  \<^item> \<open>Source_Progress\<close>: no dispatched batch is left uncommitted once its sends succeed.
  \<^item> \<open>Source_Types\<close>: positions, byte counts and collection sizes of a reachable source state fit
    their Rust types and the configured limits.
  \<^item> \<open>Topology\<close> (\<open>topology.rs\<close>, \<open>run\<close>; \<open>source/mod.rs\<close>; \<open>build\<close> of \<open>sink/mod.rs\<close>; \<open>main.rs\<close>): loading the
    configuration, building and wiring the components, and supervising the tasks until shutdown.
  \<^item> \<open>Pipeline\<close>: the source, its sends and its sinks composed into one step system.
  \<^item> \<open>Benchmark\<close> (\<open>bin/benchmark.rs\<close>): the counting sink, the load, which is complete, and the
    window of sends.
  \<^item> \<open>Tools\<close> (\<open>bin/kafka_load.rs\<close>, \<open>examples/\<close>): the load generator, the comparison of the arena with one
    allocation per field, which yield the same batches, and the schema probe and what its
    exit code means.
  \<^item> \<open>Unit_Tests\<close>: the repository's unit tests as predicates that the model passes.

  \<^bold>\<open>Tasks and time.\<close> An asynchronous task is a state record and a partial step function: a
  label is one poll of the task, or something its environment does to it (a message arrives,
  a write attempt ends, a timer fires, the process is interrupted). Theorems quantify over all
  label sequences, so over all schedules. A \<open>biased\<close> \<open>select!\<close> is evaluated in source order
  inside a poll; for an unbiased one the label chooses the branch. History fields of the
  states record what happened and are never read by the steps.

  \<^bold>\<open>Parameters.\<close> Third-party code is an argument of the definitions that use it: \<open>BytesMut\<close>
  (\<open>bytes_mut_laws\<close>: a copy yields the bytes copied), librdkafka's partition list (\<open>tpl_laws\<close>), its
  consumer, its producer and the clock (\<open>clock_laws\<close>: time does not run backwards and a sleep
  lasts as long as asked), the ClickHouse client (an arbitrary function of the calls made so
  far), client creation, \<open>mpsc::channel\<close> (it panics on a capacity of 0 or above \<open>MAX_PERMITS\<close>, as
  tokio documents), and floating-point arithmetic in the rates. Each hypothesis about them is
  satisfied by a concrete instance in a witness.

  \<^bold>\<open>Bounds.\<close> \<open>u64\<close> counters are 64-bit words and wrap. \<open>usize\<close> values and durations are natural
  numbers: the byte counts of events and batches and \<open>fetch_sub\<close> wrap at \<open>2 ^ 64\<close>, the in-flight byte
  counter saturates as the code has it, and the event and byte counts a sink adds up while it
  coalesces a group are taken to be exact. Sequence numbers are 64-bit
  words; theorems that need them distinct assume fewer than \<open>2 ^ 64\<close> batches. Loops are total
  functions with termination proofs, except the queue-full loop, which may run forever under
  a broken clock and is an \<open>option\<close>-valued partial function proved to return.

  \<^bold>\<open>Here.\<close> This theory holds the two properties of the whole: messages below a committed offset
  were written by every sink, and the pipeline refines an abstract at-least-once queue.

  \<^bold>\<open>Not modelled.\<close> Reading a file, parsing TOML and the HTTP protocol (parameters, or inputs of the
  model), log output, memory allocation, the internals of the tokio scheduler and of JoinSet beyond
  what a task's owner observes, panics inside spawned tasks other than as an error of the
  task, the timing and printing of the tools, \<open>lib.rs\<close> (module list), the integration tests
  under \<open>tests/\<close>, which run what the theorems about \<open>Fanout\<close> and \<open>Sink_Runtime\<close> state for every
  schedule, and the unit tests that ask a JSON or TOML parser.
\<close>

section \<open>A small pipeline\<close>

definition demo_sink_env :: "((write_outcome, string) result, string) sink_env" where
  "demo_sink_env = \<lparr>sk_write = (\<lambda>r bs. Some r), sk_batching = \<lparr>max_events = 1, max_bytes = 9, linger = 0\<rparr>,
     sk_settings = \<lparr>max_concurrent_writes = 1, retry_max_attempts = 1, retry_initial_backoff = 0, retry_max_backoff = 0\<rparr>,
     sk_capacity = 1\<rparr>"

definition demo_pipeline_run :: "(string, (write_outcome, string) result) pipeline_event list" where
  "demo_pipeline_run = [AtSource (Arrive (Ok (demo_message 7))), AtSource (SrcPoll 0 0), Accept 0 0,
     AtSink 0 (Poll 0), AtSink 0 (Poll 0), AtSink 0 (Poll 0), AtSink 0 (Attempt 0 (Ok (WriteOutcome_written 1))),
     AtSend 0 (Lock 0), SendReturns 0, AtSource (SrcPoll 0 0)]"

lemma demo_pipeline_exec:
  obtains s where
    "run (pipeline_step demo_env [demo_sink_env])
       (pipeline_start demo_env (length [demo_sink_env]) 0 [] SourceMetrics_default) demo_pipeline_run = Some s"
    "length (batches (p_source s)) = 1" "consumed (p_source s) = [demo_message 7]"
    "map bc_offsets (commit_log (p_source s)) = [[(''t'', 0, 8)]]"
  unfolding demo_pipeline_run_def pipeline_start_def
  by (simp add: pipeline_step_def push_to_def sink_step_def envelope_for_def run_exec source_exec send_exec
    send_result_def demo_env_def demo_message_def demo_sink_env_def SourceMetrics_default_def Let_def)

section \<open>Properties of the whole\<close>

text \<open>
  C1: at-least-once delivery, end to end: when an offset of a partition has been committed, every
  message consumed from that partition below it was written by every sink the source feeds:
  it is in a batch, and earlier in the run each sink made a write attempt on a group of
  envelopes containing that batch which returned \<open>Ok\<close>. This holds for every interleaving of
  the source, the sends and the sinks, every order of completions, every failure and every
  traffic from other sources.
\<close>

theorem committed_messages_were_written_by_every_sink:
  assumes run: "run (pipeline_step E Ks) (pipeline_start E (length Ks) now con m0) ls = Some s"
    and laws: "bytes_mut_laws (se_bytes E)" "tpl_laws (se_tpl E)" "0 < ks_batch_size (se_config E)"
    and order: "partition_ordered (consumed (p_source s))"
      "\<forall>m \<in> set (consumed (p_source s)). is_i64 (msg_offset m + 1)"
    and bound: "length (batches (p_source s)) < 2 ^ 64"
    and c: "c \<in> set (commit_log (p_source s))" "tpl_find (se_tpl E) (bc_offsets c) t p = Some n"
    and m: "m \<in> set (consumed (p_source s))" "msg_topic m = t" "msg_partition m = p" "msg_offset m < n"
    and k: "k < length Ks"
  shows "\<exists>b < length (batches (p_source s)). event_of (se_id E) m \<in> set (batches (p_source s) ! b) \<and>
    (\<exists>ls1 j x ls2 s1 out. ls = ls1 @ AtSink k (Attempt j x) # ls2 \<and>
      run (pipeline_step E Ks) (pipeline_start E (length Ks) now con m0) ls1 = Some s1 \<and>
      j < length (running (p_sinks s1 ! k)) \<and>
      (let g = task_envelopes (running (p_sinks s1 ! k) ! j) in
         envelope_for E (batches (p_source s)) b \<in> set g \<and>
         sk_write (Ks ! k) x (map env_batch g) = Some (Ok out)))"
proof -
  note inv = pipeline_reachable [OF run]
  then have w: "wired E Ks (source_start E now con m0) s" by (simp add: pipeline_inv_def)
  then have k': "k < length (p_sinks s)" using k by (simp add: wired_def)
  from w obtain ls' where r: "run (source_step E) (source_start E now con m0) ls' = Some (p_source s)"
    by (auto simp: wired_def reaches_def)
  from committed_offset_covers [OF r laws order bound c m] obtain b where
    b: "b < length (commit_log (p_source s))" "event_of (se_id E) m \<in> set (batches (p_source s) ! b)" by blast
  from wired_ordered [OF w] bound b(1) have "b < length (batches (p_source s))"
    by (simp add: ordered_def in_order_def)
  moreover
  from committed_delivered [OF inv bound b(1) k']
  have d: "(envelope_for E (batches (p_source s)) b, True) \<in> set (acks (p_sinks s ! k))" .
  note start = pipeline_start_inv [of E Ks now con m0, unfolded pipeline_inv_def]
  from pipeline_delivery_traced [OF run _ d _ start [THEN conjunct1] start [THEN conjunct2, THEN conjunct1]] k
  have "\<exists>ls1 j x ls2 s1 out. ls = ls1 @ AtSink k (Attempt j x) # ls2 \<and>
      run (pipeline_step E Ks) (pipeline_start E (length Ks) now con m0) ls1 = Some s1 \<and>
      j < length (running (p_sinks s1 ! k)) \<and>
      envelope_for E (batches (p_source s)) b \<in> set (task_envelopes (running (p_sinks s1 ! k) ! j)) \<and>
      sk_write (Ks ! k) x (map env_batch (task_envelopes (running (p_sinks s1 ! k) ! j))) = Some (Ok out)"
    by (simp add: pipeline_start_def run_start_def)
  ultimately show ?thesis using b(2) unfolding Let_def by blast
qed

theorem committed_messages_were_written_by_every_sink_witness:
  "\<exists>ls1 j x ls2. demo_pipeline_run = ls1 @ AtSink 0 (Attempt j x) # ls2"
proof -
  obtain s where s: "run (pipeline_step demo_env [demo_sink_env])
       (pipeline_start demo_env (length [demo_sink_env]) 0 [] SourceMetrics_default) demo_pipeline_run = Some s"
    "length (batches (p_source s)) = 1" "consumed (p_source s) = [demo_message 7]"
    "map bc_offsets (commit_log (p_source s)) = [[(''t'', 0, 8)]]"
    by (rule demo_pipeline_exec)
  from s(4) obtain c where c: "commit_log (p_source s) = [c]" "bc_offsets c = [(''t'', 0, 8)]"
    by (auto simp: map_eq_Cons_conv)
  have "partition_ordered [demo_message 7]" "\<forall>m \<in> set [demo_message 7]. is_i64 (msg_offset m + 1)"
    by (simp_all add: partition_ordered_def demo_message_def is_i64_def)
  then have "\<exists>b < length (batches (p_source s)).
      event_of (se_id demo_env) (demo_message 7) \<in> set (batches (p_source s) ! b) \<and>
    (\<exists>ls1 j x ls2 s1 out. demo_pipeline_run = ls1 @ AtSink 0 (Attempt j x) # ls2 \<and>
      run (pipeline_step demo_env [demo_sink_env])
        (pipeline_start demo_env (length [demo_sink_env]) 0 [] SourceMetrics_default) ls1 = Some s1 \<and>
      j < length (running (p_sinks s1 ! 0)) \<and>
      (let g = task_envelopes (running (p_sinks s1 ! 0) ! j) in
         envelope_for demo_env (batches (p_source s)) b \<in> set g \<and>
         sk_write ([demo_sink_env] ! 0) x (map env_batch g) = Some (Ok out)))"
    using s(2,3) c
    by (intro committed_messages_were_written_by_every_sink [OF s(1) demo_env_laws, where c = c and t = "''t''" and p = 0 and n = 8])
      (simp_all add: demo_env_def list_tpl_def demo_message_def)
  then show ?thesis by blast
qed

text \<open>
  C2: the pipeline implements the abstract at-least-once queue: under the abstraction that keeps
  only the number of committed batches and which batch was acknowledged by which sink, every
  run of the pipeline is a run of the specification, in which batches are committed in order
  and only once every sink has them.
\<close>

theorem pipeline_refines_at_least_once:
  assumes "run (pipeline_step E Ks) (pipeline_start E (length Ks) now con m) ls = Some s"
    and "length (batches (p_source s)) < 2 ^ 64"
  shows "(at_least_once (length Ks))\<^sup>*\<^sup>* (0, {}) (abstraction E s)"
  using assms
proof (induction ls arbitrary: s rule: rev_induct)
  case Nil
  then show ?case by (auto simp: abstraction_def pipeline_start_def source_start_def)
next
  case (snoc ev ls)
  from snoc.prems(1) obtain s' where s': "run (pipeline_step E Ks) (pipeline_start E (length Ks) now con m) ls = Some s'"
    "pipeline_step E Ks s' ev = Some s" by (rule run_snoc_SomeE)
  note inv = pipeline_reachable [OF s'(1)]
  from inv have "wired E Ks (source_start E now con m) s'" "owned E s'" by (simp_all add: pipeline_inv_def)
  from step_extends [OF s'(2) this] snoc.prems(2) have "length (batches (p_source s')) < 2 ^ 64"
    by (auto simp: extends_def dest!: prefix_length_le)
  from snoc.IH [OF s'(1) this] abstraction_step [OF s'(2) inv pipeline_reachable [OF snoc.prems(1)] snoc.prems(2)]
  show ?case by (rule rtranclp_trans)
qed

theorem pipeline_refines_at_least_once_witness:
  "\<exists>s. run (pipeline_step demo_env [demo_sink_env])
       (pipeline_start demo_env (length [demo_sink_env]) 0 [] SourceMetrics_default) demo_pipeline_run = Some s \<and>
     (at_least_once 1)\<^sup>*\<^sup>* (0, {}) (abstraction demo_env s)"
proof -
  obtain s where s: "run (pipeline_step demo_env [demo_sink_env])
       (pipeline_start demo_env (length [demo_sink_env]) 0 [] SourceMetrics_default) demo_pipeline_run = Some s"
    "length (batches (p_source s)) = 1"
    by (rule demo_pipeline_exec)
  from pipeline_refines_at_least_once [OF s(1)] s show ?thesis by auto
qed

end
